(* ===== verification/Optronic_Base.thy ===== *)
theory Optronic_Base
  imports Main "HOL-Library.Word"
begin

text \<open>
  Prelude of the Optronic development: the machine-integer types of the C++ code, the
  collections of rewrite rules the component theories share, the part of \<^verbatim>\<open>printf\<close> and
  \<^verbatim>\<open>std::format\<close> the code uses (decimal integers, field padding), and generic lemmas on
  lists and words.
\<close>

unbundle bit_operations_syntax

section \<open>Types and rule collections\<close>

type_synonym u8 = "8 word"
type_synonym u16 = "16 word"
type_synonym u32 = "32 word"
type_synonym u64 = "64 word"

named_theorems mmio_simps \<open>register accesses of a backend, one rule per access\<close>
named_theorems log_simps \<open>effects of logger operations\<close>
named_theorems fmt_simps \<open>lengths and contents of formatted text\<close>

section \<open>Decimal text\<close>

definition digit :: "nat \<Rightarrow> char" where
  "digit d = ''0123456789'' ! (d mod 10)"

definition is_digit :: "char \<Rightarrow> bool" where
  "is_digit c \<longleftrightarrow> c \<in> set ''0123456789''"

fun dec :: "nat \<Rightarrow> string" where
  "dec n = (if n < 10 then [digit n] else dec (n div 10) @ [digit (n mod 10)])"

declare dec.simps [simp del]

definition dec_int :: "int \<Rightarrow> string" where
  "dec_int i = (if i < 0 then CHR ''-'' # dec (nat (- i)) else dec (nat i))"

definition pad_left :: "nat \<Rightarrow> char \<Rightarrow> string \<Rightarrow> string" where
  "pad_left w c s = replicate (w - length s) c @ s"

definition pad_right :: "nat \<Rightarrow> string \<Rightarrow> string" where
  "pad_right w s = s @ replicate (w - length s) (CHR '' '')"

definition digit_val :: "char \<Rightarrow> nat" where
  "digit_val c = of_char c - 48"

definition digits_val :: "string \<Rightarrow> nat" where
  "digits_val cs = foldl (\<lambda>a c. 10 * a + digit_val c) 0 cs"

text \<open>Conditional equations, for evaluating closed terms with the simplifier.\<close>

lemma dec_small: "n < 10 \<Longrightarrow> dec n = [digit n]"
  by (subst dec.simps) simp

lemma dec_big: "10 \<le> n \<Longrightarrow> dec n = dec (n div 10) @ [digit (n mod 10)]"
  by (subst dec.simps) simp

lemmas dec_eval = dec_small dec_big digit_def

lemma is_digit_digit [simp]: "is_digit (digit d)"
  by (simp add: is_digit_def digit_def nth_mem del: set_simps)

lemma digit_val_digit [simp]:
  assumes "d < 10"
  shows "digit_val (digit d) = d"
proof -
  have "d \<in> set [0..<10]" using assms by simp
  then show ?thesis by (auto simp: upt_rec digit_val_def digit_def)
qed

lemma dec_digits: "c \<in> set (dec n) \<Longrightarrow> is_digit c"
proof (induction n rule: dec.induct)
  case (1 n)
  then show ?case by (subst (asm) (2) dec.simps) (auto split: if_splits)
qed

lemma dec_nonempty [simp]: "dec n \<noteq> []"
  by (subst dec.simps) simp

lemma digits_val_snoc [simp]: "digits_val (cs @ [c]) = 10 * digits_val cs + digit_val c"
  by (simp add: digits_val_def)

lemma digits_val_dec [simp]: "digits_val (dec n) = n"
proof (induction n rule: dec.induct)
  case (1 n)
  show ?case
  proof (cases "n < 10")
    case True
    then show ?thesis by (subst dec.simps) (simp add: digits_val_def)
  next
    case False
    then show ?thesis using 1 by (subst dec.simps) simp
  qed
qed

lemma dec_inject [simp]: "dec m = dec n \<longleftrightarrow> m = n"
  by (metis digits_val_dec)

lemma length_dec_le [fmt_simps]: "0 < k \<Longrightarrow> n < 10 ^ k \<Longrightarrow> length (dec n) \<le> k"
proof (induction k arbitrary: n)
  case 0
  then show ?case by simp
next
  case (Suc k)
  show ?case
  proof (cases "n < 10")
    case True
    then show ?thesis by (subst dec.simps) simp
  next
    case False
    with Suc.prems have "0 < k" by (cases k) auto
    moreover have "n div 10 < 10 ^ k" using Suc.prems by (simp add: div_less_iff_less_mult)
    ultimately have "length (dec (n div 10)) \<le> k" by (rule Suc.IH)
    with False show ?thesis by (subst dec.simps) simp
  qed
qed

lemma length_dec_int_le:
  assumes "0 < k" and "\<bar>i\<bar> < 10 ^ k"
  shows "length (dec_int i) \<le> Suc k"
proof -
  have "nat \<bar>i\<bar> < 10 ^ k" using assms(2) by (simp add: nat_less_iff)
  then have "length (dec (nat \<bar>i\<bar>)) \<le> k" by (rule length_dec_le [OF assms(1)])
  then show ?thesis by (auto simp: dec_int_def abs_if split: if_splits)
qed

section \<open>Lists\<close>

lemma nth_update_eq [simp]: "i < length xs \<Longrightarrow> xs[i := v] ! j = (if i = j then v else xs ! j)"
  by (auto simp: nth_list_update)

lemma filter_last_snoc: "P x \<Longrightarrow> last (filter P (xs @ [x])) = x"
  by simp

section \<open>Words\<close>

lemma unat_u32_bound [simp]: "unat (w :: u32) < 4294967296"
  using unsigned_less [of w, where 'a = nat] by simp

lemma unat_u64_bound [simp]: "unat (w :: u64) < 18446744073709551616"
  using unsigned_less [of w, where 'a = nat] by simp

lemma unat_ucast_u32_u64 [simp]: "unat (ucast (w :: u32) :: u64) = unat w"
proof -
  have "unat w < 2 ^ 64" by (rule less_trans [OF unat_u32_bound]) simp
  then show ?thesis by (simp add: unsigned_ucast_eq take_bit_nat_eq_self)
qed

end
