(* ===== verification/Core_Error.thy ===== *)
theory Core_Error
  imports Optronic_Base
begin

text \<open>
  \<^verbatim>\<open>framework/core\<close>: the error space of \<^verbatim>\<open>error.hpp\<close> and the result alias of
  \<^verbatim>\<open>expected.hpp\<close>. A \<^verbatim>\<open>std::expected<T, Error>\<close> is \<open>error_t + 'a\<close>, with
  \<open>Inl\<close> for the error.
\<close>

datatype code =
    ok
  | invalid_arg | timeout | not_ready | io | no_mem
  | cfg_parse | cfg_schema | cfg_range
  | hal_open | hal_map | hal_id_mismatch | hal_irq_timeout | hal_shutter
  | vid_build | vid_state | vid_encoder_lost | vid_stall | vid_caps
  | bit_poweron | bit_continuous
  | mqtt_connect

primrec code_val :: "code \<Rightarrow> u16" where
  "code_val ok = 0x0000"
| "code_val invalid_arg = 0x0001"
| "code_val timeout = 0x0002"
| "code_val not_ready = 0x0003"
| "code_val io = 0x0004"
| "code_val no_mem = 0x0005"
| "code_val cfg_parse = 0x0201"
| "code_val cfg_schema = 0x0202"
| "code_val cfg_range = 0x0203"
| "code_val hal_open = 0x0301"
| "code_val hal_map = 0x0302"
| "code_val hal_id_mismatch = 0x0303"
| "code_val hal_irq_timeout = 0x0304"
| "code_val hal_shutter = 0x0305"
| "code_val vid_build = 0x0401"
| "code_val vid_state = 0x0402"
| "code_val vid_encoder_lost = 0x0403"
| "code_val vid_stall = 0x0404"
| "code_val vid_caps = 0x0405"
| "code_val bit_poweron = 0x0501"
| "code_val bit_continuous = 0x0502"
| "code_val mqtt_connect = 0x0601"

record error_t =
  err_code :: code
  err_where :: string

type_synonym 'a expected = "error_t + 'a"
type_synonym status = "unit expected"

definition domain_of :: "code \<Rightarrow> u16" where
  "domain_of c = code_val c AND 0xFF00"

definition fail :: "code \<Rightarrow> string \<Rightarrow> 'a expected" where
  "fail c w = Inl \<lparr>err_code = c, err_where = w\<rparr>"

lemma fail_simps [simp]:
  "fail c w \<noteq> Inr x" "Inr x \<noteq> fail c w"
  "fail c w = Inl e \<longleftrightarrow> e = \<lparr>err_code = c, err_where = w\<rparr>"
  "(fail c w :: 'a expected) = fail d v \<longleftrightarrow> c = d \<and> w = v"
  by (auto simp: fail_def)

lemma code_val_inject: "code_val c = code_val d \<longleftrightarrow> c = d"
  by (cases c; cases d) simp_all

text \<open>The domain of every code is one of the ranges of SPEC-06 section 1.\<close>

lemma domain_of_cases:
  "domain_of c = (case c of ok \<Rightarrow> 0 | invalid_arg \<Rightarrow> 0 | timeout \<Rightarrow> 0 | not_ready \<Rightarrow> 0
     | io \<Rightarrow> 0 | no_mem \<Rightarrow> 0
     | cfg_parse \<Rightarrow> 0x0200 | cfg_schema \<Rightarrow> 0x0200 | cfg_range \<Rightarrow> 0x0200
     | hal_open \<Rightarrow> 0x0300 | hal_map \<Rightarrow> 0x0300 | hal_id_mismatch \<Rightarrow> 0x0300
     | hal_irq_timeout \<Rightarrow> 0x0300 | hal_shutter \<Rightarrow> 0x0300
     | vid_build \<Rightarrow> 0x0400 | vid_state \<Rightarrow> 0x0400 | vid_encoder_lost \<Rightarrow> 0x0400
     | vid_stall \<Rightarrow> 0x0400 | vid_caps \<Rightarrow> 0x0400
     | bit_poweron \<Rightarrow> 0x0500 | bit_continuous \<Rightarrow> 0x0500
     | mqtt_connect \<Rightarrow> 0x0600)"
  by (cases c) (simp_all add: domain_of_def)

end
