(* ===== verification/App_Lifecycle.thy ===== *)
theory App_Lifecycle
  imports Core_Error
begin

text \<open>
  \<^verbatim>\<open>framework/app\<close>: the \<^verbatim>\<open>Component\<close> interface and the \<^verbatim>\<open>App\<close> that
  sequences components. A component is a record of its four virtual functions over a world
  \<open>'w\<close> that holds every component's own state; the \<open>App\<close> keeps the
  pointers in registration order, how far start-up got, and the stop flag.
\<close>

section \<open>Component and App\<close>

record 'w component =
  comp_name :: string
  comp_init :: "'w \<Rightarrow> status \<times> 'w"
  comp_start :: "'w \<Rightarrow> status \<times> 'w"
  comp_stop :: "'w \<Rightarrow> 'w"

record 'w app =
  components :: "'w component list"
  started :: nat
  running :: bool
  stop_flag :: bool
  kicks :: u64

definition new_app :: "'w app" where
  "new_app = \<lparr>components = [], started = 0, running = False, stop_flag = False, kicks = 0\<rparr>"

definition app_add :: "'w component \<Rightarrow> 'w app \<Rightarrow> 'w app" where
  "app_add c a = a\<lparr>components := components a @ [c]\<rparr>"

text \<open>The \<^verbatim>\<open>while (count > 0)\<close> loop of \<^verbatim>\<open>stop_through\<close>.\<close>

primrec stop_loop :: "'w component list \<Rightarrow> nat \<Rightarrow> 'w \<Rightarrow> 'w" where
  "stop_loop cs 0 w = w"
| "stop_loop cs (Suc count) w = stop_loop cs count (comp_stop (cs ! count) w)"

definition app_stop_through :: "nat \<Rightarrow> 'w app \<Rightarrow> 'w \<Rightarrow> 'w app \<times> 'w" where
  "app_stop_through count a w = (a\<lparr>started := 0\<rparr>, stop_loop (components a) count w)"

function app_start_from :: "nat \<Rightarrow> 'w app \<Rightarrow> 'w \<Rightarrow> status \<times> 'w app \<times> 'w" where
  "app_start_from i a w =
     (if i < length (components a) then
        (case comp_init (components a ! i) w of
           (Inl e, w1) \<Rightarrow> (Inl e, app_stop_through i a w1)
         | (Inr _, w1) \<Rightarrow>
             (let a1 = a\<lparr>started := i + 1\<rparr>
              in case comp_start (components a1 ! i) w1 of
                   (Inl e, w2) \<Rightarrow> (Inl e, app_stop_through (started a1) a1 w2)
                 | (Inr _, w2) \<Rightarrow> app_start_from (i + 1) a1 w2))
      else (Inr (), a\<lparr>running := True\<rparr>, w))"
  by pat_completeness auto
termination
  by (relation "measure (\<lambda>(i, a, w). length (components a) - i)") auto

declare app_start_from.simps [simp del]

definition app_start :: "'w app \<Rightarrow> 'w \<Rightarrow> status \<times> 'w app \<times> 'w" where
  "app_start a w = app_start_from 0 a w"

definition app_stop :: "'w app \<Rightarrow> 'w \<Rightarrow> 'w app \<times> 'w" where
  "app_stop a w = (case app_stop_through (started a) a w of (a1, w1) \<Rightarrow> (a1\<lparr>running := False\<rparr>, w1))"

definition app_destroy :: "'w app \<Rightarrow> 'w \<Rightarrow> 'w app \<times> 'w" where
  "app_destroy a w = app_stop a w"

definition app_request_stop :: "'w app \<Rightarrow> 'w app" where
  "app_request_stop a = a\<lparr>stop_flag := True\<rparr>"

text \<open>
  \<^verbatim>\<open>wait_for_stop\<close>: \<^verbatim>\<open>request_stop\<close> may arrive at any moment from a
  signal handler or another thread. Entry \<open>i\<close> of the schedule says whether it has
  arrived by the end of the \<open>i\<close>-th timed wait; when the schedule ends no further request
  comes and the loop keeps waiting, which is \<open>None\<close>.
\<close>

fun app_wait_for_stop :: "bool list \<Rightarrow> 'w app \<Rightarrow> 'w app option" where
  "app_wait_for_stop sched a =
     (if stop_flag a then Some a
      else case sched of
             [] \<Rightarrow> None
           | arrives # rest \<Rightarrow>
               (let a1 = (if arrives then app_request_stop a else a)
                in if stop_flag a1 then Some a1
                   else app_wait_for_stop rest (a1\<lparr>kicks := kicks a1 + 1\<rparr>)))"

declare app_wait_for_stop.simps [simp del]

text \<open>
  \<^verbatim>\<open>SignalStop\<close>: the handler reads one global pointer. \<open>g_app\<close> is that
  pointer; \<open>None\<close> is the null pointer outside the guard's life.
\<close>

record 'w signal_env =
  g_app :: "'w app option"
  handlers_installed :: bool

definition signal_stop_ctor :: "'w app \<Rightarrow> 'w signal_env \<Rightarrow> 'w signal_env" where
  "signal_stop_ctor a s = s\<lparr>g_app := Some a, handlers_installed := True\<rparr>"

definition signal_stop_dtor :: "'w signal_env \<Rightarrow> 'w signal_env" where
  "signal_stop_dtor s = s\<lparr>handlers_installed := False, g_app := None\<rparr>"

definition handle_stop_signal :: "'w signal_env \<Rightarrow> 'w signal_env" where
  "handle_stop_signal s =
     (case g_app s of None \<Rightarrow> s | Some a \<Rightarrow> s\<lparr>g_app := Some (app_request_stop a)\<rparr>)"


section \<open>Start-up and shutdown as a trace\<close>

text \<open>
  To state the order contract, every component is instrumented: each call appends an event
  (with the component's index and the status it returned) to a trace kept beside the world.
  The instrumented component calls the original one on the original world.
\<close>

datatype life = Init nat status | Start nat status | Stop nat

definition traced :: "nat \<Rightarrow> 'w component \<Rightarrow> ('w \<times> life list) component" where
  "traced i c =
     \<lparr>comp_name = comp_name c,
      comp_init = (\<lambda>(w, t). case comp_init c w of (r, w1) \<Rightarrow> (r, w1, t @ [Init i r])),
      comp_start = (\<lambda>(w, t). case comp_start c w of (r, w1) \<Rightarrow> (r, w1, t @ [Start i r])),
      comp_stop = (\<lambda>(w, t). (comp_stop c w, t @ [Stop i]))\<rparr>"

definition instrument :: "'w component list \<Rightarrow> ('w \<times> life list) component list" where
  "instrument cs = map (\<lambda>i. traced i (cs ! i)) [0..<length cs]"

definition app_of :: "'w component list \<Rightarrow> 'w app" where
  "app_of cs = foldl (\<lambda>a c. app_add c a) new_app cs"

definition ups :: "nat \<Rightarrow> nat \<Rightarrow> life list" where
  "ups i k = concat (map (\<lambda>j. [Init j (Inr ()), Start j (Inr ())]) [i..<k])"

definition downs :: "nat \<Rightarrow> life list" where
  "downs k = map Stop (rev [0..<k])"

fun initialised :: "life list \<Rightarrow> nat list" where
  "initialised [] = []"
| "initialised (Init i (Inr _) # t) = i # initialised t"
| "initialised (_ # t) = initialised t"

fun stopped :: "life list \<Rightarrow> nat list" where
  "stopped [] = []"
| "stopped (Stop i # t) = i # stopped t"
| "stopped (_ # t) = stopped t"

lemma length_instrument [simp]: "length (instrument cs) = length cs"
  by (simp add: instrument_def)

lemma nth_instrument [simp]: "i < length cs \<Longrightarrow> instrument cs ! i = traced i (cs ! i)"
  by (simp add: instrument_def)

lemma components_foldl_add:
  "foldl (\<lambda>a c. app_add c a) a cs = a\<lparr>components := components a @ cs\<rparr>"
  by (induction cs arbitrary: a) (simp_all add: app_add_def)

lemma app_of_eq: "app_of cs = new_app\<lparr>components := cs\<rparr>"
  by (simp add: app_of_def components_foldl_add new_app_def)

lemma ups_same [simp]: "ups i i = []"
  by (simp add: ups_def)

lemma ups_Cons: "i < k \<Longrightarrow> ups i k = Init i (Inr ()) # Start i (Inr ()) # ups (Suc i) k"
  by (simp add: ups_def upt_conv_Cons)

lemma downs_Suc: "downs (Suc k) = Stop k # downs k"
  by (simp add: downs_def)

lemma downs_0 [simp]: "downs 0 = []"
  by (simp add: downs_def)

lemma initialised_append [simp]: "initialised (s @ t) = initialised s @ initialised t"
  by (induction s rule: initialised.induct) auto

lemma stopped_append [simp]: "stopped (s @ t) = stopped s @ stopped t"
  by (induction s rule: stopped.induct) auto

lemma initialised_ups [simp]: "initialised (ups i k) = [i..<k]"
  by (induction "k - i" arbitrary: i) (auto simp: ups_Cons upt_conv_Cons ups_def)

lemma ups_ge: "k \<le> i \<Longrightarrow> ups i k = []"
  by (simp add: ups_def)

lemma stopped_ups [simp]: "stopped (ups i k) = []"
proof (induction "k - i" arbitrary: i)
  case 0
  then show ?case by (simp add: ups_ge)
next
  case (Suc x)
  then show ?case by (simp add: ups_Cons)
qed

lemma initialised_downs [simp]: "initialised (downs k) = []"
  by (induction k) (auto simp: downs_Suc)

lemma stopped_downs [simp]: "stopped (downs k) = rev [0..<k]"
  by (induction k) (auto simp: downs_Suc)

lemma stop_loop_trace:
  "k \<le> length cs \<Longrightarrow> \<exists>w'. stop_loop (instrument cs) k (w, t) = (w', t @ downs k)"
proof (induction k arbitrary: w t)
  case 0
  then show ?case by simp
next
  case (Suc k)
  then obtain w' where "stop_loop (instrument cs) k (comp_stop (cs ! k) w, t @ [Stop k])
      = (w', (t @ [Stop k]) @ downs k)" by (meson Suc_leD)
  with Suc.prems show ?case by (simp add: traced_def downs_Suc)
qed

text \<open>The three ways a start-up from component \<open>i\<close> can end.\<close>

inductive start_outcome :: "nat \<Rightarrow> nat \<Rightarrow> status \<Rightarrow> 'w app \<Rightarrow> 'w app \<Rightarrow> life list \<Rightarrow> bool"
  for n :: nat where
  none_left: "start_outcome n n (Inr ()) a (a\<lparr>running := True\<rparr>) []"
| all_up: "i < n \<Longrightarrow> start_outcome n i (Inr ()) a (a\<lparr>started := n, running := True\<rparr>) (ups i n)"
| init_fails: "i \<le> k \<Longrightarrow> k < n \<Longrightarrow>
    start_outcome n i (Inl e) a (a\<lparr>started := 0\<rparr>) (ups i k @ [Init k (Inl e)] @ downs k)"
| start_fails: "i \<le> k \<Longrightarrow> k < n \<Longrightarrow>
    start_outcome n i (Inl e) a (a\<lparr>started := 0\<rparr>)
      (ups i k @ [Init k (Inr ()), Start k (Inl e)] @ downs (Suc k))"

lemma start_outcome_step:
  assumes "start_outcome n (Suc i) r (a\<lparr>started := Suc i\<rparr>) a' tr" and "i < n"
  shows "start_outcome n i r a a' (Init i (Inr ()) # Start i (Inr ()) # tr)"
  using assms
proof (cases rule: start_outcome.cases)
  case none_left
  then show ?thesis using start_outcome.all_up [of i n a] assms(2) by (simp add: ups_Cons)
next
  case all_up
  then show ?thesis using start_outcome.all_up [of i n a] by (simp add: ups_Cons)
next
  case (init_fails k e)
  then show ?thesis using start_outcome.init_fails [of i k n e a] by (simp add: ups_Cons)
next
  case (start_fails k e)
  then show ?thesis using start_outcome.start_fails [of i k n e a] by (simp add: ups_Cons)
qed

lemma app_start_from_outcome:
  assumes "i \<le> length cs" and "components a = instrument cs"
  shows "\<exists>r a' w' tr. app_start_from i a (w, t) = (r, a', w', t @ tr)
           \<and> start_outcome (length cs) i r a a' tr"
  using assms
proof (induction "length cs - i" arbitrary: i a w t)
  case 0
  then show ?case by (auto simp: app_start_from.simps intro: start_outcome.none_left)
next
  case (Suc x)
  then have i: "i < length cs" by simp
  obtain r1 w1 where init: "comp_init (cs ! i) w = (r1, w1)" by fastforce
  show ?case
  proof (cases r1)
    case (Inl e)
    obtain w' where "stop_loop (instrument cs) i (w1, t @ [Init i (Inl e)])
        = (w', (t @ [Init i (Inl e)]) @ downs i)"
      using stop_loop_trace [of i cs] i by fastforce
    then show ?thesis using i init Inl Suc.prems start_outcome.init_fails [of i i "length cs" e a]
      by (simp add: app_start_from.simps [of i] traced_def app_stop_through_def)
  next
    case (Inr u)
    let ?a = "a\<lparr>started := Suc i\<rparr>"
    let ?t = "t @ [Init i (Inr ())]"
    obtain r2 w2 where start: "comp_start (cs ! i) w1 = (r2, w2)" by fastforce
    show ?thesis
    proof (cases r2)
      case (Inl e)
      obtain w' where "stop_loop (instrument cs) (Suc i) (w2, ?t @ [Start i (Inl e)])
          = (w', (?t @ [Start i (Inl e)]) @ downs (Suc i))"
        using stop_loop_trace [of "Suc i" cs] i by fastforce
      then show ?thesis
        using i init start Inr Inl Suc.prems start_outcome.start_fails [of i i "length cs" e a]
        by (simp add: app_start_from.simps [of i] traced_def app_stop_through_def
            del: stop_loop.simps)
    next
      case Inr2: (Inr v)
      have "\<exists>r a' w' tr. app_start_from (Suc i) ?a (w2, ?t @ [Start i (Inr ())])
          = (r, a', w', (?t @ [Start i (Inr ())]) @ tr) \<and> start_outcome (length cs) (Suc i) r ?a a' tr"
        using Suc i by (intro Suc.hyps(1)) auto
      then obtain r a' w' tr where rec: "app_start_from (Suc i) ?a (w2, ?t @ [Start i (Inr ())])
          = (r, a', w', (?t @ [Start i (Inr ())]) @ tr)"
        and out: "start_outcome (length cs) (Suc i) r ?a a' tr" by blast
      from start_outcome_step [OF out i] rec show ?thesis
        using i init start Inr Inr2 Suc.prems
        by (auto simp: app_start_from.simps [of i] traced_def)
    qed
  qed
qed

text \<open>Instrumentation changes nothing: the traced run is the plain run with a trace beside it.\<close>

lemma stop_loop_erase:
  "k \<le> length cs \<Longrightarrow> fst (stop_loop (instrument cs) k (w, t)) = stop_loop cs k w"
  by (induction k arbitrary: w t) (simp_all add: traced_def)

lemma app_start_from_erase:
  assumes "i \<le> length cs" and "components a = instrument cs" and "components b = cs"
    and "app_start_from i a (w, t) = (r, a', w', t')"
  shows "\<exists>b'. app_start_from i b w = (r, b', w')"
  using assms
proof (induction "length cs - i" arbitrary: i a b w t)
  case 0
  then show ?case by (simp add: app_start_from.simps)
next
  case (Suc x)
  then have i: "i < length cs" by simp
  obtain r1 w1 where init: "comp_init (cs ! i) w = (r1, w1)" by fastforce
  obtain r2 w2 where start: "comp_start (cs ! i) w1 = (r2, w2)" by fastforce
  show ?case
  proof (cases r1)
    case (Inl e)
    with Suc.prems i init stop_loop_erase [of i cs w1 "t @ [Init i (Inl e)]"] show ?thesis
      by (auto simp: app_start_from.simps [of i] traced_def app_stop_through_def)
  next
    case Inr1: (Inr u)
    show ?thesis
    proof (cases r2)
      case (Inl e)
      with Suc.prems i init start Inr1
        stop_loop_erase [of "Suc i" cs w2 "t @ [Init i (Inr ()), Start i (Inl e)]"]
      show ?thesis
        by (auto simp: app_start_from.simps [of i] traced_def app_stop_through_def
            simp del: stop_loop.simps)
    next
      case (Inr v)
      have "\<exists>b'. app_start_from (Suc i) (b\<lparr>started := Suc i\<rparr>) w2 = (r, b', w')"
        using Suc.hyps(2) Suc.prems i init start Inr1 Inr
        by (intro Suc.hyps(1) [of "Suc i" "a\<lparr>started := Suc i\<rparr>" _ _
              "t @ [Init i (Inr ()), Start i (Inr ())]"])
          (auto simp: app_start_from.simps [of i] traced_def)
      with Suc.prems i init start Inr1 Inr show ?thesis
        by (simp add: app_start_from.simps [of i])
    qed
  qed
qed

lemma app_start_from_all:
  "app_start_from i a w = (Inr u, a', w') \<Longrightarrow> started a = i \<Longrightarrow> i \<le> length (components a) \<Longrightarrow>
     started a' = length (components a)"
proof (induction i a w arbitrary: a' w' rule: app_start_from.induct)
  case (1 i a w)
  show ?case
  proof (cases "i < length (components a)")
    case False
    then show ?thesis using "1.prems" by (auto simp: app_start_from.simps)
  next
    case True
    obtain r1 w1 where init: "comp_init (components a ! i) w = (r1, w1)" by fastforce
    obtain r2 w2 where start: "comp_start (components a ! i) w1 = (r2, w2)" by fastforce
    obtain x y where ok: "r1 = Inr x" "r2 = Inr y"
      using "1.prems" True init start
      by (cases r1; cases r2) (auto simp: app_start_from.simps [of i] app_stop_through_def simp del: stop_loop.simps)
    have "app_start_from (Suc i) (a\<lparr>started := Suc i\<rparr>) w2 = (Inr u, a', w')"
      using "1.prems" True init start ok by (simp add: app_start_from.simps [of i])
    with "1.IH" [of r1 w1 x "a\<lparr>started := i + 1\<rparr>" r2 w2 y a' w'] True init start ok show ?thesis by simp
  qed
qed

lemma app_start_from_failed:
  "app_start_from i a w = (Inl e, a', w') \<Longrightarrow> started a' = 0"
proof (induction i a w rule: app_start_from.induct)
  case (1 i a w)
  show ?case
  proof (cases "i < length (components a)")
    case False
    then show ?thesis using "1.prems" by (auto simp: app_start_from.simps)
  next
    case i: True
    obtain r1 w1 where init: "comp_init (components a ! i) w = (r1, w1)" by fastforce
    obtain r2 w2 where start: "comp_start (components a ! i) w1 = (r2, w2)" by fastforce
    show ?thesis
      using "1.prems" "1.IH" [of r1 w1 _ "a\<lparr>started := i + 1\<rparr>" r2 w2] i init start
      by (cases r1; cases r2)
        (auto simp: app_start_from.simps [of i] app_stop_through_def simp del: stop_loop.simps)
  qed
qed

section \<open>Contracts of a set of components\<close>

text \<open>A world invariant that every operation of every component keeps.\<close>

locale component_suite =
  fixes cs :: "'w component list" and I :: "'w \<Rightarrow> bool"
  assumes init_inv: "i < length cs \<Longrightarrow> I w \<Longrightarrow> I (snd (comp_init (cs ! i) w))"
    and start_inv: "i < length cs \<Longrightarrow> I w \<Longrightarrow> I (snd (comp_start (cs ! i) w))"
    and stop_inv: "i < length cs \<Longrightarrow> I w \<Longrightarrow> I (comp_stop (cs ! i) w)"
begin

lemma stop_loop_inv: "k \<le> length cs \<Longrightarrow> I w \<Longrightarrow> I (stop_loop cs k w)"
  by (induction k arbitrary: w) (simp_all add: stop_inv)

lemma start_from_inv:
  "components a = cs \<Longrightarrow> started a \<le> length cs \<Longrightarrow> I w \<Longrightarrow> i \<le> length cs \<Longrightarrow>
     app_start_from i a w = (r, a', w') \<Longrightarrow>
     I w' \<and> components a' = cs \<and> started a' \<le> length cs"
proof (induction i a w arbitrary: r a' w' rule: app_start_from.induct)
  case (1 i a w)
  show ?case
  proof (cases "i < length cs")
    case False
    then show ?thesis using "1.prems" by (auto simp: app_start_from.simps)
  next
    case i: True
    obtain r1 w1 where init: "comp_init (cs ! i) w = (r1, w1)" by fastforce
    obtain r2 w2 where start: "comp_start (cs ! i) w1 = (r2, w2)" by fastforce
    have I1: "I w1" using init_inv [OF i] "1.prems" init by force
    have I2: "I w2" using start_inv [OF i I1] start by simp
    show ?thesis
    proof (cases r1)
      case (Inl e)
      then show ?thesis using "1.prems" i init stop_loop_inv [OF _ I1]
        by (auto simp: app_start_from.simps [of i] app_stop_through_def)
    next
      case Inr1: (Inr u)
      show ?thesis
      proof (cases r2)
        case (Inl e)
        then show ?thesis using "1.prems" i init start Inr1 stop_loop_inv [OF _ I2, of "Suc i"]
          by (auto simp: app_start_from.simps [of i] app_stop_through_def simp del: stop_loop.simps)
      next
        case (Inr v)
        have eq: "app_start_from (Suc i) (a\<lparr>started := Suc i\<rparr>) w2 = (r, a', w')"
          using "1.prems" i init start Inr1 Inr by (simp add: app_start_from.simps [of i])
        show ?thesis
          using "1.IH" [of "Inr u" w1 u "a\<lparr>started := i + 1\<rparr>" "Inr v" w2 v] "1.prems" i init start
            Inr1 Inr eq I2 by simp
      qed
    qed
  qed
qed

lemma app_start_keeps: "I w \<Longrightarrow> app_start (app_of cs) w = (r, a', w') \<Longrightarrow> I w'"
  using start_from_inv [of "app_of cs" w 0 r a' w']
  by (simp add: app_start_def app_of_eq new_app_def)

lemma lifecycle_keeps:
  "I w \<Longrightarrow> app_start (app_of cs) w = (r, a', w') \<Longrightarrow> I (snd (app_stop a' w'))"
  using start_from_inv [of "app_of cs" w 0 r a' w'] stop_loop_inv [of "started a'" w']
  by (auto simp: app_start_def app_of_eq new_app_def app_stop_def app_stop_through_def)

end

text \<open>
  A component is quiet when it holds nothing that a stop would have to release. Operations of
  one component do not wake another; a failed \<^verbatim>\<open>init\<close> leaves its component quiet, since the
  lifecycle never stops a component whose \<^verbatim>\<open>init\<close> failed; \<^verbatim>\<open>stop\<close> makes it quiet.
\<close>

locale quiet_suite = component_suite +
  fixes quiet :: "nat \<Rightarrow> 'a \<Rightarrow> bool"
  assumes init_other: "i < length cs \<Longrightarrow> j \<noteq> i \<Longrightarrow> I w \<Longrightarrow> quiet j w \<Longrightarrow> quiet j (snd (comp_init (cs ! i) w))"
    and start_other: "i < length cs \<Longrightarrow> j \<noteq> i \<Longrightarrow> I w \<Longrightarrow> quiet j w \<Longrightarrow> quiet j (snd (comp_start (cs ! i) w))"
    and stop_other: "i < length cs \<Longrightarrow> j \<noteq> i \<Longrightarrow> I w \<Longrightarrow> quiet j w \<Longrightarrow> quiet j (comp_stop (cs ! i) w)"
    and init_failed: "i < length cs \<Longrightarrow> I w \<Longrightarrow> quiet i w \<Longrightarrow> comp_init (cs ! i) w = (Inl e, w') \<Longrightarrow> quiet i w'"
    and stop_quiets: "i < length cs \<Longrightarrow> I w \<Longrightarrow> quiet i (comp_stop (cs ! i) w)"
begin

lemma stop_loop_quiets:
  "k \<le> length cs \<Longrightarrow> I w \<Longrightarrow> (\<And>j. k \<le> j \<Longrightarrow> quiet j w) \<Longrightarrow> quiet j (stop_loop cs k w)"
proof (induction k arbitrary: w)
  case 0
  then show ?case by simp
next
  case (Suc k)
  have "quiet j' (comp_stop (cs ! k) w)" if "k \<le> j'" for j'
    using that Suc.prems by (cases "j' = k") (auto simp: stop_quiets intro!: stop_other)
  then show ?case using Suc.prems Suc.IH [of "comp_stop (cs ! k) w"] by (simp add: stop_inv)
qed

lemma start_from_quiet:
  "components a = cs \<Longrightarrow> I w \<Longrightarrow> i \<le> length cs \<Longrightarrow> started a = i \<Longrightarrow> (\<And>j. i \<le> j \<Longrightarrow> quiet j w) \<Longrightarrow>
     app_start_from i a w = (r, a', w') \<Longrightarrow>
     (\<forall>j. started a' \<le> j \<longrightarrow> quiet j w')"
proof (induction i a w arbitrary: r a' w' rule: app_start_from.induct)
  case (1 i a w)
  show ?case
  proof (cases "i < length cs")
    case False
    then show ?thesis using "1.prems" by (auto simp: app_start_from.simps)
  next
    case i: True
    obtain r1 w1 where init: "comp_init (cs ! i) w = (r1, w1)" by fastforce
    obtain r2 w2 where start: "comp_start (cs ! i) w1 = (r2, w2)" by fastforce
    have I1: "I w1" using init_inv [OF i] "1.prems" init by force
    have I2: "I w2" using start_inv [OF i I1] start by simp
    have q1: "quiet j w1" if "Suc i \<le> j" for j
      using init_other [OF i, of j w] that "1.prems" init by simp
    have q2: "quiet j w2" if "Suc i \<le> j" for j
      using start_other [OF i, of j w1] that q1 I1 start by simp
    show ?thesis
    proof (cases r1)
      case (Inl e)
      have "quiet j w1" if "i \<le> j" for j
        using that q1 [of j] init_failed [OF i, of w e w1] "1.prems" init Inl by (cases "j = i") auto
      then have "quiet j (stop_loop cs i w1)" for j
        using i I1 by (intro stop_loop_quiets) auto
      then show ?thesis using "1.prems" i init Inl
        by (auto simp: app_start_from.simps [of i] app_stop_through_def)
    next
      case Inr1: (Inr u)
      show ?thesis
      proof (cases r2)
        case (Inl e)
        have "quiet j (stop_loop cs (Suc i) w2)" for j
          using i I2 q2 by (intro stop_loop_quiets) auto
        then show ?thesis using "1.prems" i init start Inr1 Inl
          by (auto simp: app_start_from.simps [of i] app_stop_through_def simp del: stop_loop.simps)
      next
        case (Inr v)
        have eq: "app_start_from (Suc i) (a\<lparr>started := Suc i\<rparr>) w2 = (r, a', w')"
          using "1.prems" i init start Inr1 Inr by (simp add: app_start_from.simps [of i])
        show ?thesis
          using "1.IH" [of "Inr u" w1 u "a\<lparr>started := i + 1\<rparr>" "Inr v" w2 v] "1.prems" i init start
            Inr1 Inr eq I2 q2 by simp
      qed
    qed
  qed
qed

lemma failed_start_quiet:
  assumes "I w" and "\<And>j. quiet j w" and "app_start (app_of cs) w = (Inl e, a', w')"
  shows "quiet j w'"
proof -
  have "started a' = 0"
    using assms(3) unfolding app_start_def by (rule app_start_from_failed)
  then show ?thesis using start_from_quiet [of "app_of cs" w 0 "Inl e" a' w'] assms
    by (auto simp: app_start_def app_of_eq new_app_def)
qed

lemma stopped_quiet:
  assumes "I w" and "\<And>j. quiet j w" and "app_start (app_of cs) w = (r, a', w')"
  shows "quiet j (snd (app_stop a' w'))"
  using start_from_quiet [of "app_of cs" w 0 r a' w'] start_from_inv [of "app_of cs" w 0 r a' w'] assms
    stop_loop_quiets [of "started a'" w' j]
  by (auto simp: app_start_def app_of_eq new_app_def app_stop_def app_stop_through_def)

text \<open>The same when the world moves on between the start and the stop, and wakes nothing that was not started.\<close>

lemma stopped_quiet_later:
  assumes "I w" and "\<And>j. quiet j w" and "app_start (app_of cs) w = (Inr u, a1, w1)"
    and "I w2" and "\<And>j. length cs \<le> j \<Longrightarrow> quiet j w1 \<Longrightarrow> quiet j w2"
    and "components a2 = components a1" and "started a2 = started a1"
  shows "I (snd (app_stop a2 w2)) \<and> quiet j (snd (app_stop a2 w2))"
proof -
  have s: "app_start_from 0 (app_of cs) w = (Inr u, a1, w1)" using assms(3) by (simp add: app_start_def)
  have a1: "components a1 = cs" "started a1 = length cs"
    using start_from_inv [OF _ _ assms(1) _ s] app_start_from_all [OF s] by (auto simp: app_of_eq new_app_def)
  have "\<forall>j. started a1 \<le> j \<longrightarrow> quiet j w1"
    by (rule start_from_quiet [OF _ assms(1) _ _ _ s]) (simp_all add: app_of_eq new_app_def assms(2))
  then show ?thesis
    using assms(4-7) a1 stop_loop_quiets [of "started a1" w2 j] stop_loop_inv [of "started a1" w2]
    by (auto simp: app_stop_def app_stop_through_def)
qed

end

text \<open>
  Components that come up one after the other: what component \<open>i\<close> needs is there once those before it
  are started.
\<close>

locale startable_suite =
  fixes cs :: "'w component list" and ready :: "nat \<Rightarrow> 'w \<Rightarrow> bool"
  assumes comes_up: "i < length cs \<Longrightarrow> ready i w \<Longrightarrow>
    \<exists>w1 w2. comp_init (cs ! i) w = (Inr (), w1) \<and> comp_start (cs ! i) w1 = (Inr (), w2) \<and> ready (Suc i) w2"
begin

lemma start_from_succeeds:
  "components a = cs \<Longrightarrow> i \<le> length cs \<Longrightarrow> ready i w \<Longrightarrow>
     \<exists>a' w'. app_start_from i a w = (Inr (), a', w') \<and> ready (length cs) w'"
proof (induction "length cs - i" arbitrary: i a w)
  case 0
  then show ?case by (auto simp: app_start_from.simps)
next
  case (Suc x)
  then have i: "i < length cs" by simp
  obtain w1 w2 where up: "comp_init (cs ! i) w = (Inr (), w1)" "comp_start (cs ! i) w1 = (Inr (), w2)" "ready (Suc i) w2"
    using comes_up [OF i Suc.prems(3)] by blast
  have "\<exists>a' w'. app_start_from (Suc i) (a\<lparr>started := Suc i\<rparr>) w2 = (Inr (), a', w') \<and> ready (length cs) w'"
    using Suc i up(3) by simp
  then show ?case using Suc.prems(1) i up by (simp add: app_start_from.simps [of i])
qed

lemma app_start_succeeds:
  "ready 0 w \<Longrightarrow> \<exists>a w'. app_start (app_of cs) w = (Inr (), a, w') \<and> ready (length cs) w'"
  using start_from_succeeds [of "app_of cs" 0 w] by (simp add: app_start_def app_of_eq new_app_def)

end

section \<open>Properties\<close>

lemma app_start_outcome:
  "\<exists>r a' a'' w' tr. app_start (app_of (instrument cs)) (w, []) = (r, a', w', tr)
     \<and> start_outcome (length cs) 0 r (app_of (instrument cs)) a' tr
     \<and> app_start (app_of cs) w = (r, a'', w')"
proof -
  obtain r a' w' tr where
    run: "app_start_from 0 (app_of (instrument cs)) (w, []) = (r, a', w', tr)"
    and out: "start_outcome (length cs) 0 r (app_of (instrument cs)) a' tr"
    using app_start_from_outcome [of 0 cs "app_of (instrument cs)" w "[]"]
    by (auto simp: app_of_eq)
  moreover obtain b' where "app_start_from 0 (app_of cs) w = (r, b', w')"
    using app_start_from_erase [OF _ _ _ run, of cs "app_of cs"] by (auto simp: app_of_eq)
  ultimately show ?thesis unfolding app_start_def by blast
qed

text \<open>
  C14. Start-up order and rollback (SRS-LC-01, SRS-LC-03): for every list of components, starting
  the App calls \<^verbatim>\<open>init\<close> then \<^verbatim>\<open>start\<close> of each component in registration order; if
  component \<open>k\<close> fails to initialise, components \<open>k-1, ..., 0\<close> are stopped in that order; if
  it fails to start, components \<open>k, k-1, ..., 0\<close> are; in both cases the error returned is the
  one that component reported and nothing else is called. The status and the world are those of the
  uninstrumented run.
\<close>

theorem app_start_order:
  "\<exists>r a' a'' w' tr. app_start (app_of (instrument cs)) (w, []) = (r, a', w', tr)
     \<and> app_start (app_of cs) w = (r, a'', w')
     \<and> ((r = Inr () \<and> tr = ups 0 (length cs) \<and> started a' = length cs \<and> running a')
        \<or> (\<exists>k e. k < length cs \<and> r = Inl e \<and> tr = ups 0 k @ [Init k (Inl e)] @ downs k
             \<and> started a' = 0 \<and> \<not> running a')
        \<or> (\<exists>k e. k < length cs \<and> r = Inl e
             \<and> tr = ups 0 k @ [Init k (Inr ()), Start k (Inl e)] @ downs (Suc k)
             \<and> started a' = 0 \<and> \<not> running a'))"
proof -
  obtain r a' a'' w' tr where run: "app_start (app_of (instrument cs)) (w, []) = (r, a', w', tr)"
    and out: "start_outcome (length cs) 0 r (app_of (instrument cs)) a' tr"
    and plain: "app_start (app_of cs) w = (r, a'', w')"
    using app_start_outcome [of cs w] by blast
  from out have "(r = Inr () \<and> tr = ups 0 (length cs) \<and> started a' = length cs \<and> running a')
        \<or> (\<exists>k e. k < length cs \<and> r = Inl e \<and> tr = ups 0 k @ [Init k (Inl e)] @ downs k
             \<and> started a' = 0 \<and> \<not> running a')
        \<or> (\<exists>k e. k < length cs \<and> r = Inl e
             \<and> tr = ups 0 k @ [Init k (Inr ()), Start k (Inl e)] @ downs (Suc k)
             \<and> started a' = 0 \<and> \<not> running a')"
    by (cases rule: start_outcome.cases) (auto simp: app_of_eq new_app_def)
  with run plain show ?thesis by blast
qed

definition lifecycle :: "'w component list \<Rightarrow> 'w \<Rightarrow> 'w app \<times> 'w" where
  "lifecycle cs w =
     (case app_start (app_of cs) w of (r, a1, w1) \<Rightarrow>
        (case app_stop a1 w1 of (a2, w2) \<Rightarrow> app_destroy a2 w2))"

text \<open>
  C15. No leak and no double stop (SRS-LC-02): over a whole life (start, stop, destructor), whatever
  the components answer, the components stopped are exactly those whose \<^verbatim>\<open>init\<close> succeeded, each
  once, in reverse order; afterwards the App holds nothing started.
\<close>

theorem lifecycle_balanced:
  "\<exists>a' w' tr. lifecycle (instrument cs) (w, []) = (a', w', tr)
     \<and> stopped tr = rev (initialised tr) \<and> started a' = 0 \<and> \<not> running a'"
proof -
  obtain r a1 w1 tr where run: "app_start (app_of (instrument cs)) (w, []) = (r, a1, w1, tr)"
    and out: "start_outcome (length cs) 0 r (app_of (instrument cs)) a1 tr"
    using app_start_outcome [of cs w] by blast
  have comps: "components a1 = instrument cs"
    using out by cases (auto simp: app_of_eq)
  have bal: "started a1 \<le> length cs \<and> stopped tr @ rev [0..<started a1] = rev (initialised tr)"
    using out by cases (auto simp: app_of_eq new_app_def downs_Suc)
  then obtain w2 where "stop_loop (instrument cs) (started a1) (w1, tr) = (w2, tr @ downs (started a1))"
    using stop_loop_trace [of "started a1" cs w1 tr] by blast
  with run comps bal show ?thesis
    by (auto simp: lifecycle_def app_stop_def app_stop_through_def app_destroy_def)
qed

lemma wait_keeps: "app_wait_for_stop sched a = Some a' \<Longrightarrow> components a' = components a \<and> started a' = started a"
proof (induction sched arbitrary: a)
  case Nil
  then show ?case by (auto simp: app_wait_for_stop.simps [of "[]"] split: if_splits)
next
  case (Cons b sched)
  from Cons.prems show ?case
    by (auto simp: app_wait_for_stop.simps [of "b # sched"] app_request_stop_def Let_def
        dest: Cons.IH split: if_splits)
qed

lemma wait_returns: "True \<in> set sched \<Longrightarrow> \<exists>a'. app_wait_for_stop sched a = Some a'"
proof (induction sched arbitrary: a)
  case (Cons b sched)
  then show ?case by (subst app_wait_for_stop.simps) (auto simp: app_request_stop_def Let_def)
qed simp

lemma wait_no_arrival:
  "\<not> stop_flag a \<Longrightarrow> app_wait_for_stop (replicate n False @ sched) a
     = app_wait_for_stop sched (a\<lparr>kicks := kicks a + of_nat n\<rparr>)"
proof (induction n arbitrary: a)
  case 0
  then show ?case by simp
next
  case (Suc n)
  then show ?case
    by (subst app_wait_for_stop.simps) (simp add: algebra_simps)
qed

text \<open>
  The waiter (SRS-LC-04): \<^verbatim>\<open>wait_for_stop\<close> kicks the watchdog once for every period that
  ends without a stop request and returns in the period in which the request arrives, without a
  further kick; a request made before the call returns at once; with no request it does not return.
\<close>

lemma wait_for_stop_kicks:
  "app_wait_for_stop (replicate n False @ True # rest) (a\<lparr>stop_flag := False\<rparr>)
     = Some (a\<lparr>stop_flag := True, kicks := kicks a + of_nat n\<rparr>)
   \<and> app_wait_for_stop sched (app_request_stop a) = Some (app_request_stop a)
   \<and> app_wait_for_stop (replicate n False) (a\<lparr>stop_flag := False\<rparr>) = None"
proof (intro conjI)
  let ?a = "a\<lparr>stop_flag := False\<rparr>"
  have "app_wait_for_stop (True # rest) (?a\<lparr>kicks := kicks ?a + of_nat n\<rparr>)
      = Some (a\<lparr>stop_flag := True, kicks := kicks a + of_nat n\<rparr>)"
    by (subst app_wait_for_stop.simps) (simp add: app_request_stop_def)
  then show "app_wait_for_stop (replicate n False @ True # rest) ?a
      = Some (a\<lparr>stop_flag := True, kicks := kicks a + of_nat n\<rparr>)"
    by (subst wait_no_arrival) simp_all
  show "app_wait_for_stop sched (app_request_stop a) = Some (app_request_stop a)"
    by (subst app_wait_for_stop.simps) (simp add: app_request_stop_def)
  have "app_wait_for_stop (replicate n False @ []) ?a = None"
    by (subst wait_no_arrival) (simp, subst app_wait_for_stop.simps, simp)
  then show "app_wait_for_stop (replicate n False) ?a = None" by simp
qed

lemma handler_sets_flag:
  "g_app (handle_stop_signal (signal_stop_ctor a s)) = Some (app_request_stop a)"
  "handle_stop_signal (signal_stop_dtor s) = signal_stop_dtor s"
  by (simp_all add: handle_stop_signal_def signal_stop_ctor_def signal_stop_dtor_def)

end
