(* ===== verification/Log_Ring.thy ===== *)
theory Log_Ring
  imports Core_Error "HOL-Library.Sublist"
begin

text \<open>
  \<^verbatim>\<open>framework/log/ring.hpp\<close>: the single-producer single-consumer ring. First the two
  operations as functions on the ring, with a queue contract they satisfy; then the same
  operations split at their atomic accesses, run by two threads in any interleaving.
\<close>

section \<open>The ring and its operations\<close>

text \<open>
  The free-running indices are 64-bit words and wrap; the slots are a list of \<^verbatim>\<open>Capacity\<close>
  records. The record type is a parameter.
\<close>

record 'a spsc =
  write_ix :: u64
  read_ix :: u64
  slots :: "'a list"

definition capacity :: "'a spsc \<Rightarrow> nat" where
  "capacity r = length (slots r)"

definition kMask :: "'a spsc \<Rightarrow> u64" where
  "kMask r = of_nat (capacity r) - 1"

definition new_ring :: "nat \<Rightarrow> 'a \<Rightarrow> 'a spsc" where
  "new_ring cap x = \<lparr>write_ix = 0, read_ix = 0, slots = replicate cap x\<rparr>"

definition try_push :: "'a \<Rightarrow> 'a spsc \<Rightarrow> bool \<times> 'a spsc" where
  "try_push x r =
     (let w = write_ix r; nxt = w + 1
      in if nxt - read_ix r > of_nat (capacity r) then (False, r)
         else (True, r\<lparr>slots := (slots r)[unat (w AND kMask r) := x], write_ix := nxt\<rparr>))"

definition try_pop :: "'a spsc \<Rightarrow> 'a option \<times> 'a spsc" where
  "try_pop r =
     (let rd = read_ix r
      in if rd = write_ix r then (None, r)
         else (Some (slots r ! unat (rd AND kMask r)), r\<lparr>read_ix := rd + 1\<rparr>))"

definition size_approx :: "'a spsc \<Rightarrow> u64" where
  "size_approx r = write_ix r - read_ix r"

text \<open>The class's static assertions: the capacity is a power of two and at least 2.\<close>

definition pow2_cap :: "nat \<Rightarrow> bool" where
  "pow2_cap n \<longleftrightarrow> (\<exists>k. 1 \<le> k \<and> k < 64 \<and> n = 2 ^ k)"

definition ring_ok :: "'a spsc \<Rightarrow> bool" where
  "ring_ok r \<longleftrightarrow> pow2_cap (capacity r) \<and> unat (write_ix r - read_ix r) \<le> capacity r"

definition ring_content :: "'a spsc \<Rightarrow> 'a list" where
  "ring_content r =
     map (\<lambda>i. slots r ! unat ((read_ix r + of_nat i) AND kMask r))
       [0..<unat (write_ix r - read_ix r)]"

section \<open>Index arithmetic across the wrap\<close>

lemma pow2_cap_dvd: "pow2_cap n \<Longrightarrow> n dvd 18446744073709551616"
proof -
  assume "pow2_cap n"
  then obtain k where "k < 64" "n = 2 ^ k" by (auto simp: pow2_cap_def)
  then have "n dvd 2 ^ 64" by (metis le_imp_power_dvd less_imp_le)
  then show ?thesis by simp
qed

lemma pow2_cap_bounds: "pow2_cap n \<Longrightarrow> 2 \<le> n \<and> n \<le> 9223372036854775808"
proof -
  assume "pow2_cap n"
  then obtain k where k: "1 \<le> k" "k < 64" "n = 2 ^ k" by (auto simp: pow2_cap_def)
  have "(2::nat) ^ 1 \<le> 2 ^ k" using k(1) by (rule power_increasing) simp
  moreover have "(2::nat) ^ k \<le> 2 ^ 63" using k(2) by (intro power_increasing) auto
  ultimately show ?thesis using k(3) by simp
qed

lemma unat_and_mask:
  assumes "pow2_cap n"
  shows "unat ((w :: u64) AND (of_nat n - 1)) = unat w mod n"
proof -
  obtain k where k: "k < 64" "n = 2 ^ k" using assms by (auto simp: pow2_cap_def)
  have "(of_nat n :: u64) - 1 = mask k"
    by (simp add: k(2) mask_eq_exp_minus_1)
  then have "unat (w AND (of_nat n - 1)) = unat (take_bit k w)"
    by (simp add: take_bit_eq_mask)
  also have "\<dots> = take_bit k (unat w)"
    by (simp add: unsigned_take_bit_eq)
  also have "\<dots> = unat w mod n"
    by (simp add: take_bit_eq_mod k(2))
  finally show ?thesis .
qed

lemma slot_index:
  assumes "pow2_cap n"
  shows "unat ((b + of_nat i :: u64) AND (of_nat n - 1)) = (unat b + i) mod n"
proof -
  have "unat (b + of_nat i :: u64) = (unat b + i) mod 18446744073709551616"
    by (simp add: unat_word_ariths unat_of_nat mod_add_right_eq)
  then show ?thesis
    by (simp add: unat_and_mask [OF assms] mod_mod_cancel [OF pow2_cap_dvd [OF assms]])
qed

lemma slot_index_0:
  assumes "pow2_cap n"
  shows "unat ((b :: u64) AND (of_nat n - 1)) = unat b mod n"
  using slot_index [OF assms, of b 0] by simp

lemma mod_offset_inj:
  assumes "i < j" and "j < i + (n::nat)"
  shows "(b + i) mod n \<noteq> (b + j) mod n"
proof
  assume "(b + i) mod n = (b + j) mod n"
  then have "n dvd (b + j) - (b + i)"
    using assms(1) by (subst mod_eq_dvd_iff_nat [symmetric]) auto
  then have "n dvd j - i" by simp
  then have "n \<le> j - i" using assms(1) by (intro dvd_imp_le) auto
  then show False using assms by simp
qed

lemma unat_diff_of_nat:
  assumes "i \<le> j" and "j - i < 18446744073709551616"
  shows "unat ((b + of_nat j) - (b + of_nat i) :: u64) = j - i"
proof -
  have "(b + of_nat j) - (b + of_nat i) = (of_nat (j - i) :: u64)"
    using assms(1) by (simp add: of_nat_diff)
  then show ?thesis using assms(2) by (simp add: unat_of_nat)
qed

section \<open>The queue contract\<close>

text \<open>
  What a client of a bounded queue relies on: a push is accepted exactly when there is room and
  then appends; a pop takes the oldest element; nothing else changes the content.
\<close>

locale bounded_fifo =
  fixes push :: "'a \<Rightarrow> 'q \<Rightarrow> bool \<times> 'q"
    and pop :: "'q \<Rightarrow> 'a option \<times> 'q"
    and content :: "'q \<Rightarrow> 'a list"
    and cap :: "'q \<Rightarrow> nat"
    and okq :: "'q \<Rightarrow> bool"
  assumes push_room: "okq q \<Longrightarrow> length (content q) < cap q \<Longrightarrow>
      fst (push x q) \<and> content (snd (push x q)) = content q @ [x]"
    and push_full: "okq q \<Longrightarrow> \<not> length (content q) < cap q \<Longrightarrow> push x q = (False, q)"
    and pop_empty: "okq q \<Longrightarrow> content q = [] \<Longrightarrow> pop q = (None, q)"
    and pop_some: "okq q \<Longrightarrow> content q = y # ys \<Longrightarrow>
      fst (pop q) = Some y \<and> content (snd (pop q)) = ys"
    and push_ok: "okq q \<Longrightarrow> okq (snd (push x q)) \<and> cap (snd (push x q)) = cap q"
    and pop_ok: "okq q \<Longrightarrow> okq (snd (pop q)) \<and> cap (snd (pop q)) = cap q"

text \<open>The clients' loops over such a queue: pushing a batch, and popping until empty with a function
  applied to each element.\<close>

fun push_all :: "('a \<Rightarrow> 'q \<Rightarrow> bool \<times> 'q) \<Rightarrow> 'a list \<Rightarrow> 'q \<Rightarrow> nat \<times> 'q" where
  "push_all push [] q = (0, q)"
| "push_all push (x # xs) q =
     (case push x q of (b, q1) \<Rightarrow>
        (case push_all push xs q1 of (d, q2) \<Rightarrow> (if b then d else Suc d, q2)))"

partial_function (option) pop_fold ::
  "('q \<Rightarrow> 'a option \<times> 'q) \<Rightarrow> ('a \<Rightarrow> 'b \<Rightarrow> 'b) \<Rightarrow> 'b \<Rightarrow> 'q \<Rightarrow> ('b \<times> 'q) option" where
  "pop_fold pop f acc q =
     (case pop q of
        (None, q1) \<Rightarrow> Some (acc, q1)
      | (Some x, q1) \<Rightarrow> pop_fold pop f (f x acc) q1)"

context bounded_fifo
begin

lemma push_all_content:
  "okq q \<Longrightarrow> length (content q) \<le> cap q \<Longrightarrow> push_all push xs q = (d, q') \<Longrightarrow>
     content q' = content q @ take (cap q - length (content q)) xs
     \<and> d = length xs - (cap q - length (content q)) \<and> okq q' \<and> cap q' = cap q"
proof (induction xs arbitrary: q d q')
  case Nil
  then show ?case by simp
next
  case (Cons x xs)
  obtain b q1 where p: "push x q = (b, q1)" by fastforce
  obtain d1 q2 where r: "push_all push xs q1 = (d1, q2)" by fastforce
  have ok1: "okq q1 \<and> cap q1 = cap q" using push_ok [OF Cons.prems(1), of x] p by simp
  show ?case
  proof (cases "length (content q) < cap q")
    case True
    have c1: "b \<and> content q1 = content q @ [x]" using push_room [OF Cons.prems(1) True, of x] p by simp
    with Cons.IH [of q1 d1 q2] r ok1 True Cons.prems p show ?thesis
      by (auto simp: Suc_diff_Suc take_Cons')
  next
    case False
    have "b = False \<and> q1 = q" using push_full [OF Cons.prems(1) False, of x] p by simp
    with Cons.IH [of q d1 q2] r False Cons.prems p show ?thesis by auto
  qed
qed

lemma pop_fold_content:
  "okq q \<Longrightarrow> \<exists>q'. pop_fold pop f acc q = Some (fold f (content q) acc, q') \<and> content q' = []
     \<and> okq q' \<and> cap q' = cap q"
proof (induction "content q" arbitrary: q acc)
  case Nil
  then show ?case by (simp add: pop_fold.simps [of _ _ _ q] pop_empty)
next
  case (Cons y ys)
  have "fst (pop q) = Some y \<and> content (snd (pop q)) = ys"
    using pop_some [OF Cons.prems, of y ys] Cons.hyps(2) by simp
  moreover have "okq (snd (pop q)) \<and> cap (snd (pop q)) = cap q"
    using pop_ok [OF Cons.prems] by simp
  ultimately show ?case
    using Cons.hyps(1) [of "snd (pop q)" "f y acc"] Cons.hyps(2) [symmetric]
    by (cases "pop q") (auto simp: pop_fold.simps [of _ _ _ q])
qed

end

lemma length_ring_content: "length (ring_content r) = unat (write_ix r - read_ix r)"
  by (simp add: ring_content_def)

lemma nth_ring_content:
  assumes "ring_ok r" and "i < unat (write_ix r - read_ix r)"
  shows "ring_content r ! i = slots r ! ((unat (read_ix r) + i) mod capacity r)"
  using assms by (simp add: ring_content_def kMask_def slot_index ring_ok_def)

lemma word_diff_Suc:
  fixes a b :: u64
  assumes "unat (a - b) < 18446744073709551615"
  shows "unat (a + 1 - b) = Suc (unat (a - b))"
proof -
  have "unat (c + 1) = Suc (unat c)" if "unat c < 18446744073709551615" for c :: u64
    using that by (simp add: unat_word_ariths)
  from this [OF assms] show ?thesis by (simp add: algebra_simps)
qed

lemma ring_full_iff:
  assumes "ring_ok r"
  shows "write_ix r + 1 - read_ix r > of_nat (capacity r) \<longleftrightarrow> length (ring_content r) = capacity r"
proof -
  have b: "2 \<le> capacity r" "capacity r \<le> 9223372036854775808"
    using assms pow2_cap_bounds by (auto simp: ring_ok_def)
  have l: "unat (write_ix r - read_ix r) \<le> capacity r" using assms by (simp add: ring_ok_def)
  have "unat (write_ix r + 1 - read_ix r) = Suc (unat (write_ix r - read_ix r))"
    using l b by (intro word_diff_Suc) simp
  moreover have "unat (of_nat (capacity r) :: u64) = capacity r"
    using b by (simp add: unat_of_nat)
  ultimately show ?thesis using l
    by (auto simp: word_less_nat_alt length_ring_content)
qed

lemma try_push_full:
  "ring_ok r \<Longrightarrow> length (ring_content r) = capacity r \<Longrightarrow> try_push x r = (False, r)"
  by (simp add: try_push_def ring_full_iff Let_def)

lemma try_push_room:
  assumes ok: "ring_ok r" and room: "length (ring_content r) < capacity r"
  shows "fst (try_push x r) \<and> ring_content (snd (try_push x r)) = ring_content r @ [x]
    \<and> ring_ok (snd (try_push x r)) \<and> capacity (snd (try_push x r)) = capacity r"
proof -
  let ?n = "length (ring_content r)" and ?c = "capacity r"
  let ?w = "unat (write_ix r AND kMask r)"
  let ?r = "r\<lparr>slots := (slots r)[?w := x], write_ix := write_ix r + 1\<rparr>"
  have cap: "pow2_cap ?c" using ok by (simp add: ring_ok_def)
  have b: "2 \<le> ?c" "?c \<le> 9223372036854775808" using pow2_cap_bounds [OF cap] by auto
  have eq: "try_push x r = (True, ?r)"
    using ring_full_iff [OF ok] room by (simp add: try_push_def Let_def)
  have n: "?n = unat (write_ix r - read_ix r)" by (simp add: length_ring_content)
  have n': "unat (write_ix ?r - read_ix ?r) = Suc ?n"
    using room b by (simp add: n word_diff_Suc)
  have cap': "capacity ?r = ?c" by (simp add: capacity_def)
  have ok': "ring_ok ?r" using cap cap' n' room by (simp add: ring_ok_def)
  have w: "?w = (unat (read_ix r) + ?n) mod ?c"
  proof -
    have "write_ix r = read_ix r + of_nat ?n" by (simp add: n)
    then show ?thesis using slot_index [OF cap, of "read_ix r" ?n] by (simp add: kMask_def)
  qed
  have "?w < ?c" using w b by simp
  then have "?w < length (slots r)" by (simp add: capacity_def)
  have "ring_content ?r = ring_content r @ [x]"
  proof (rule nth_equalityI)
    show "length (ring_content ?r) = length (ring_content r @ [x])"
      using n' by (simp add: length_ring_content n)
    fix i assume "i < length (ring_content ?r)"
    then have i: "i < Suc ?n" using n' by (simp add: length_ring_content)
    have "ring_content ?r ! i = (slots r)[?w := x] ! ((unat (read_ix r) + i) mod ?c)"
      using nth_ring_content [OF ok', of i] i n' cap' by simp
    also have "\<dots> = (ring_content r @ [x]) ! i"
    proof (cases "i = ?n")
      case True
      then show ?thesis using w \<open>?w < length (slots r)\<close> by simp
    next
      case False
      with i have "i < ?n" by simp
      moreover from this have "(unat (read_ix r) + i) mod ?c \<noteq> ?w"
        unfolding w using room by (intro mod_offset_inj) auto
      ultimately show ?thesis
        using nth_ring_content [OF ok, of i] n \<open>?w < length (slots r)\<close> by (simp add: nth_append)
    qed
    finally show "ring_content ?r ! i = (ring_content r @ [x]) ! i" .
  qed
  with eq ok' cap' show ?thesis by simp
qed

lemma try_pop_empty: "ring_content r = [] \<Longrightarrow> try_pop r = (None, r)"
proof -
  assume "ring_content r = []"
  then have "unat (write_ix r - read_ix r) = 0" using length_ring_content [of r] by simp
  then have "write_ix r = read_ix r" by (simp add: unat_eq_0)
  then show ?thesis by (simp add: try_pop_def)
qed

lemma try_pop_some:
  assumes ok: "ring_ok r" and c: "ring_content r = y # ys"
  shows "fst (try_pop r) = Some y \<and> ring_content (snd (try_pop r)) = ys
    \<and> ring_ok (snd (try_pop r)) \<and> capacity (snd (try_pop r)) = capacity r"
proof -
  let ?n = "length ys" and ?c = "capacity r"
  let ?r = "r\<lparr>read_ix := read_ix r + 1\<rparr>"
  have cap: "pow2_cap ?c" using ok by (simp add: ring_ok_def)
  have n: "unat (write_ix r - read_ix r) = Suc ?n"
    using length_ring_content [of r] c by simp
  then have ne: "read_ix r \<noteq> write_ix r" by auto
  have y: "y = slots r ! unat (read_ix r AND kMask r)"
    using nth_ring_content [OF ok, of 0] n c by (simp add: kMask_def slot_index_0 [OF cap])
  have "Suc (unat (write_ix r - (read_ix r + 1))) = Suc ?n"
  proof -
    have "write_ix r - read_ix r = (write_ix r - (read_ix r + 1)) + 1" by simp
    with n have "unat ((write_ix r - (read_ix r + 1)) + 1) = Suc ?n" by metis
    then show ?thesis by (metis unatSuc old.nat.distinct(2) unat_eq_0 add.commute)
  qed
  then have n': "unat (write_ix ?r - read_ix ?r) = ?n" by simp
  have ok': "ring_ok ?r" and cap': "capacity ?r = ?c"
    using ok n n' by (auto simp: ring_ok_def capacity_def)
  have "ring_content ?r = ys"
  proof (rule nth_equalityI)
    show "length (ring_content ?r) = length ys" using n' by (simp add: length_ring_content)
    fix i assume "i < length (ring_content ?r)"
    then have i: "i < ?n" using n' by (simp add: length_ring_content)
    have "ring_content ?r ! i = slots r ! unat ((read_ix r + 1 + of_nat i) AND kMask r)"
      using i n' by (simp add: ring_content_def kMask_def cap')
    also have "read_ix r + 1 + of_nat i = read_ix r + of_nat (Suc i)" by simp
    also have "slots r ! unat ((read_ix r + of_nat (Suc i)) AND kMask r) = ring_content r ! Suc i"
      using i n by (simp add: ring_content_def del: of_nat_Suc upt_Suc)
    finally show "ring_content ?r ! i = ys ! i" using c by simp
  qed
  with ok' cap' y ne show ?thesis by (simp add: try_pop_def Let_def)
qed

interpretation ring: bounded_fifo try_push try_pop ring_content capacity ring_ok
proof unfold_locales
  fix r :: "'a spsc" and x y :: 'a and ys
  assume ok: "ring_ok r"
  show "length (ring_content r) < capacity r \<Longrightarrow>
      fst (try_push x r) \<and> ring_content (snd (try_push x r)) = ring_content r @ [x]"
    using try_push_room [OF ok] by blast
  have full: "\<not> length (ring_content r) < capacity r \<Longrightarrow> length (ring_content r) = capacity r"
    using ok by (simp add: length_ring_content ring_ok_def)
  then show "\<not> length (ring_content r) < capacity r \<Longrightarrow> try_push x r = (False, r)"
    using try_push_full [OF ok] by blast
  show "ring_content r = [] \<Longrightarrow> try_pop r = (None, r)" by (rule try_pop_empty)
  show "ring_content r = y # ys \<Longrightarrow> fst (try_pop r) = Some y \<and> ring_content (snd (try_pop r)) = ys"
    using try_pop_some [OF ok] by blast
  show "ring_ok (snd (try_push x r)) \<and> capacity (snd (try_push x r)) = capacity r"
    using try_push_room [OF ok, of x] try_push_full [OF ok, of x] full ok
    by (cases "length (ring_content r) < capacity r") auto
  show "ring_ok (snd (try_pop r)) \<and> capacity (snd (try_pop r)) = capacity r"
    using try_pop_some [OF ok] try_pop_empty [of r] ok by (cases "ring_content r") auto
qed

lemma new_ring_ok: "pow2_cap n \<Longrightarrow> ring_ok (new_ring n x)"
  by (simp add: ring_ok_def new_ring_def capacity_def)

lemma new_ring_content [simp]: "ring_content (new_ring n x) = []"
  by (simp add: ring_content_def new_ring_def)

lemma capacity_new_ring [simp]: "capacity (new_ring n x) = n"
  by (simp add: capacity_def new_ring_def)

lemma size_approx_content: "unat (size_approx r) = length (ring_content r)"
  by (simp add: size_approx_def length_ring_content)

text \<open>
  A full ring drops the newest records and keeps the oldest: pushing any batch into an empty ring
  of capacity \<open>n\<close> rejects exactly the records beyond the first \<open>n\<close>, and the consumer's
  loop then returns the first \<open>n\<close> in order and leaves the ring empty, wherever the
  free-running indices started.
\<close>

lemma ring_keeps_oldest:
  assumes "pow2_cap n"
  shows "case push_all try_push xs
             \<lparr>write_ix = b, read_ix = b, slots = replicate n d\<rparr> of
      (k, r) \<Rightarrow> k = length xs - n
        \<and> (\<exists>r'. pop_fold try_pop (\<lambda>x acc. acc @ [x]) [] r = Some (take n xs, r') \<and> ring_content r' = [])"
proof -
  let ?r = "\<lparr>write_ix = b, read_ix = b, slots = replicate n d\<rparr>"
  have "ring_ok ?r" "ring_content ?r = []" "capacity ?r = n"
    using assms by (simp_all add: ring_ok_def ring_content_def capacity_def)
  moreover obtain k r where p: "push_all try_push xs ?r = (k, r)" by fastforce
  ultimately have "ring_content r = take n xs \<and> k = length xs - n \<and> ring_ok r"
    using ring.push_all_content [of ?r xs k r] by simp
  moreover have "fold (\<lambda>x acc. acc @ [x]) ys zs = zs @ ys" for ys zs :: "'a list"
    by (induction ys arbitrary: zs) auto
  ultimately show ?thesis
    using p ring.pop_fold_content [of r "\<lambda>x acc. acc @ [x]" "[]"] by auto
qed

lemma ring_keeps_oldest_witness:
  "case push_all try_push ''abcdef'' \<lparr>write_ix = - 2, read_ix = - 2, slots = replicate 4 (CHR ''.'')\<rparr> of
      (k, r) \<Rightarrow> k = 2
        \<and> (\<exists>r'. pop_fold try_pop (\<lambda>x acc. acc @ [x]) [] r = Some (''abcd'', r') \<and> ring_content r' = [])"
proof -
  have "pow2_cap 4" unfolding pow2_cap_def by (rule exI [of _ 2]) simp
  from ring_keeps_oldest [OF this, of "''abcdef''" "- 2" "CHR ''.''"] show ?thesis
    by (simp add: numeral_2_eq_2 del: push_all.simps)
qed

end
