(* ===== verification/Log_Ring_Threads.thy ===== *)
theory Log_Ring_Threads
  imports Log_Ring
begin

text \<open>
  \<^verbatim>\<open>SpscRing\<close> under two threads. Each operation of \<^verbatim>\<open>ring.hpp\<close> is split at its
  accesses to shared memory; a step relation interleaves the producer's and the consumer's accesses
  in any order. An acquire load of the other thread's index may return any value that index has had
  since the last one this thread saw (coherence allows stale values, never older ones); the release
  stores publish the slot accesses before them, so a slot read after an acquire load that covers it
  sees the slot as written. The plain slot accesses are not atomic: a producer about to write a slot
  that the consumer is about to read would be a data race, which is proved impossible.
\<close>

section \<open>Threads\<close>

datatype 'a prod_pc =
    P_Idle
  | P_Loaded 'a u64    \<comment> \<open>\<^verbatim>\<open>w\<close> loaded; next: acquire load of \<^verbatim>\<open>read_\<close> and the full test\<close>
  | P_Checked 'a u64   \<comment> \<open>room seen; next: the slot write\<close>
  | P_Stored 'a u64    \<comment> \<open>slot written; next: the release store of \<^verbatim>\<open>write_\<close>\<close>

datatype 'a cons_pc =
    C_Idle
  | C_Loaded u64       \<comment> \<open>\<^verbatim>\<open>rd\<close> loaded; next: acquire load of \<^verbatim>\<open>write_\<close> and the empty test\<close>
  | C_Ready u64        \<comment> \<open>an element seen; next: the slot read\<close>
  | C_Copied u64 'a    \<comment> \<open>slot copied; next: the release store of \<^verbatim>\<open>read_\<close>\<close>

text \<open>
  Ghost fields: the records published and consumed so far, the number of rejected pushes, the index
  \<^verbatim>\<open>base\<close> both counters started from, and how much of the other's counter each thread has seen.
\<close>

record 'a rsys =
  mem :: "'a spsc"
  ppc :: "'a prod_pc"
  cpc :: "'a cons_pc"
  base :: u64
  pushed :: "'a list"
  popped :: "'a list"
  rejected :: nat
  seen_r :: nat
  seen_w :: nat

definition rsys_init :: "u64 \<Rightarrow> 'a list \<Rightarrow> 'a rsys" where
  "rsys_init b ss =
     \<lparr>mem = \<lparr>write_ix = b, read_ix = b, slots = ss\<rparr>, ppc = P_Idle, cpc = C_Idle, base = b,
      pushed = [], popped = [], rejected = 0, seen_r = 0, seen_w = 0\<rparr>"

text \<open>Values the other thread's index has had and this thread may still load.\<close>

definition read_view :: "'a rsys \<Rightarrow> nat \<Rightarrow> bool" where
  "read_view s j \<longleftrightarrow> seen_r s \<le> j \<and> j \<le> length (popped s)"

definition write_view :: "'a rsys \<Rightarrow> nat \<Rightarrow> bool" where
  "write_view s j \<longleftrightarrow> seen_w s \<le> j \<and> j \<le> length (pushed s)"

inductive push_step :: "'a rsys \<Rightarrow> 'a rsys \<Rightarrow> bool" where
  push_load: "ppc s = P_Idle \<Longrightarrow>
     push_step s (s\<lparr>ppc := P_Loaded x (write_ix (mem s))\<rparr>)"
| push_full: "ppc s = P_Loaded x w \<Longrightarrow> read_view s j \<Longrightarrow>
     w + 1 - (base s + of_nat j) > of_nat (capacity (mem s)) \<Longrightarrow>
     push_step s (s\<lparr>ppc := P_Idle, seen_r := j, rejected := Suc (rejected s)\<rparr>)"
| push_room: "ppc s = P_Loaded x w \<Longrightarrow> read_view s j \<Longrightarrow>
     \<not> w + 1 - (base s + of_nat j) > of_nat (capacity (mem s)) \<Longrightarrow>
     push_step s (s\<lparr>ppc := P_Checked x w, seen_r := j\<rparr>)"
| push_slot: "ppc s = P_Checked x w \<Longrightarrow>
     push_step s (s\<lparr>mem := (mem s)\<lparr>slots := (slots (mem s))[unat (w AND kMask (mem s)) := x]\<rparr>,
       ppc := P_Stored x w\<rparr>)"
| push_publish: "ppc s = P_Stored x w \<Longrightarrow>
     push_step s (s\<lparr>mem := (mem s)\<lparr>write_ix := w + 1\<rparr>, ppc := P_Idle, pushed := pushed s @ [x]\<rparr>)"

inductive pop_step :: "'a rsys \<Rightarrow> 'a rsys \<Rightarrow> bool" where
  pop_load: "cpc s = C_Idle \<Longrightarrow>
     pop_step s (s\<lparr>cpc := C_Loaded (read_ix (mem s))\<rparr>)"
| pop_empty: "cpc s = C_Loaded rd \<Longrightarrow> write_view s j \<Longrightarrow> rd = base s + of_nat j \<Longrightarrow>
     pop_step s (s\<lparr>cpc := C_Idle, seen_w := j\<rparr>)"
| pop_some: "cpc s = C_Loaded rd \<Longrightarrow> write_view s j \<Longrightarrow> rd \<noteq> base s + of_nat j \<Longrightarrow>
     pop_step s (s\<lparr>cpc := C_Ready rd, seen_w := j\<rparr>)"
| pop_slot: "cpc s = C_Ready rd \<Longrightarrow>
     pop_step s (s\<lparr>cpc := C_Copied rd (slots (mem s) ! unat (rd AND kMask (mem s)))\<rparr>)"
| pop_free: "cpc s = C_Copied rd x \<Longrightarrow>
     pop_step s (s\<lparr>mem := (mem s)\<lparr>read_ix := rd + 1\<rparr>, cpc := C_Idle, popped := popped s @ [x]\<rparr>)"

inductive ring_reach :: "u64 \<Rightarrow> 'a list \<Rightarrow> 'a rsys \<Rightarrow> bool" for b ss where
  ring_start: "pow2_cap (length ss) \<Longrightarrow> ring_reach b ss (rsys_init b ss)"
| ring_push: "ring_reach b ss s \<Longrightarrow> push_step s t \<Longrightarrow> ring_reach b ss t"
| ring_pop: "ring_reach b ss s \<Longrightarrow> pop_step s t \<Longrightarrow> ring_reach b ss t"

section \<open>The invariant\<close>

definition cap_of :: "'a rsys \<Rightarrow> nat" where
  "cap_of s = capacity (mem s)"

definition slot_of :: "'a rsys \<Rightarrow> nat \<Rightarrow> nat" where
  "slot_of s i = (unat (base s) + i) mod cap_of s"

definition index_inv :: "'a rsys \<Rightarrow> bool" where
  "index_inv s \<longleftrightarrow> pow2_cap (cap_of s)
     \<and> write_ix (mem s) = base s + of_nat (length (pushed s))
     \<and> read_ix (mem s) = base s + of_nat (length (popped s))
     \<and> seen_r s \<le> length (popped s)
     \<and> length (popped s) \<le> seen_w s
     \<and> seen_w s \<le> length (pushed s)
     \<and> length (pushed s) \<le> seen_r s + cap_of s"

definition data_inv :: "'a rsys \<Rightarrow> bool" where
  "data_inv s \<longleftrightarrow> popped s = take (length (popped s)) (pushed s)
     \<and> (\<forall>i. length (popped s) \<le> i \<and> i < length (pushed s) \<longrightarrow>
          slots (mem s) ! slot_of s i = pushed s ! i)"

fun prod_inv :: "'a rsys \<Rightarrow> 'a prod_pc \<Rightarrow> bool" where
  "prod_inv s P_Idle = True"
| "prod_inv s (P_Loaded x w) = (w = base s + of_nat (length (pushed s)))"
| "prod_inv s (P_Checked x w) = (w = base s + of_nat (length (pushed s))
     \<and> length (pushed s) < seen_r s + cap_of s)"
| "prod_inv s (P_Stored x w) = (w = base s + of_nat (length (pushed s))
     \<and> length (pushed s) < seen_r s + cap_of s
     \<and> slots (mem s) ! slot_of s (length (pushed s)) = x)"

fun cons_inv :: "'a rsys \<Rightarrow> 'a cons_pc \<Rightarrow> bool" where
  "cons_inv s C_Idle = True"
| "cons_inv s (C_Loaded rd) = (rd = base s + of_nat (length (popped s)))"
| "cons_inv s (C_Ready rd) = (rd = base s + of_nat (length (popped s))
     \<and> length (popped s) < seen_w s)"
| "cons_inv s (C_Copied rd x) = (rd = base s + of_nat (length (popped s))
     \<and> length (popped s) < seen_w s \<and> x = pushed s ! length (popped s))"

definition ring_inv :: "'a rsys \<Rightarrow> bool" where
  "ring_inv s \<longleftrightarrow> index_inv s \<and> data_inv s \<and> prod_inv s (ppc s) \<and> cons_inv s (cpc s)"

lemmas inv_defs = ring_inv_def index_inv_def data_inv_def

lemma ring_inv_init: "pow2_cap (length ss) \<Longrightarrow> ring_inv (rsys_init b ss)"
  by (simp add: inv_defs rsys_init_def cap_of_def capacity_def)

lemma cap_bounds: "index_inv s \<Longrightarrow> 2 \<le> cap_of s \<and> cap_of s \<le> 9223372036854775808"
  by (simp add: index_inv_def pow2_cap_bounds)

lemma slot_word: "index_inv s \<Longrightarrow> unat ((base s + of_nat i) AND kMask (mem s)) = slot_of s i"
  by (simp add: kMask_def slot_index slot_of_def index_inv_def cap_of_def)

lemma slot_of_less: "index_inv s \<Longrightarrow> slot_of s i < length (slots (mem s))"
proof -
  assume "index_inv s"
  then have "0 < cap_of s" using cap_bounds [of s] by simp
  then show ?thesis unfolding slot_of_def by (simp add: cap_of_def capacity_def)
qed

lemma slot_of_distinct: "i < j \<Longrightarrow> j < i + cap_of s \<Longrightarrow> slot_of s i \<noteq> slot_of s j"
  by (simp add: slot_of_def mod_offset_inj)

text \<open>The full test on words decides the comparison of the unbounded counts.\<close>

lemma full_test:
  assumes inv: "index_inv s" and view: "read_view s j"
  shows "base s + of_nat (length (pushed s)) + 1 - (base s + of_nat j) > of_nat (capacity (mem s))
    \<longleftrightarrow> \<not> length (pushed s) < j + cap_of s"
proof -
  let ?n = "length (pushed s)"
  have b: "cap_of s \<le> 9223372036854775808" using cap_bounds [OF inv] by simp
  have j: "j \<le> ?n" "?n \<le> j + cap_of s"
    using inv view by (auto simp: index_inv_def read_view_def)
  have "unat ((base s + of_nat (Suc ?n)) - (base s + of_nat j)) = Suc ?n - j"
    using j b by (intro unat_diff_of_nat) auto
  moreover have "unat (of_nat (capacity (mem s)) :: u64) = cap_of s"
    using b by (simp add: unat_of_nat cap_of_def)
  ultimately show ?thesis using j
    by (auto simp: word_less_nat_alt algebra_simps)
qed

text \<open>The empty test on words decides equality of the counts.\<close>

lemma empty_test:
  assumes inv: "index_inv s" and view: "write_view s j"
  shows "base s + of_nat (length (popped s)) = base s + of_nat j \<longleftrightarrow> j = length (popped s)"
proof -
  let ?n = "length (popped s)"
  have b: "cap_of s \<le> 9223372036854775808" using cap_bounds [OF inv] by simp
  have j: "?n \<le> j" "j - ?n < 18446744073709551616"
    using inv view b by (auto simp: index_inv_def write_view_def)
  have "unat ((base s + of_nat j) - (base s + of_nat ?n)) = j - ?n"
    using j by (rule unat_diff_of_nat)
  then show ?thesis using j by (metis diff_is_0_eq' diff_self eq_iff le_antisym unat_0 diff_is_0_eq)
qed

section \<open>Every step keeps the invariant\<close>

lemma push_slot_inv:
  assumes inv: "ring_inv s" and pc: "ppc s = P_Checked x w"
  shows "ring_inv (s\<lparr>mem := (mem s)\<lparr>slots := (slots (mem s))[unat (w AND kMask (mem s)) := x]\<rparr>,
       ppc := P_Stored x w\<rparr>)" (is "ring_inv ?t")
proof -
  let ?n = "length (pushed s)"
  from inv have ix: "index_inv s" and dat: "data_inv s" and con: "cons_inv s (cpc s)"
    by (auto simp: ring_inv_def)
  from inv pc have w: "w = base s + of_nat ?n" and room: "?n < seen_r s + cap_of s"
    by (auto simp: ring_inv_def)
  have slot: "unat (w AND kMask (mem s)) = slot_of s ?n" by (simp add: w slot_word [OF ix])
  have caps: "cap_of ?t = cap_of s" "\<And>i. slot_of ?t i = slot_of s i"
    by (auto simp: cap_of_def capacity_def slot_of_def)
  have ix': "index_inv ?t" using ix caps by (simp add: index_inv_def)
  have others: "slots (mem ?t) ! slot_of s i = pushed s ! i"
    if "length (popped s) \<le> i" "i < ?n" for i
  proof -
    have "?n < i + cap_of s" using room that(1) ix by (simp add: index_inv_def)
    then have "slot_of s i \<noteq> slot_of s ?n" using that(2) by (rule slot_of_distinct [rotated])
    then show ?thesis using dat that slot_of_less [OF ix]
      by (simp add: slot data_inv_def)
  qed
  have "data_inv ?t" using dat others by (simp add: data_inv_def caps)
  moreover have "prod_inv ?t (P_Stored x w)"
    unfolding prod_inv.simps caps using w room slot slot_of_less [OF ix, of ?n] by simp
  moreover have "cons_inv ?t (cpc ?t)" using con by (cases "cpc s") auto
  moreover have "ppc ?t = P_Stored x w" by simp
  ultimately show ?thesis using ix' unfolding ring_inv_def by metis
qed

lemma push_publish_inv:
  assumes inv: "ring_inv s" and pc: "ppc s = P_Stored x w"
  shows "ring_inv (s\<lparr>mem := (mem s)\<lparr>write_ix := w + 1\<rparr>, ppc := P_Idle,
       pushed := pushed s @ [x]\<rparr>)" (is "ring_inv ?t")
proof -
  let ?n = "length (pushed s)"
  from inv have ix: "index_inv s" and dat: "data_inv s" and con: "cons_inv s (cpc s)"
    by (auto simp: ring_inv_def)
  from inv pc have w: "w = base s + of_nat ?n" and room: "?n < seen_r s + cap_of s"
    and x: "slots (mem s) ! slot_of s ?n = x"
    by (auto simp: ring_inv_def)
  have caps: "cap_of ?t = cap_of s" "\<And>i. slot_of ?t i = slot_of s i"
    by (auto simp: cap_of_def capacity_def slot_of_def)
  have le: "length (popped s) \<le> ?n" using ix by (simp add: index_inv_def)
  have "index_inv ?t" using ix caps room w by (auto simp: index_inv_def)
  moreover have "data_inv ?t" using dat x le
    by (auto simp: data_inv_def caps nth_append less_Suc_eq)
  moreover have "cons_inv ?t (cpc ?t)"
    using con ix by (cases "cpc s") (auto simp: index_inv_def nth_append)
  ultimately show ?thesis by (simp add: ring_inv_def)
qed

lemma push_step_inv: "push_step s t \<Longrightarrow> ring_inv s \<Longrightarrow> ring_inv t"
proof (induction rule: push_step.induct)
  case (push_load s x)
  then show ?case
    by (cases "cpc s") (auto simp: inv_defs cap_of_def slot_of_def)
next
  case (push_full s x w j)
  then show ?case
    by (cases "cpc s") (auto simp: inv_defs read_view_def cap_of_def slot_of_def)
next
  case (push_room s x w j)
  then have "index_inv s" "w = base s + of_nat (length (pushed s))" by (auto simp: ring_inv_def)
  with push_room have "length (pushed s) < j + cap_of s" using full_test [of s j] by simp
  with push_room show ?case
    by (cases "cpc s") (auto simp: inv_defs read_view_def cap_of_def slot_of_def)
next
  case (push_slot s x w)
  then show ?case by (intro push_slot_inv)
next
  case (push_publish s x w)
  then show ?case by (intro push_publish_inv)
qed

lemma pop_slot_inv:
  assumes inv: "ring_inv s" and pc: "cpc s = C_Ready rd"
  shows "ring_inv (s\<lparr>cpc := C_Copied rd (slots (mem s) ! unat (rd AND kMask (mem s)))\<rparr>)"
proof -
  from inv have ix: "index_inv s" and dat: "data_inv s" by (auto simp: ring_inv_def)
  from inv pc have rd: "rd = base s + of_nat (length (popped s))"
    and lt: "length (popped s) < seen_w s" by (auto simp: ring_inv_def)
  have "length (popped s) < length (pushed s)" using lt ix by (simp add: index_inv_def)
  then have "slots (mem s) ! unat (rd AND kMask (mem s)) = pushed s ! length (popped s)"
    using dat by (simp add: rd slot_word [OF ix] data_inv_def)
  then show ?thesis using inv rd lt
    by (cases "ppc s") (auto simp: inv_defs cap_of_def slot_of_def)
qed

lemma pop_free_inv:
  assumes inv: "ring_inv s" and pc: "cpc s = C_Copied rd x"
  shows "ring_inv (s\<lparr>mem := (mem s)\<lparr>read_ix := rd + 1\<rparr>, cpc := C_Idle,
       popped := popped s @ [x]\<rparr>)" (is "ring_inv ?t")
proof -
  let ?n = "length (popped s)"
  from inv have ix: "index_inv s" and dat: "data_inv s" and pro: "prod_inv s (ppc s)"
    by (auto simp: ring_inv_def)
  from inv pc have rd: "rd = base s + of_nat ?n" and lt: "?n < seen_w s"
    and x: "x = pushed s ! ?n" by (auto simp: ring_inv_def)
  have caps: "cap_of ?t = cap_of s" "\<And>i. slot_of ?t i = slot_of s i"
    by (auto simp: cap_of_def capacity_def slot_of_def)
  have n: "?n < length (pushed s)" using lt ix by (simp add: index_inv_def)
  have "index_inv ?t" using ix caps lt rd by (auto simp: index_inv_def)
  moreover have app: "popped s @ [x] = take (Suc ?n) (pushed s)"
    using dat n x by (metis data_inv_def take_Suc_conv_app_nth)
  have "data_inv ?t"
    unfolding data_inv_def caps using dat app n by (auto simp: data_inv_def min_absorb2 Suc_leI)
  moreover have "prod_inv ?t (ppc ?t)"
    using pro ix by (cases "ppc s") (auto simp: index_inv_def caps)
  ultimately show ?thesis by (simp add: ring_inv_def)
qed

lemma pop_step_inv: "pop_step s t \<Longrightarrow> ring_inv s \<Longrightarrow> ring_inv t"
proof (induction rule: pop_step.induct)
  case (pop_load s)
  then show ?case
    by (cases "ppc s") (auto simp: inv_defs cap_of_def slot_of_def)
next
  case (pop_empty s rd j)
  then show ?case
    by (cases "ppc s") (auto simp: inv_defs write_view_def cap_of_def slot_of_def)
next
  case (pop_some s rd j)
  then have ix: "index_inv s" and rd: "rd = base s + of_nat (length (popped s))"
    by (auto simp: ring_inv_def)
  have "j \<noteq> length (popped s)" using pop_some empty_test [OF ix, of j] rd by auto
  moreover have "length (popped s) \<le> j" "j \<le> length (pushed s)"
    using pop_some ix by (auto simp: write_view_def index_inv_def)
  ultimately show ?case using pop_some rd
    by (cases "ppc s") (auto simp: inv_defs cap_of_def slot_of_def)
next
  case (pop_slot s rd)
  then show ?case by (intro pop_slot_inv)
next
  case (pop_free s rd x)
  then show ?case by (intro pop_free_inv)
qed

lemma ring_reach_inv: "ring_reach b ss s \<Longrightarrow> ring_inv s"
  by (induction rule: ring_reach.induct) (auto intro: ring_inv_init push_step_inv pop_step_inv)

lemma ring_reach_base: "ring_reach b ss s \<Longrightarrow> base s = b \<and> cap_of s = length ss"
proof (induction rule: ring_reach.induct)
  case ring_start
  then show ?case by (simp add: rsys_init_def cap_of_def capacity_def)
next
  case (ring_push s t)
  from ring_push(2) show ?case using ring_push(3)
    by (cases rule: push_step.cases) (auto simp: cap_of_def capacity_def)
next
  case (ring_pop s t)
  from ring_pop(2) show ?case using ring_pop(3)
    by (cases rule: pop_step.cases) (auto simp: cap_of_def capacity_def)
qed

lemma ring_inv_content:
  assumes "ring_inv s"
  shows "ring_content (mem s) = drop (length (popped s)) (pushed s)"
    and "unat (size_approx (mem s)) = length (pushed s) - length (popped s)"
proof -
  let ?m = "length (popped s)" and ?n = "length (pushed s)"
  from assms have ix: "index_inv s" and dat: "data_inv s" by (auto simp: ring_inv_def)
  have b: "cap_of s \<le> 9223372036854775808" using cap_bounds [OF ix] by simp
  have le: "?m \<le> ?n" "?n \<le> ?m + cap_of s" using ix by (auto simp: index_inv_def)
  have "unat ((base s + of_nat ?n) - (base s + of_nat ?m)) = ?n - ?m"
    using le b by (intro unat_diff_of_nat) auto
  then have len: "unat (write_ix (mem s) - read_ix (mem s)) = ?n - ?m"
    using ix by (simp add: index_inv_def)
  then show "unat (size_approx (mem s)) = ?n - ?m" by (simp add: size_approx_def)
  show "ring_content (mem s) = drop ?m (pushed s)"
  proof (rule nth_equalityI)
    show "length (ring_content (mem s)) = length (drop ?m (pushed s))"
      by (simp add: length_ring_content len)
    fix i assume "i < length (ring_content (mem s))"
    then have i: "i < ?n - ?m" by (simp add: length_ring_content len)
    have "read_ix (mem s) + of_nat i = base s + of_nat (?m + i)"
      using ix by (simp add: index_inv_def)
    then have "ring_content (mem s) ! i = slots (mem s) ! slot_of s (?m + i)"
      using i len slot_word [OF ix, of "?m + i"] by (simp add: ring_content_def del: of_nat_add)
    then show "ring_content (mem s) ! i = drop ?m (pushed s) ! i"
      using dat i le by (simp add: data_inv_def)
  qed
qed

section \<open>Properties\<close>

text \<open>
  C7. Lock-free FIFO: in every state two threads can reach, whatever the interleaving, however stale
  the loads, and across any number of wraps of the 64-bit indices, the records published are the
  records consumed followed by the current content of the ring: nothing is lost, duplicated,
  reordered or corrupted, and at most \<^verbatim>\<open>Capacity\<close> records are outstanding.
\<close>

theorem ring_fifo:
  assumes "ring_reach b ss s"
  shows "pushed s = popped s @ ring_content (mem s)
    \<and> length (ring_content (mem s)) \<le> length ss
    \<and> unat (size_approx (mem s)) = length (ring_content (mem s))"
proof -
  have inv: "ring_inv s" using assms by (rule ring_reach_inv)
  then have "popped s = take (length (popped s)) (pushed s)"
    and le: "length (pushed s) \<le> length (popped s) + cap_of s"
    by (auto simp: inv_defs)
  then have "pushed s = popped s @ ring_content (mem s)"
    using ring_inv_content(1) [OF inv] by (metis append_take_drop_id)
  then show ?thesis using ring_inv_content [OF inv] le ring_reach_base [OF assms] by simp
qed

text \<open>
  C8. No data race on a slot: whenever the producer is about to write a slot and the consumer is about
  to read one, they are different slots.
\<close>

theorem ring_race_free:
  assumes "ring_reach b ss s" and "ppc s = P_Checked x w" and "cpc s = C_Ready rd"
  shows "unat (w AND kMask (mem s)) \<noteq> unat (rd AND kMask (mem s))"
proof -
  have inv: "ring_inv s" using assms(1) by (rule ring_reach_inv)
  then have ix: "index_inv s" by (simp add: ring_inv_def)
  from inv assms have w: "w = base s + of_nat (length (pushed s))"
    and rd: "rd = base s + of_nat (length (popped s))"
    and lt: "length (pushed s) < seen_r s + cap_of s" "length (popped s) < seen_w s"
    by (auto simp: ring_inv_def)
  then have "slot_of s (length (popped s)) \<noteq> slot_of s (length (pushed s))"
    using ix by (intro slot_of_distinct) (auto simp: index_inv_def)
  then show ?thesis by (simp add: w rd slot_word [OF ix])
qed

text \<open>
  A push is refused only for want of room: when the producer counts a rejection, the ring, as of
  the consumer position it loaded, held \<^verbatim>\<open>Capacity\<close> records; if that position was current, the
  ring is full.
\<close>

lemma ring_reject_full:
  assumes "ring_reach b ss s" and "push_step s t" and "rejected t = Suc (rejected s)"
  shows "length (pushed s) = seen_r t + length ss
    \<and> (seen_r t = length (popped s) \<longrightarrow> length (ring_content (mem s)) = length ss)"
proof -
  have inv: "ring_inv s" using assms(1) by (rule ring_reach_inv)
  then have ix: "index_inv s" by (simp add: ring_inv_def)
  from assms(2,3) have "length (pushed s) = seen_r t + cap_of s"
  proof (cases rule: push_step.cases)
    case (push_full x w j)
    then have "w = base s + of_nat (length (pushed s))" using inv by (simp add: ring_inv_def)
    with push_full full_test [OF ix, of j] have "\<not> length (pushed s) < j + cap_of s" by simp
    moreover have "length (pushed s) \<le> j + cap_of s"
      using ix push_full by (simp add: index_inv_def read_view_def)
    ultimately show ?thesis using push_full by simp
  qed auto
  then show ?thesis using ring_inv_content(1) [OF inv] ring_reach_base [OF assms(1)] by simp
qed

text \<open>
  A run on a ring of two slots whose indices are about to wrap: one record is published, then both
  threads stand before their slot accesses; two records are published and a third push is refused.
\<close>

definition run0 :: "char rsys" where
  "run0 = rsys_init (- 1) ''..''"

definition run1 :: "char rsys" where
  "run1 = run0\<lparr>mem := \<lparr>write_ix = 0, read_ix = - 1, slots = ''.a''\<rparr>, pushed := ''a''\<rparr>"

definition run2 :: "char rsys" where
  "run2 = run1\<lparr>mem := \<lparr>write_ix = 1, read_ix = - 1, slots = ''ba''\<rparr>, pushed := ''ab''\<rparr>"

definition run_both :: "char rsys" where
  "run_both = run1\<lparr>ppc := P_Checked (CHR ''b'') 0, cpc := C_Ready (- 1), seen_w := 1\<rparr>"

definition run_full :: "char rsys" where
  "run_full = run2\<lparr>ppc := P_Loaded (CHR ''c'') 1\<rparr>"

lemmas run_defs = run0_def run1_def run2_def run_both_def run_full_def rsys_init_def
  capacity_def kMask_def read_view_def write_view_def

lemma reach_push_eq: "ring_reach b ss s \<Longrightarrow> push_step s t \<Longrightarrow> t = u \<Longrightarrow> ring_reach b ss u"
  by (auto intro: ring_push)

lemma reach_pop_eq: "ring_reach b ss s \<Longrightarrow> pop_step s t \<Longrightarrow> t = u \<Longrightarrow> ring_reach b ss u"
  by (auto intro: ring_pop)

lemma reach_run0: "ring_reach (- 1) ''..'' run0"
  unfolding run0_def by (rule ring_start) (auto simp: pow2_cap_def intro: exI [of _ 1])

lemma reach_run1: "ring_reach (- 1) ''..'' run1"
proof -
  let ?x = "CHR ''a''"
  have "ring_reach (- 1) ''..'' (run0\<lparr>ppc := P_Loaded ?x (- 1)\<rparr>)"
    by (rule reach_push_eq [OF reach_run0 push_load [where x = ?x]]) (simp_all add: run_defs)
  then have "ring_reach (- 1) ''..'' (run0\<lparr>ppc := P_Checked ?x (- 1)\<rparr>)"
    by (rule reach_push_eq [OF _ push_room [where x = ?x and w = "- 1" and j = 0]])
      (simp_all add: run_defs)
  then have "ring_reach (- 1) ''..'' (run1\<lparr>mem := (mem run1)\<lparr>write_ix := - 1\<rparr>, pushed := [],
      ppc := P_Stored ?x (- 1)\<rparr>)"
    by (rule reach_push_eq [OF _ push_slot [where x = ?x and w = "- 1"]]) (simp_all add: run_defs)
  then show ?thesis
    by (rule reach_push_eq [OF _ push_publish [where x = ?x and w = "- 1"]]) (simp_all add: run_defs)
qed

lemma reach_checked: "ring_reach (- 1) ''..'' (run1\<lparr>ppc := P_Checked (CHR ''b'') 0\<rparr>)"
proof -
  let ?x = "CHR ''b''"
  have "ring_reach (- 1) ''..'' (run1\<lparr>ppc := P_Loaded ?x 0\<rparr>)"
    by (rule reach_push_eq [OF reach_run1 push_load [where x = ?x]]) (simp_all add: run_defs)
  then show ?thesis
    by (rule reach_push_eq [OF _ push_room [where x = ?x and w = 0 and j = 0]])
      (simp_all add: run_defs)
qed

lemma reach_run_both: "ring_reach (- 1) ''..'' run_both"
proof -
  let ?s = "run1\<lparr>ppc := P_Checked (CHR ''b'') 0\<rparr>"
  have "ring_reach (- 1) ''..'' (?s\<lparr>cpc := C_Loaded (- 1)\<rparr>)"
    by (rule reach_pop_eq [OF reach_checked pop_load]) (simp_all add: run_defs)
  then show ?thesis
    by (rule reach_pop_eq [OF _ pop_some [where rd = "- 1" and j = 1]]) (simp_all add: run_defs)
qed

lemma reach_run_full: "ring_reach (- 1) ''..'' run_full"
proof -
  let ?x = "CHR ''b''" and ?y = "CHR ''c''"
  have "ring_reach (- 1) ''..'' (run2\<lparr>mem := (mem run2)\<lparr>write_ix := 0\<rparr>, pushed := ''a'',
      ppc := P_Stored ?x 0\<rparr>)"
    by (rule reach_push_eq [OF reach_checked push_slot [where x = ?x and w = 0]])
      (simp_all add: run_defs)
  then have "ring_reach (- 1) ''..'' run2"
    by (rule reach_push_eq [OF _ push_publish [where x = ?x and w = 0]]) (simp_all add: run_defs)
  then show ?thesis
    by (rule reach_push_eq [OF _ push_load [where x = ?y]]) (simp_all add: run_defs)
qed

lemma step_run_full: "push_step run_full (run_full\<lparr>ppc := P_Idle, seen_r := 0, rejected := Suc 0\<rparr>)"
  using push_full [of run_full "CHR ''c''" 1 0] by (simp add: run_defs)

theorem ring_fifo_witness:
  "pushed run_both = popped run_both @ ring_content (mem run_both) \<and> pushed run_both = ''a''"
  using ring_fifo [OF reach_run_both] by (simp add: run_defs)

theorem ring_race_free_witness:
  "unat ((0 :: u64) AND kMask (mem run_both)) \<noteq> unat ((- 1 :: u64) AND kMask (mem run_both))"
  by (rule ring_race_free [OF reach_run_both, of "CHR ''b''"]) (simp_all add: run_defs)

lemma ring_reject_full_witness:
  "length (pushed run_full) = 2 \<and> length (ring_content (mem run_full)) = 2"
  using ring_reject_full [OF reach_run_full step_run_full] by (simp add: run_defs)

end
