(* ===== verification/Fmt_Float.thy ===== *)
theory Fmt_Float
  imports Optronic_Base
begin

text \<open>
  \<^verbatim>\<open>printf\<close> of a floating-point value with a fixed number of decimals, as the code uses it
  (\<^verbatim>\<open>%.3f\<close> in the log sink, \<^verbatim>\<open>%.2f\<close> in telemetry payloads). A double or float is
  its IEEE 754 bit pattern; the text is the exact value rounded to the nearest decimal, ties to even.
\<close>

section \<open>Decoding\<close>

datatype fp = Fin bool nat int | Inf bool | NaN bool
  \<comment> \<open>\<open>Fin s m e\<close> is the value (-1)^s * m * 2^e\<close>

definition decode_fp :: "nat \<Rightarrow> nat \<Rightarrow> nat \<Rightarrow> fp" where
  "decode_fp ebits mbits b =
     (let s = odd (b div 2 ^ (ebits + mbits));
          x = b div 2 ^ mbits mod 2 ^ ebits;
          m = b mod 2 ^ mbits;
          bias = int (2 ^ (ebits - 1) - 1) + int mbits
      in if x = 2 ^ ebits - 1 then (if m = 0 then Inf s else NaN s)
         else if x = 0 then Fin s m (1 - bias)
         else Fin s (m + 2 ^ mbits) (int x - bias))"

definition decode_double :: "u64 \<Rightarrow> fp" where
  "decode_double w = decode_fp 11 52 (unat w)"

definition decode_float :: "u32 \<Rightarrow> fp" where
  "decode_float w = decode_fp 8 23 (unat w)"

section \<open>Printing\<close>

definition round_half_even :: "nat \<Rightarrow> nat \<Rightarrow> nat" where
  "round_half_even a b =
     (let q = a div b; r = a mod b
      in if 2 * r > b \<or> (2 * r = b \<and> odd q) then q + 1 else q)"

definition scaled :: "nat \<Rightarrow> nat \<Rightarrow> int \<Rightarrow> nat" where
  "scaled prec m e =
     (if 0 \<le> e then m * 2 ^ nat e * 10 ^ prec
      else round_half_even (m * 10 ^ prec) (2 ^ nat (- e)))"

definition fmt_fixed :: "nat \<Rightarrow> fp \<Rightarrow> string" where
  "fmt_fixed prec v =
     (case v of
        NaN s \<Rightarrow> (if s then ''-nan'' else ''nan'')
      | Inf s \<Rightarrow> (if s then ''-inf'' else ''inf'')
      | Fin s m e \<Rightarrow>
          (let n = scaled prec m e
           in (if s then ''-'' else '''') @ dec (n div 10 ^ prec) @ ''.'' @
              pad_left prec (CHR ''0'') (dec (n mod 10 ^ prec))))"

lemmas fp_eval = fmt_fixed_def decode_float_def decode_double_def decode_fp_def scaled_def
  round_half_even_def dec_eval pad_left_def

lemma round_half_even_le: "0 < b \<Longrightarrow> round_half_even a b \<le> a div b + 1"
  by (simp add: round_half_even_def Let_def)

lemma round_half_even_nearest:
  assumes "0 < b"
  shows "2 * \<bar>int (round_half_even a b) * int b - int a\<bar> \<le> int b"
proof -
  have "int a = int (a div b) * int b + int (a mod b)"
    by (metis div_mult_mod_eq of_nat_add of_nat_mult)
  moreover have "int (a mod b) < int b" using assms by simp
  ultimately show ?thesis
    by (auto simp: round_half_even_def Let_def algebra_simps abs_if)
qed

text \<open>A float printed with two decimals takes at most 43 characters.\<close>

lemma decode_float_bounds:
  "decode_float w = Fin s m e \<Longrightarrow> m < 2 ^ 24 \<and> - 149 \<le> e \<and> e \<le> 104"
proof -
  assume a: "decode_float w = Fin s m e"
  have "unat w mod 8388608 < 8388608" "unat w div 8388608 mod 256 < 256" by simp_all
  with a show ?thesis
    by (auto simp: decode_float_def decode_fp_def Let_def split: if_splits)
qed

lemma scaled_float_bound:
  assumes "m < 2 ^ 24" and "e \<le> 104"
  shows "scaled 2 m e < 10 ^ 41"
proof (cases "0 \<le> e")
  case True
  have "(2::nat) ^ nat e \<le> 2 ^ 104" using assms(2) by (intro power_increasing) auto
  then have "m * 2 ^ nat e \<le> 2 ^ 24 * 2 ^ 104" using assms(1) by (intro mult_le_mono) auto
  then show ?thesis using True by (simp add: scaled_def)
next
  case False
  have "round_half_even (m * 100) (2 ^ nat (- e)) \<le> m * 100 div 2 ^ nat (- e) + 1"
    by (rule round_half_even_le) simp
  also have "\<dots> \<le> m * 100 + 1" by (rule add_right_mono) (rule div_le_dividend)
  finally have "round_half_even (m * 100) (2 ^ nat (- e)) \<le> m * 100 + 1" .
  then show ?thesis using assms(1) False by (simp add: scaled_def)
qed

lemma length_pad_left: "length (pad_left w c s) = max w (length s)"
  by (simp add: pad_left_def)

lemma length_fmt_float [fmt_simps]: "length (fmt_fixed 2 (decode_float w)) \<le> 43"
proof (cases "decode_float w")
  case (Fin s m e)
  let ?n = "scaled 2 m e"
  have n: "?n < 10 ^ 41" using scaled_float_bound decode_float_bounds [OF Fin] by simp
  have "length (dec (?n div 100)) \<le> 39"
    using n by (intro length_dec_le) (simp_all add: div_less_iff_less_mult)
  moreover have "length (dec (?n mod 100)) \<le> 2"
    by (intro length_dec_le) simp_all
  ultimately show ?thesis
    using Fin by (simp add: fmt_fixed_def Let_def length_pad_left)
qed (auto simp: fmt_fixed_def)

end
