(* ===== verification/Log_Record.thy ===== *)
theory Log_Record
  imports Core_Error Fmt_Float
begin

text \<open>
  \<^verbatim>\<open>framework/log/record.hpp\<close> and the record part of \<^verbatim>\<open>logger.cpp\<close>: levels, the
  fixed-size record, truncating copies, and the text the sink writes for one record. A
  \<^verbatim>\<open>char[N]\<close> is a list of \<open>N\<close> characters; a C string in it ends at the first NUL.
\<close>

section \<open>Levels\<close>

datatype level = L_trace | L_debug | L_info | L_warn | L_error

primrec level_val :: "level \<Rightarrow> u8" where
  "level_val L_trace = 0"
| "level_val L_debug = 1"
| "level_val L_info = 2"
| "level_val L_warn = 3"
| "level_val L_error = 4"

lemma level_val_inject: "level_val a = level_val b \<longleftrightarrow> a = b"
  by (cases a; cases b) simp_all

instantiation level :: linorder
begin

definition less_eq_level :: "level \<Rightarrow> level \<Rightarrow> bool" where
  "less_eq_level a b \<longleftrightarrow> level_val a \<le> level_val b"

definition less_level :: "level \<Rightarrow> level \<Rightarrow> bool" where
  "less_level a b \<longleftrightarrow> level_val a < level_val b"

instance
proof
  fix a b c :: level
  show "a < b \<longleftrightarrow> a \<le> b \<and> \<not> b \<le> a"
    by (auto simp: less_level_def less_eq_level_def)
  show "a \<le> a" by (simp add: less_eq_level_def)
  show "a \<le> b \<Longrightarrow> b \<le> c \<Longrightarrow> a \<le> c" by (simp add: less_eq_level_def)
  show "a \<le> b \<or> b \<le> a" by (auto simp: less_eq_level_def)
  show "a \<le> b \<Longrightarrow> b \<le> a \<Longrightarrow> a = b"
    by (auto simp: less_eq_level_def level_val_inject [symmetric])
qed

end

primrec level_name :: "level \<Rightarrow> string" where
  "level_name L_trace = ''TRACE''"
| "level_name L_debug = ''DEBUG''"
| "level_name L_info = ''INFO''"
| "level_name L_warn = ''WARN''"
| "level_name L_error = ''ERROR''"

section \<open>Strings in fixed arrays\<close>

abbreviation NUL :: char where
  "NUL \<equiv> CHR 0x00"

abbreviation NL :: char where
  "NL \<equiv> CHR 0x0A"

definition c_str :: "string \<Rightarrow> string" where
  "c_str s = takeWhile (\<lambda>c. c \<noteq> NUL) s"

definition zeros :: "nat \<Rightarrow> string" where
  "zeros n = replicate n NUL"

definition copy_truncated :: "string \<Rightarrow> nat \<Rightarrow> string \<Rightarrow> string" where
  "copy_truncated dst dst_size src =
     (let n = min (length src) (dst_size - 1)
      in take n src @ [NUL] @ drop (Suc n) dst)"

section \<open>Records\<close>

datatype value_kind = K_none | K_integer | K_real

text \<open>The 64-bit value holds a signed integer or the bits of a double.\<close>

record key_value =
  kv_key :: string
  kv_kind :: value_kind
  kv_value :: u64

definition empty_kv :: key_value where
  "empty_kv = \<lparr>kv_key = zeros 15, kv_kind = K_none, kv_value = 0\<rparr>"

definition kv_of_int :: "string \<Rightarrow> u64 \<Rightarrow> key_value" where
  "kv_of_int k v = empty_kv\<lparr>kv_key := copy_truncated (zeros 15) 15 k, kv_kind := K_integer,
     kv_value := v\<rparr>"

definition kv_of_real :: "string \<Rightarrow> u64 \<Rightarrow> key_value" where
  "kv_of_real k d = empty_kv\<lparr>kv_key := copy_truncated (zeros 15) 15 k, kv_kind := K_real,
     kv_value := d\<rparr>"

definition as_real :: "key_value \<Rightarrow> u64" where
  "as_real kv = kv_value kv"

definition kMaxKeyValues :: nat where
  "kMaxKeyValues = 4"

record log_record =
  rec_ts :: u64
  rec_seq :: u64
  rec_component :: string
  rec_msg :: string
  rec_kv :: "key_value list"
  rec_level :: level
  rec_kv_count :: u8
  rec_reserved :: string

definition empty_record :: log_record where
  "empty_record = \<lparr>rec_ts = 0, rec_seq = 0, rec_component = zeros 16, rec_msg = zeros 96,
     rec_kv = replicate 4 empty_kv, rec_level = L_info, rec_kv_count = 0,
     rec_reserved = zeros 30\<rparr>"

text \<open>The body of \<^verbatim>\<open>Logger::log\<close> between the level test and the push.\<close>

definition copy_kvs :: "key_value list \<Rightarrow> key_value list \<Rightarrow> key_value list" where
  "copy_kvs dst kvs = take kMaxKeyValues kvs @ drop (length (take kMaxKeyValues kvs)) dst"

definition make_record :: "u64 \<Rightarrow> u64 \<Rightarrow> level \<Rightarrow> string \<Rightarrow> string \<Rightarrow> key_value list \<Rightarrow> log_record" where
  "make_record ts sq l cname msg kvs =
     (let r = empty_record\<lparr>rec_ts := ts, rec_seq := sq, rec_level := l,
            rec_component := copy_truncated (rec_component empty_record) 16 cname,
            rec_msg := copy_truncated (rec_msg empty_record) 96 msg\<rparr>;
          n = min (length kvs) kMaxKeyValues
      in r\<lparr>rec_kv := copy_kvs (rec_kv r) kvs, rec_kv_count := of_nat n\<rparr>)"

section \<open>The text of a record\<close>

definition kv_text :: "key_value \<Rightarrow> string" where
  "kv_text kv =
     (case kv_kind kv of
        K_integer \<Rightarrow> '' '' @ c_str (kv_key kv) @ ''='' @ dec_int (sint (kv_value kv))
      | K_real \<Rightarrow> '' '' @ c_str (kv_key kv) @ ''='' @ fmt_fixed 3 (decode_double (as_real kv))
      | K_none \<Rightarrow> '''')"

definition record_line :: "log_record \<Rightarrow> string" where
  "record_line r =
     (let secs = rec_ts r div 1000000000;
          ms = rec_ts r mod 1000000000 div 1000000
      in pad_left 6 (CHR '' '') (dec_int (sint secs)) @ ''.'' @
         pad_left 3 (CHR ''0'') (dec (unat ms)) @ '' '' @
         pad_right 5 (level_name (rec_level r)) @ '' '' @
         pad_right 10 (c_str (rec_component r)) @ '' '' @ c_str (rec_msg r) @
         concat (map kv_text (take (unat (rec_kv_count r)) (rec_kv r))) @ [NL])"

section \<open>Facts\<close>

lemma length_zeros [simp]: "length (zeros n) = n"
  by (simp add: zeros_def)

lemma c_str_append_NUL: "c_str (xs @ NUL # ys) = c_str xs"
  unfolding c_str_def by (induction xs) auto

lemma c_str_id: "NUL \<notin> set s \<Longrightarrow> c_str s = s"
  unfolding c_str_def by (auto simp: takeWhile_eq_all_conv)

lemma length_copy_truncated:
  "0 < n \<Longrightarrow> length dst = n \<Longrightarrow> length (copy_truncated dst n src) = n"
  by (auto simp: copy_truncated_def Let_def min_def)

lemma c_str_copy_truncated [simp]: "c_str (copy_truncated dst n src) = c_str (take (n - 1) src)"
  by (simp add: copy_truncated_def Let_def c_str_append_NUL min_def)

lemma length_copy_kvs: "length dst = 4 \<Longrightarrow> length (copy_kvs dst kvs) = 4"
  by (simp add: copy_kvs_def kMaxKeyValues_def)

text \<open>The layout of a record is fixed whatever the arguments.\<close>

definition record_ok :: "log_record \<Rightarrow> bool" where
  "record_ok r \<longleftrightarrow> length (rec_component r) = 16 \<and> length (rec_msg r) = 96
     \<and> length (rec_kv r) = 4 \<and> unat (rec_kv_count r) \<le> 4
     \<and> NUL \<in> set (rec_component r) \<and> NUL \<in> set (rec_msg r)"

lemma NUL_in_copy: "NUL \<in> set (copy_truncated dst n src)"
  by (simp add: copy_truncated_def Let_def)

lemma unat_kv_count: "unat (rec_kv_count (make_record ts sq l cname msg kvs)) = min (length kvs) 4"
  by (simp add: make_record_def Let_def kMaxKeyValues_def unat_of_nat)

lemma make_record_ok: "record_ok (make_record ts sq l cname msg kvs)"
proof -
  have "unat (rec_kv_count (make_record ts sq l cname msg kvs)) \<le> 4"
    by (simp add: unat_kv_count)
  then show ?thesis
    by (simp add: record_ok_def make_record_def Let_def empty_record_def length_copy_truncated
        length_copy_kvs NUL_in_copy)
qed

lemma take_copy_kvs: "take (min (length kvs) 4) (copy_kvs dst kvs) = take 4 kvs"
  by (cases "length kvs \<le> 4") (auto simp: copy_kvs_def kMaxKeyValues_def min_def)

text \<open>
  What the sink prints of a log call: for every call, however long its arguments, the record keeps
  the fixed layout (16 and 96 bytes, both NUL-terminated, at most four values), and the line printed
  is the timestamp, the level, the first 15 bytes of the component, the first 95 bytes of the message
  (each up to an embedded NUL) and the first four values, in order.
\<close>

lemma record_line_of_call:
  "record_ok (make_record ts sq l cname msg kvs)
   \<and> record_line (make_record ts sq l cname msg kvs)
     = pad_left 6 (CHR '' '') (dec_int (sint (ts div 1000000000))) @ ''.'' @
       pad_left 3 (CHR ''0'') (dec (unat (ts mod 1000000000 div 1000000))) @ '' '' @
       pad_right 5 (level_name l) @ '' '' @
       pad_right 10 (c_str (take 15 cname)) @ '' '' @ c_str (take 95 msg) @
       concat (map kv_text (take 4 kvs)) @ [NL]"
  using make_record_ok unat_kv_count [of ts sq l cname msg kvs]
  by (simp add: record_line_def Let_def make_record_def take_copy_kvs)

end
