(* ===== verification/Logger.thy ===== *)
theory Logger
  imports Log_Record Log_Ring
begin

text \<open>
  \<^verbatim>\<open>framework/log/logger.cpp\<close>: one ring per producing thread, registered on the thread's first
  call and found through a thread-local cache afterwards; a sink that drains every ring and reports
  drops once a second. The logger's state is a record; the thread-local cache (the pair
  \<^verbatim>\<open>mine\<close>, \<^verbatim>\<open>owner_id\<close> of each thread) is a separate map, because it is shared by all
  loggers of the process. Producers and sink are interleaved at the granularity of whole calls; the
  interleaving inside one ring is the subject of the theory \<open>Log_Ring_Threads\<close>. The output
  stream is the text written so far, so flushing has no effect.
\<close>

section \<open>State\<close>

definition kRingCapacity :: nat where
  "kRingCapacity = 1024"

record producer =
  p_ring :: "log_record spsc"
  p_dropped :: u64

record logger =
  lg_id :: u64
  lg_out :: string
  lg_level :: level
  lg_written :: u64
  lg_seq :: u64
  lg_reported :: u64
  lg_last_report :: int
  lg_producers :: "producer list"
  lg_joinable :: bool

type_synonym tls = "nat \<Rightarrow> (nat \<times> u64) option"

record log_stats =
  st_written :: u64
  st_dropped :: u64
  st_producers :: nat

definition new_producer :: producer where
  "new_producer = \<lparr>p_ring = new_ring kRingCapacity empty_record, p_dropped = 0\<rparr>"

text \<open>The constructor takes the next identity from a process-wide counter.\<close>

definition logger_ctor :: "u64 \<Rightarrow> logger \<times> u64" where
  "logger_ctor next_id =
     (\<lparr>lg_id = next_id, lg_out = '''', lg_level = L_info, lg_written = 0, lg_seq = 0,
       lg_reported = 0, lg_last_report = 0, lg_producers = [], lg_joinable = False\<rparr>, next_id + 1)"

definition mono_ns :: "u64 \<Rightarrow> u64 \<Rightarrow> u64" where
  "mono_ns tv_sec tv_nsec = tv_sec * 1000000000 + tv_nsec"

section \<open>Producer side\<close>

definition producer_for_this_thread :: "nat \<Rightarrow> tls \<times> logger \<Rightarrow> nat \<times> tls \<times> logger" where
  "producer_for_this_thread tid st =
     (case st of (t, lg) \<Rightarrow>
       let register =
         (let mine = length (lg_producers lg)
          in (mine, t(tid \<mapsto> (mine, lg_id lg)), lg\<lparr>lg_producers := lg_producers lg @ [new_producer]\<rparr>))
       in case t tid of
            None \<Rightarrow> register
          | Some (mine, owner_id) \<Rightarrow> if owner_id = lg_id lg then (mine, t, lg) else register)"

definition push_or_drop :: "log_record \<Rightarrow> producer \<Rightarrow> producer" where
  "push_or_drop r p =
     (case try_push r (p_ring p) of
        (True, q) \<Rightarrow> p\<lparr>p_ring := q\<rparr>
      | (False, q) \<Rightarrow> p\<lparr>p_ring := q, p_dropped := p_dropped p + 1\<rparr>)"

definition logger_log ::
  "nat \<Rightarrow> u64 \<Rightarrow> level \<Rightarrow> string \<Rightarrow> string \<Rightarrow> key_value list \<Rightarrow> tls \<times> logger \<Rightarrow> tls \<times> logger" where
  "logger_log tid now l cname msg kvs st =
     (if l < lg_level (snd st) then st
      else case producer_for_this_thread tid st of (p, t, lg) \<Rightarrow>
        let r = make_record now (lg_seq lg) l cname msg kvs;
            lg1 = lg\<lparr>lg_seq := lg_seq lg + 1\<rparr>
        in (t, lg1\<lparr>lg_producers := (lg_producers lg1)[p := push_or_drop r (lg_producers lg1 ! p)]\<rparr>))"

definition set_level :: "level \<Rightarrow> logger \<Rightarrow> logger" where
  "set_level l lg = lg\<lparr>lg_level := l\<rparr>"

section \<open>Sink side\<close>

definition write_record :: "log_record \<Rightarrow> logger \<Rightarrow> logger" where
  "write_record r lg = lg\<lparr>lg_out := lg_out lg @ record_line r, lg_written := lg_written lg + 1\<rparr>"

text \<open>The inner loop of \<^verbatim>\<open>drain_now\<close>: pop, write, count, until the ring is empty.\<close>

definition drain_producer :: "producer \<Rightarrow> nat \<times> logger \<Rightarrow> (producer \<times> nat \<times> logger) option" where
  "drain_producer p acc =
     map_option (\<lambda>(acc1, q). (p\<lparr>p_ring := q\<rparr>, acc1))
       (pop_fold try_pop (\<lambda>r (n, lg). (n + 1, write_record r lg)) acc (p_ring p))"

fun drain_list :: "producer list \<Rightarrow> nat \<times> logger \<Rightarrow> (producer list \<times> nat \<times> logger) option" where
  "drain_list [] acc = Some ([], acc)"
| "drain_list (p # ps) acc =
     (case drain_producer p acc of
        None \<Rightarrow> None
      | Some (p1, acc1) \<Rightarrow>
          (case drain_list ps acc1 of
             None \<Rightarrow> None
           | Some (ps1, acc2) \<Rightarrow> Some (p1 # ps1, acc2)))"

definition drain_now :: "logger \<Rightarrow> (nat \<times> logger) option" where
  "drain_now lg =
     map_option (\<lambda>(ps, n, lg1). (n, lg1\<lparr>lg_producers := ps\<rparr>)) (drain_list (lg_producers lg) (0, lg))"

definition total_dropped :: "logger \<Rightarrow> u64" where
  "total_dropped lg = sum_list (map p_dropped (lg_producers lg))"

definition report_drops :: "logger \<Rightarrow> logger" where
  "report_drops lg =
     (let total = total_dropped lg; already = lg_reported lg
      in if total = already then lg
         else lg\<lparr>lg_out := lg_out lg @ pad_left 6 (CHR '' '') '''' @ '' '' @
                pad_right 5 (level_name L_warn) @ '' '' @ pad_right 10 ''log'' @ '' log dropped='' @
                dec (unat (total - already)) @ [NL],
              lg_reported := total\<rparr>)"

text \<open>One turn of \<^verbatim>\<open>sink_loop\<close> with the clock reading \<open>now\<close> (ns), and what follows the loop.\<close>

definition sink_iteration :: "int \<Rightarrow> logger \<Rightarrow> logger option" where
  "sink_iteration now lg =
     (case drain_now lg of
        None \<Rightarrow> None
      | Some (n, lg1) \<Rightarrow>
          Some (if now - lg_last_report lg1 \<ge> 1000000000
                then (report_drops lg1)\<lparr>lg_last_report := now\<rparr> else lg1))"

definition sink_exit :: "logger \<Rightarrow> logger option" where
  "sink_exit lg = map_option (\<lambda>(n, lg1). report_drops lg1) (drain_now lg)"

section \<open>Life cycle\<close>

definition logger_start :: "int \<Rightarrow> logger \<Rightarrow> logger" where
  "logger_start now lg =
     (if lg_joinable lg then lg else lg\<lparr>lg_last_report := now, lg_joinable := True\<rparr>)"

definition logger_stop :: "logger \<Rightarrow> logger option" where
  "logger_stop lg =
     (if \<not> lg_joinable lg then Some lg
      else map_option (\<lambda>lg1. lg1\<lparr>lg_joinable := False\<rparr>) (sink_exit lg))"

definition logger_dtor :: "logger \<Rightarrow> logger option" where
  "logger_dtor lg = Option.bind (logger_stop lg) (\<lambda>lg1. map_option snd (drain_now lg1))"

definition logger_stats :: "logger \<Rightarrow> log_stats" where
  "logger_stats lg = \<lparr>st_written = lg_written lg, st_dropped = total_dropped lg,
     st_producers = length (lg_producers lg)\<rparr>"

text \<open>Anything that can happen to a logger, in any order.\<close>

datatype log_event =
    Ev_log nat u64 level string string "key_value list"
  | Ev_level level
  | Ev_sink int
  | Ev_drain
  | Ev_start int
  | Ev_stop

fun log_step :: "log_event \<Rightarrow> tls \<times> logger \<Rightarrow> (tls \<times> logger) option" where
  "log_step (Ev_log tid now l cname msg kvs) st = Some (logger_log tid now l cname msg kvs st)"
| "log_step (Ev_level l) (t, lg) = Some (t, set_level l lg)"
| "log_step (Ev_sink now) (t, lg) = map_option (Pair t) (sink_iteration now lg)"
| "log_step Ev_drain (t, lg) = map_option (\<lambda>(n, lg1). (t, lg1)) (drain_now lg)"
| "log_step (Ev_start now) (t, lg) = Some (t, logger_start now lg)"
| "log_step Ev_stop (t, lg) = map_option (Pair t) (logger_stop lg)"

fun log_run :: "log_event list \<Rightarrow> tls \<times> logger \<Rightarrow> (tls \<times> logger) option" where
  "log_run [] st = Some st"
| "log_run (e # es) st = Option.bind (log_step e st) (log_run es)"

section \<open>Well-formedness\<close>

definition producer_ok :: "producer \<Rightarrow> bool" where
  "producer_ok p \<longleftrightarrow> ring_ok (p_ring p) \<and> capacity (p_ring p) = kRingCapacity"

definition pending :: "producer \<Rightarrow> nat" where
  "pending p = length (ring_content (p_ring p))"

text \<open>
  Every cached pointer of this logger's identity points to one of its rings, and two threads never
  share a ring; the records accepted so far are those written, dropped or still pending.
\<close>

definition tls_ok :: "tls \<Rightarrow> logger \<Rightarrow> bool" where
  "tls_ok t lg \<longleftrightarrow>
     (\<forall>tid p. t tid = Some (p, lg_id lg) \<longrightarrow> p < length (lg_producers lg))
     \<and> (\<forall>tid tid' p. t tid = Some (p, lg_id lg) \<and> t tid' = Some (p, lg_id lg) \<longrightarrow> tid = tid')"

definition balanced :: "logger \<Rightarrow> bool" where
  "balanced lg \<longleftrightarrow> lg_seq lg = lg_written lg + total_dropped lg
     + of_nat (sum_list (map pending (lg_producers lg)))"

definition logger_ok :: "tls \<times> logger \<Rightarrow> bool" where
  "logger_ok st \<longleftrightarrow> (\<forall>p \<in> set (lg_producers (snd st)). producer_ok p)
     \<and> tls_ok (fst st) (snd st) \<and> balanced (snd st)"

lemma pow2_ring: "pow2_cap kRingCapacity"
  unfolding pow2_cap_def kRingCapacity_def by (rule exI [of _ 10]) simp

lemma new_producer_ok: "producer_ok new_producer" "pending new_producer = 0" "p_dropped new_producer = 0"
  by (simp_all add: producer_ok_def new_producer_def pow2_ring new_ring_ok pending_def)

lemma push_or_drop_cases:
  assumes "producer_ok p"
  shows "producer_ok (push_or_drop r p)
    \<and> (if pending p < kRingCapacity
       then ring_content (p_ring (push_or_drop r p)) = ring_content (p_ring p) @ [r]
            \<and> p_dropped (push_or_drop r p) = p_dropped p
       else push_or_drop r p = p\<lparr>p_dropped := p_dropped p + 1\<rparr>)"
proof -
  have ok: "ring_ok (p_ring p)" and cap: "capacity (p_ring p) = kRingCapacity"
    using assms by (auto simp: producer_ok_def)
  show ?thesis
  proof (cases "pending p < kRingCapacity")
    case True
    with ring.push_room [OF ok, of r] ring.push_ok [OF ok, of r] cap show ?thesis
      by (cases "try_push r (p_ring p)") (auto simp: push_or_drop_def pending_def producer_ok_def)
  next
    case False
    then have "try_push r (p_ring p) = (False, p_ring p)"
      using ring.push_full [OF ok, of r] cap by (simp add: pending_def)
    with False assms show ?thesis by (simp add: push_or_drop_def producer_ok_def)
  qed
qed

lemma push_or_drop_balance:
  "producer_ok p \<Longrightarrow> p_dropped (push_or_drop r p) + of_nat (pending (push_or_drop r p))
     = p_dropped p + of_nat (pending p) + 1"
  using push_or_drop_cases [of p r] by (auto simp: pending_def split: if_splits)

lemma sum_list_update_group:
  fixes f :: "'a \<Rightarrow> 'b :: ab_group_add"
  shows "i < length xs \<Longrightarrow> sum_list (map f (xs[i := v])) = sum_list (map f xs) - f (xs ! i) + f v"
  by (induction xs arbitrary: i) (auto split: nat.splits)

definition load :: "producer \<Rightarrow> u64" where
  "load p = p_dropped p + of_nat (pending p)"

lemma of_nat_sum_list: "of_nat (sum_list xs) = (sum_list (map of_nat xs) :: u64)"
  by (induction xs) simp_all

lemma balanced_load: "balanced lg \<longleftrightarrow> lg_seq lg = lg_written lg + sum_list (map load (lg_producers lg))"
proof -
  have "sum_list (map load ps) = sum_list (map p_dropped ps) + of_nat (sum_list (map pending ps))" for ps
    by (induction ps) (simp_all add: load_def)
  then show ?thesis by (simp add: balanced_def total_dropped_def add.assoc)
qed

section \<open>Logging keeps the invariant\<close>

lemma load_new [simp]: "load new_producer = 0"
  by (simp add: load_def new_producer_ok)

lemma producer_for_this_thread_spec:
  assumes ok: "logger_ok (t, lg)" and eq: "producer_for_this_thread tid (t, lg) = (p, t1, lg1)"
  shows "logger_ok (t1, lg1) \<and> p < length (lg_producers lg1) \<and> lg_seq lg1 = lg_seq lg
    \<and> (\<exists>ps. lg1 = lg\<lparr>lg_producers := ps\<rparr>) \<and> t1 tid = Some (p, lg_id lg)"
proof -
  let ?n = "length (lg_producers lg)"
  let ?new = "(t(tid \<mapsto> (?n, lg_id lg)), lg\<lparr>lg_producers := lg_producers lg @ [new_producer]\<rparr>)"
  have bound: "t tid' = Some (p', lg_id lg) \<Longrightarrow> p' < ?n" for tid' p'
    using ok by (auto simp: logger_ok_def tls_ok_def)
  have inj: "t a = Some (p', lg_id lg) \<Longrightarrow> t b = Some (p', lg_id lg) \<Longrightarrow> a = b" for a b p'
    using ok by (auto simp: logger_ok_def tls_ok_def)
  have "tls_ok (fst ?new) (snd ?new)"
    unfolding tls_ok_def using bound inj by (auto simp: less_Suc_eq)
  then have new: "logger_ok ?new"
    using ok by (auto simp: logger_ok_def balanced_load new_producer_ok)
  show ?thesis
  proof (cases "t tid = Some (p, lg_id lg) \<and> t1 = t \<and> lg1 = lg")
    case True
    then show ?thesis using ok bound by (auto intro: exI [of _ "lg_producers lg"])
  next
    case False
    then have "p = ?n \<and> (t1, lg1) = ?new"
      using eq by (auto simp: producer_for_this_thread_def Let_def split: option.splits if_splits)
    then show ?thesis using new by auto
  qed
qed

lemma logger_log_ok:
  assumes "logger_ok st"
  shows "logger_ok (logger_log tid now l cname msg kvs st)"
proof (cases "l < lg_level (snd st)")
  case True
  then show ?thesis using assms by (simp add: logger_log_def)
next
  case False
  obtain t lg where st: "st = (t, lg)" by fastforce
  obtain p t1 lg1 where reg: "producer_for_this_thread tid (t, lg) = (p, t1, lg1)"
    by (metis prod_cases3)
  let ?r = "make_record now (lg_seq lg1) l cname msg kvs"
  let ?ps = "(lg_producers lg1)[p := push_or_drop ?r (lg_producers lg1 ! p)]"
  from producer_for_this_thread_spec [OF _ reg] assms st
  have ok1: "logger_ok (t1, lg1)" and p: "p < length (lg_producers lg1)" by auto
  have okp: "producer_ok (lg_producers lg1 ! p)" using ok1 p by (auto simp: logger_ok_def)
  have "\<forall>q \<in> set ?ps. producer_ok q"
    using ok1 push_or_drop_cases [OF okp] by (auto simp: logger_ok_def dest: set_update_subset_insert [THEN subsetD])
  moreover have "sum_list (map load ?ps) = sum_list (map load (lg_producers lg1)) + 1"
    using push_or_drop_balance [OF okp] by (simp add: sum_list_update_group [OF p] load_def)
  ultimately show ?thesis using ok1 False st reg
    by (simp add: logger_log_def Let_def logger_ok_def balanced_load tls_ok_def algebra_simps)
qed

section \<open>Draining\<close>

lemma fold_write_record:
  "fold write_record rs lg = lg\<lparr>lg_out := lg_out lg @ concat (map record_line rs),
     lg_written := lg_written lg + of_nat (length rs)\<rparr>"
  by (induction rs arbitrary: lg) (simp_all add: write_record_def algebra_simps)

lemma fold_count:
  "fold (\<lambda>r (n, lg). (Suc n, write_record r lg)) rs (n, lg) = (n + length rs, fold write_record rs lg)"
  by (induction rs arbitrary: n lg) simp_all

lemma drain_producer_spec:
  assumes "producer_ok p"
  shows "\<exists>p'. drain_producer p (n, lg)
      = Some (p', n + pending p, fold write_record (ring_content (p_ring p)) lg)
    \<and> producer_ok p' \<and> pending p' = 0 \<and> p_dropped p' = p_dropped p"
proof -
  obtain q where "pop_fold try_pop (\<lambda>r (n, lg). (n + 1, write_record r lg)) (n, lg) (p_ring p)
      = Some (fold (\<lambda>r (n, lg). (n + 1, write_record r lg)) (ring_content (p_ring p)) (n, lg), q)"
    "ring_content q = [] \<and> ring_ok q \<and> capacity q = capacity (p_ring p)"
    using ring.pop_fold_content [of "p_ring p" "\<lambda>r (n, lg). (n + 1, write_record r lg)" "(n, lg)"] assms
    unfolding producer_ok_def by blast
  then show ?thesis using assms
    by (simp add: drain_producer_def fold_count pending_def producer_ok_def)
qed

lemma drain_list_spec:
  "\<forall>p \<in> set ps. producer_ok p \<Longrightarrow>
   \<exists>ps'. drain_list ps (n, lg) = Some (ps', n + sum_list (map pending ps),
       fold write_record (concat (map (\<lambda>p. ring_content (p_ring p)) ps)) lg)
     \<and> map p_dropped ps' = map p_dropped ps \<and> (\<forall>p \<in> set ps'. producer_ok p \<and> pending p = 0)"
proof (induction ps arbitrary: n lg)
  case Nil
  then show ?case by simp
next
  case (Cons p ps)
  obtain p' where p': "drain_producer p (n, lg)
      = Some (p', n + pending p, fold write_record (ring_content (p_ring p)) lg)"
    "producer_ok p'" "pending p' = 0" "p_dropped p' = p_dropped p"
    using drain_producer_spec [of p n lg] Cons.prems by auto
  obtain ps' where ps': "drain_list ps (n + pending p, fold write_record (ring_content (p_ring p)) lg)
      = Some (ps', n + pending p + sum_list (map pending ps),
          fold write_record (concat (map (\<lambda>p. ring_content (p_ring p)) ps))
            (fold write_record (ring_content (p_ring p)) lg))"
    "map p_dropped ps' = map p_dropped ps" "\<forall>p \<in> set ps'. producer_ok p \<and> pending p = 0"
    using Cons.IH [of "n + pending p"] Cons.prems by force
  show ?case using p' ps' by (simp add: add.assoc)
qed

lemma drain_now_spec:
  assumes "\<forall>p \<in> set (lg_producers lg). producer_ok p"
  shows "\<exists>ps'. drain_now lg = Some (sum_list (map pending (lg_producers lg)),
       (fold write_record (concat (map (\<lambda>p. ring_content (p_ring p)) (lg_producers lg))) lg)
         \<lparr>lg_producers := ps'\<rparr>)
     \<and> map p_dropped ps' = map p_dropped (lg_producers lg)
     \<and> (\<forall>p \<in> set ps'. producer_ok p \<and> pending p = 0)"
  using drain_list_spec [OF assms, of 0 lg] by (auto simp: drain_now_def)

text \<open>What a drain guarantees, in the form the callers use.\<close>

definition drained :: "logger \<Rightarrow> bool" where
  "drained lg \<longleftrightarrow> (\<forall>p \<in> set (lg_producers lg). pending p = 0)"

lemma drain_now_ok:
  assumes "logger_ok (t, lg)"
  shows "\<exists>n lg'. drain_now lg = Some (n, lg') \<and> logger_ok (t, lg') \<and> drained lg'
    \<and> lg_joinable lg' = lg_joinable lg \<and> lg_id lg' = lg_id lg \<and> lg_seq lg' = lg_seq lg"
proof -
  obtain ps' where d: "drain_now lg = Some (sum_list (map pending (lg_producers lg)),
       (fold write_record (concat (map (\<lambda>p. ring_content (p_ring p)) (lg_producers lg))) lg)
         \<lparr>lg_producers := ps'\<rparr>)"
    and drop: "map p_dropped ps' = map p_dropped (lg_producers lg)"
    and ok: "\<forall>p \<in> set ps'. producer_ok p \<and> pending p = 0"
    using drain_now_spec [of lg] assms by (auto simp: logger_ok_def)
  have len: "length ps' = length (lg_producers lg)" using drop by (metis length_map)
  have z: "sum_list (map pending ps') = 0" using ok by (induction ps') auto
  have zero: "of_nat (sum_list (map pending ps')) = (0 :: u64)" unfolding z by simp
  have "length (concat (map (\<lambda>p. ring_content (p_ring p)) (lg_producers lg)))
      = sum_list (map pending (lg_producers lg))"
    by (simp add: length_concat comp_def pending_def [symmetric])
  note count = this
  let ?lg = "(fold write_record (concat (map (\<lambda>p. ring_content (p_ring p)) (lg_producers lg))) lg)
         \<lparr>lg_producers := ps'\<rparr>"
  have "balanced ?lg"
  proof -
    have "lg_seq lg = lg_written lg + sum_list (map p_dropped (lg_producers lg))
        + of_nat (sum_list (map pending (lg_producers lg)))"
      using assms by (simp add: logger_ok_def balanced_def total_dropped_def)
    moreover have "lg_written ?lg = lg_written lg + of_nat (sum_list (map pending (lg_producers lg)))"
      unfolding fold_write_record count by simp
    moreover have "lg_seq ?lg = lg_seq lg" "lg_producers ?lg = ps'"
      unfolding fold_write_record by simp_all
    ultimately show ?thesis unfolding balanced_def total_dropped_def drop zero
      by (simp only: ac_simps drop zero add_0_right add_0_left)
  qed
  moreover have "tls_ok t ?lg"
    using assms len by (simp add: logger_ok_def tls_ok_def fold_write_record)
  ultimately have "logger_ok (t, ?lg)" using ok by (simp add: logger_ok_def)
  moreover have "drained ?lg" using ok by (simp add: drained_def)
  ultimately show ?thesis using d by (simp add: fold_write_record)
qed

lemma report_drops_ok: "logger_ok (t, lg) \<Longrightarrow> logger_ok (t, report_drops lg)"
  by (simp add: report_drops_def Let_def logger_ok_def balanced_def tls_ok_def total_dropped_def)

lemma report_drops_frame [simp]:
  "lg_producers (report_drops lg) = lg_producers lg" "lg_seq (report_drops lg) = lg_seq lg"
  "lg_id (report_drops lg) = lg_id lg" "lg_written (report_drops lg) = lg_written lg"
  "lg_joinable (report_drops lg) = lg_joinable lg"
  "total_dropped (report_drops lg) = total_dropped lg"
  "lg_reported (report_drops lg) = total_dropped lg"
  by (simp_all add: report_drops_def Let_def total_dropped_def)

lemma logger_ok_cong:
  "lg_producers lg' = lg_producers lg \<Longrightarrow> lg_seq lg' = lg_seq lg \<Longrightarrow> lg_id lg' = lg_id lg \<Longrightarrow>
   lg_written lg' = lg_written lg \<Longrightarrow> logger_ok (t, lg) \<Longrightarrow> logger_ok (t, lg')"
  by (simp add: logger_ok_def balanced_def tls_ok_def total_dropped_def)

lemma sink_iteration_ok:
  assumes "logger_ok (t, lg)"
  shows "\<exists>lg'. sink_iteration now lg = Some lg' \<and> logger_ok (t, lg') \<and> drained lg'"
proof -
  obtain n lg1 where "drain_now lg = Some (n, lg1)" "logger_ok (t, lg1)" "drained lg1"
    using drain_now_ok [OF assms] by blast
  moreover have "logger_ok (t, (report_drops lg1)\<lparr>lg_last_report := now\<rparr>)"
    by (rule logger_ok_cong [of _ "report_drops lg1"]) (simp_all add: report_drops_ok \<open>logger_ok (t, lg1)\<close>)
  ultimately show ?thesis by (simp add: sink_iteration_def drained_def)
qed

lemma sink_exit_ok:
  assumes "logger_ok (t, lg)"
  shows "\<exists>lg'. sink_exit lg = Some lg' \<and> logger_ok (t, lg') \<and> drained lg'
    \<and> lg_reported lg' = total_dropped lg' \<and> lg_seq lg' = lg_seq lg"
proof -
  obtain n lg1 where "drain_now lg = Some (n, lg1)" "logger_ok (t, lg1)" "drained lg1"
    "lg_seq lg1 = lg_seq lg"
    using drain_now_ok [OF assms] by blast
  then show ?thesis by (auto simp: sink_exit_def drained_def intro: report_drops_ok)
qed

lemma logger_stop_ok:
  assumes "logger_ok (t, lg)"
  shows "\<exists>lg'. logger_stop lg = Some lg' \<and> logger_ok (t, lg') \<and> \<not> lg_joinable lg'
    \<and> lg_seq lg' = lg_seq lg
    \<and> (lg_joinable lg \<longrightarrow> drained lg' \<and> lg_reported lg' = total_dropped lg')"
proof (cases "lg_joinable lg")
  case True
  obtain lg1 where "sink_exit lg = Some lg1" "logger_ok (t, lg1)" "drained lg1"
    "lg_reported lg1 = total_dropped lg1" "lg_seq lg1 = lg_seq lg"
    using sink_exit_ok [OF assms] by blast
  moreover from this have "logger_ok (t, lg1\<lparr>lg_joinable := False\<rparr>)"
    by (auto intro: logger_ok_cong [of _ lg1])
  ultimately show ?thesis by (simp add: logger_stop_def True drained_def total_dropped_def)
next
  case False
  then show ?thesis using assms by (simp add: logger_stop_def)
qed

lemma log_step_ok: "logger_ok st \<Longrightarrow> \<exists>st'. log_step e st = Some st' \<and> logger_ok st'"
proof (induction e st rule: log_step.induct)
  case (1 tid now l cname msg kvs st)
  then show ?case by (simp add: logger_log_ok)
next
  case (2 l t lg)
  then show ?case by (auto simp: set_level_def intro: logger_ok_cong)
next
  case (3 now t lg)
  then show ?case using sink_iteration_ok by fastforce
next
  case (4 t lg)
  then show ?case using drain_now_ok by fastforce
next
  case (5 now t lg)
  then show ?case by (auto simp: logger_start_def intro: logger_ok_cong)
next
  case (6 t lg)
  then show ?case using logger_stop_ok by fastforce
qed

lemma log_run_ok: "logger_ok st \<Longrightarrow> \<exists>st'. log_run es st = Some st' \<and> logger_ok st'"
proof (induction es arbitrary: st)
  case Nil
  then show ?case by simp
next
  case (Cons e es)
  then show ?case using log_step_ok [OF Cons.prems, of e] by force
qed

lemma fresh_logger_ok:
  "(\<forall>tid p. t tid \<noteq> Some (p, i)) \<Longrightarrow> logger_ok (t, fst (logger_ctor i))"
  by (simp add: logger_ok_def logger_ctor_def tls_ok_def balanced_def total_dropped_def)

section \<open>Properties\<close>

lemma ctor_run:
  "\<exists>t lg. log_run es (Map.empty, fst (logger_ctor i)) = Some (t, lg) \<and> logger_ok (t, lg)"
  using log_run_ok [OF fresh_logger_ok [of Map.empty i], of es] by auto

text \<open>
  C18. No record disappears: whatever a process does with a logger (calls of \<^verbatim>\<open>log\<close> from any
  threads, level changes, drains, start and stop, in any order), every sequence number handed out
  belongs to a record that was written, was counted as dropped, or is still in one of the rings; and
  no two threads are ever given the same ring, so each ring has a single producer.
\<close>

theorem logger_conservation:
  "\<exists>t lg. log_run es (Map.empty, fst (logger_ctor i)) = Some (t, lg)
     \<and> lg_seq lg = st_written (logger_stats lg) + st_dropped (logger_stats lg)
         + of_nat (sum_list (map pending (lg_producers lg)))
     \<and> (\<forall>tid tid' p. t tid = Some (p, lg_id lg) \<and> t tid' = Some (p, lg_id lg) \<longrightarrow> tid = tid')"
proof -
  obtain t lg where "log_run es (Map.empty, fst (logger_ctor i)) = Some (t, lg)" "logger_ok (t, lg)"
    using ctor_run by blast
  then show ?thesis by (auto simp: logger_ok_def balanced_def tls_ok_def logger_stats_def)
qed

theorem logger_conservation_witness:
  "\<exists>t lg. log_run [Ev_start 0, Ev_log 1 5 L_warn ''a'' ''b'' [], Ev_log 2 6 L_info ''c'' ''d'' [],
        Ev_sink 7, Ev_stop] (Map.empty, fst (logger_ctor 1)) = Some (t, lg)
     \<and> lg_seq lg = st_written (logger_stats lg) + st_dropped (logger_stats lg)
         + of_nat (sum_list (map pending (lg_producers lg)))
     \<and> \<not> (t 1 = Some (0, lg_id lg) \<and> t 2 = Some (0, lg_id lg))"
  using logger_conservation [of "[Ev_start 0, Ev_log 1 5 L_warn ''a'' ''b'' [],
      Ev_log 2 6 L_info ''c'' ''d'' [], Ev_sink 7, Ev_stop]" 1] by (metis n_not_Suc_n one_add_one Suc_1)

text \<open>
  \<^verbatim>\<open>stop\<close> is the final flush the header promises: it returns, the sink thread is joined,
  every ring is empty, every record that was accepted has been written or counted as dropped, and all
  drops have been reported on the output.
\<close>

lemma logger_stop_flushes:
  assumes "log_run es (Map.empty, fst (logger_ctor i)) = Some (t, lg)" and "lg_joinable lg"
  shows "\<exists>lg'. logger_stop lg = Some lg' \<and> \<not> lg_joinable lg' \<and> drained lg'
    \<and> lg_seq lg' = lg_seq lg \<and> lg_seq lg' = lg_written lg' + total_dropped lg'
    \<and> lg_reported lg' = total_dropped lg'"
proof -
  have "logger_ok (t, lg)" using ctor_run [of es i] assms(1) by auto
  from logger_stop_ok [OF this] obtain lg' where
    st: "logger_stop lg = Some lg'" "logger_ok (t, lg')" "\<not> lg_joinable lg'" "lg_seq lg' = lg_seq lg"
      "drained lg'" "lg_reported lg' = total_dropped lg'"
    using assms(2) by blast
  have z: "sum_list (map pending (lg_producers lg')) = 0"
    using st(5) by (simp add: drained_def sum_list_eq_0_iff)
  have "balanced lg'" using st(2) by (simp add: logger_ok_def)
  then have "lg_seq lg' = lg_written lg' + total_dropped lg'" unfolding balanced_def z by simp
  then show ?thesis using st by auto
qed

lemma logger_stop_flushes_witness:
  "\<exists>t lg lg'. log_run [Ev_start 3] (Map.empty, fst (logger_ctor 1)) = Some (t, lg)
    \<and> logger_stop lg = Some lg' \<and> drained lg'"
proof -
  let ?lg = "logger_start 3 (fst (logger_ctor 1))"
  have r: "log_run [Ev_start 3] (Map.empty, fst (logger_ctor 1)) = Some (Map.empty, ?lg)" by simp
  have "lg_joinable ?lg" by (simp add: logger_start_def logger_ctor_def)
  from logger_stop_flushes [OF r this] show ?thesis using r by blast
qed

text \<open>A burst of calls from one thread, and the records it should produce.\<close>

type_synonym log_call = "u64 \<times> level \<times> string \<times> string \<times> key_value list"

fun log_calls :: "nat \<Rightarrow> log_call list \<Rightarrow> tls \<times> logger \<Rightarrow> tls \<times> logger" where
  "log_calls tid [] st = st"
| "log_calls tid ((now, l, cname, msg, kvs) # xs) st =
     log_calls tid xs (logger_log tid now l cname msg kvs st)"

fun accepted_records :: "level \<Rightarrow> u64 \<Rightarrow> log_call list \<Rightarrow> log_record list" where
  "accepted_records lv sq [] = []"
| "accepted_records lv sq ((now, l, cname, msg, kvs) # xs) =
     (if l < lv then accepted_records lv sq xs
      else make_record now sq l cname msg kvs # accepted_records lv (sq + 1) xs)"

lemma log_calls_single:
  assumes "lg_producers lg = [p]" and "producer_ok p" and "t tid = Some (0, lg_id lg)"
  shows "\<exists>q. log_calls tid xs (t, lg)
      = (t, lg\<lparr>lg_seq := lg_seq lg + of_nat (length (accepted_records (lg_level lg) (lg_seq lg) xs)),
               lg_producers := [q]\<rparr>)
    \<and> producer_ok q
    \<and> ring_content (p_ring q) = ring_content (p_ring p)
        @ take (kRingCapacity - pending p) (accepted_records (lg_level lg) (lg_seq lg) xs)
    \<and> p_dropped q = p_dropped p
        + of_nat (length (accepted_records (lg_level lg) (lg_seq lg) xs) - (kRingCapacity - pending p))"
  using assms
proof (induction xs arbitrary: lg p)
  case Nil
  then show ?case by (intro exI [of _ p]) simp
next
  case (Cons x xs)
  obtain now l cname msg kvs where x: "x = (now, l, cname, msg, kvs)" by (metis prod_cases5)
  show ?case
  proof (cases "l < lg_level lg")
    case True
    then show ?thesis using Cons.IH [OF Cons.prems] by (simp add: x logger_log_def)
  next
    case False
    let ?r = "make_record now (lg_seq lg) l cname msg kvs"
    let ?p = "push_or_drop ?r p"
    let ?lg = "lg\<lparr>lg_seq := lg_seq lg + 1, lg_producers := [?p]\<rparr>"
    have step: "logger_log tid now l cname msg kvs (t, lg) = (t, ?lg)"
      using False Cons.prems by (simp add: logger_log_def producer_for_this_thread_def)
    note pc = push_or_drop_cases [OF Cons.prems(2), of ?r]
    have IH: "\<exists>q. log_calls tid xs (t, ?lg)
      = (t, ?lg\<lparr>lg_seq := lg_seq ?lg + of_nat (length (accepted_records (lg_level ?lg) (lg_seq ?lg) xs)),
               lg_producers := [q]\<rparr>)
    \<and> producer_ok q
    \<and> ring_content (p_ring q) = ring_content (p_ring ?p)
        @ take (kRingCapacity - pending ?p) (accepted_records (lg_level ?lg) (lg_seq ?lg) xs)
    \<and> p_dropped q = p_dropped ?p
        + of_nat (length (accepted_records (lg_level ?lg) (lg_seq ?lg) xs) - (kRingCapacity - pending ?p))"
      by (rule Cons.IH) (use pc Cons.prems in simp_all)
    then obtain q where q: "log_calls tid xs (t, ?lg)
      = (t, ?lg\<lparr>lg_seq := lg_seq ?lg + of_nat (length (accepted_records (lg_level ?lg) (lg_seq ?lg) xs)),
               lg_producers := [q]\<rparr>)" "producer_ok q"
     "ring_content (p_ring q) = ring_content (p_ring ?p)
        @ take (kRingCapacity - pending ?p) (accepted_records (lg_level ?lg) (lg_seq ?lg) xs)"
     "p_dropped q = p_dropped ?p
        + of_nat (length (accepted_records (lg_level ?lg) (lg_seq ?lg) xs) - (kRingCapacity - pending ?p))"
      by blast
    have acc: "accepted_records (lg_level lg) (lg_seq lg) (x # xs)
        = ?r # accepted_records (lg_level lg) (lg_seq lg + 1) xs" using False by (simp add: x)
    show ?thesis
    proof (cases "pending p < kRingCapacity")
      case True
      then have "pending ?p = Suc (pending p)" using pc by (simp add: pending_def)
      then have room: "kRingCapacity - pending p = Suc (kRingCapacity - pending ?p)" using True by simp
      show ?thesis unfolding acc room using q pc True
        by (intro exI [of _ q]) (simp add: x step add.assoc)
    next
      case False
      then have full: "?p = p\<lparr>p_dropped := p_dropped p + 1\<rparr>" and "kRingCapacity - pending p = 0"
        using pc by auto
      then show ?thesis unfolding acc using q
        by (intro exI [of _ q]) (simp add: x step add.assoc full pending_def)
    qed
  qed
qed

lemma first_call_registers:
  fixes i :: u64
  defines "lg0 \<equiv> fst (logger_ctor i)"
  shows "(\<exists>x. log_calls tid xs (Map.empty, lg0) = (x, lg0) \<and> accepted_records L_info 0 xs = [])
     \<or> log_calls tid xs (Map.empty, lg0)
        = log_calls tid xs (Map.empty(tid \<mapsto> (0, i)), lg0\<lparr>lg_producers := [new_producer]\<rparr>)"
  unfolding lg0_def
proof (induction xs)
  case Nil
  then show ?case by simp
next
  case (Cons x xs)
  obtain now l cname msg kvs where "x = (now, l, cname, msg, kvs)" by (metis prod_cases5)
  with Cons show ?case
    by (simp add: logger_log_def producer_for_this_thread_def logger_ctor_def fun_upd_def split: if_splits cong: if_cong)
qed

lemma drain_single:
  assumes "lg_producers lg = [q]" and "producer_ok q" and "lg_out lg = []" and "lg_written lg = 0"
  shows "\<exists>lg'. drain_now lg = Some (pending q, lg')
    \<and> lg_out lg' = concat (map record_line (ring_content (p_ring q)))
    \<and> st_written (logger_stats lg') = of_nat (pending q) \<and> st_dropped (logger_stats lg') = p_dropped q"
proof -
  obtain ps' where d: "drain_now lg = Some (sum_list (map pending (lg_producers lg)),
     (fold write_record (concat (map (\<lambda>p. ring_content (p_ring p)) (lg_producers lg))) lg)
       \<lparr>lg_producers := ps'\<rparr>)" "map p_dropped ps' = map p_dropped (lg_producers lg)"
    using drain_now_spec [of lg] assms(1,2) by auto
  then show ?thesis
    using assms by (auto simp: fold_write_record logger_stats_def total_dropped_def pending_def)
qed

text \<open>
  C33. What the log file holds: after any burst of calls from one thread, a drain writes, in call
  order and each once, the lines of the first 1024 calls at or above the level, and the calls beyond
  the ring's 1024 slots are counted as dropped, whatever their level, component, text and values.
\<close>

theorem logger_prints_calls:
  "let rs = accepted_records L_info 0 xs;
       lg = snd (log_calls tid xs (Map.empty, fst (logger_ctor i)))
   in \<exists>lg'. drain_now lg = Some (length (take 1024 rs), lg')
        \<and> lg_out lg' = concat (map record_line (take 1024 rs))
        \<and> st_written (logger_stats lg') = of_nat (length (take 1024 rs))
        \<and> st_dropped (logger_stats lg') = of_nat (length rs - 1024)"
proof -
  let ?lg0 = "fst (logger_ctor i)" and ?rs = "accepted_records L_info 0 xs"
  let ?t = "Map.empty(tid \<mapsto> (0, i))" and ?lg1 = "?lg0\<lparr>lg_producers := [new_producer]\<rparr>"
  consider (none) x where "log_calls tid xs (Map.empty, ?lg0) = (x, ?lg0)" "?rs = []"
    | (some) "log_calls tid xs (Map.empty, ?lg0) = log_calls tid xs (?t, ?lg1)"
    using first_call_registers [of tid xs i] by blast
  then show ?thesis
  proof cases
    case none
    then show ?thesis
      by (simp add: Let_def drain_now_def logger_ctor_def logger_stats_def total_dropped_def)
  next
    case some
    have f: "lg_level ?lg1 = L_info" "lg_seq ?lg1 = 0" "lg_out ?lg1 = []" "lg_written ?lg1 = 0"
      "lg_id ?lg1 = i" "lg_producers ?lg1 = [new_producer]"
      by (simp_all add: logger_ctor_def)
    have t: "?t tid = Some (0, lg_id ?lg1)" unfolding f by simp
    obtain q where q: "log_calls tid xs (?t, ?lg1) = (?t, ?lg1\<lparr>lg_seq := of_nat (length ?rs), lg_producers := [q]\<rparr>)"
      "producer_ok q" "ring_content (p_ring q) = take 1024 ?rs" "p_dropped q = of_nat (length ?rs - 1024)"
      using log_calls_single [of ?lg1 new_producer ?t tid xs, OF f(6) new_producer_ok(1) t] new_producer_ok
      unfolding f by (auto simp: pending_def kRingCapacity_def)
    then show ?thesis
      using drain_single [of "snd (log_calls tid xs (Map.empty, ?lg0))" q] some f
      by (simp add: Let_def pending_def)
  qed
qed

fun alternate :: "nat \<Rightarrow> nat \<Rightarrow> u64 \<Rightarrow> string \<Rightarrow> tls \<times> logger \<times> logger \<Rightarrow> tls \<times> logger \<times> logger" where
  "alternate tid 0 now m st = st"
| "alternate tid (Suc n) now m (t, a, b) =
     (case logger_log tid now L_error ''x'' m [] (t, a) of (t1, a1) \<Rightarrow>
        (case logger_log tid now L_error ''x'' m [] (t1, b) of (t2, b2) \<Rightarrow>
           alternate tid n now m (t2, a1, b2)))"

lemma log_registers:
  assumes "lg_level lg = L_info" and "\<forall>p. t tid \<noteq> Some (p, lg_id lg)"
  shows "\<exists>lg'. logger_log tid now L_error c m kvs (t, lg)
      = (t(tid \<mapsto> (length (lg_producers lg), lg_id lg)), lg')
    \<and> lg_level lg' = L_info \<and> lg_id lg' = lg_id lg
    \<and> length (lg_producers lg') = Suc (length (lg_producers lg))"
  using assms by (auto simp: logger_log_def producer_for_this_thread_def Let_def less_level_def
    split: option.splits)

lemma alternate_grows:
  assumes "lg_level a = L_info" "lg_level b = L_info" "lg_id a \<noteq> lg_id b"
    and "\<forall>p. t tid \<noteq> Some (p, lg_id a)"
  shows "\<exists>t' a' b'. alternate tid n now m (t, a, b) = (t', a', b')
    \<and> length (lg_producers a') = length (lg_producers a) + n
    \<and> length (lg_producers b') = length (lg_producers b) + n"
  using assms
proof (induction n arbitrary: t a b)
  case 0
  then show ?case by simp
next
  case (Suc n)
  obtain a1 where a1: "logger_log tid now L_error ''x'' m [] (t, a)
      = (t(tid \<mapsto> (length (lg_producers a), lg_id a)), a1)"
    "lg_level a1 = L_info" "lg_id a1 = lg_id a" "length (lg_producers a1) = Suc (length (lg_producers a))"
    using log_registers [of a t tid now "''x''" m "[]"] Suc.prems by blast
  let ?t1 = "t(tid \<mapsto> (length (lg_producers a), lg_id a))"
  have "\<forall>p. ?t1 tid \<noteq> Some (p, lg_id b)" using Suc.prems by simp
  then obtain b1 where b1: "logger_log tid now L_error ''x'' m [] (?t1, b)
      = (?t1(tid \<mapsto> (length (lg_producers b), lg_id b)), b1)"
    "lg_level b1 = L_info" "lg_id b1 = lg_id b" "length (lg_producers b1) = Suc (length (lg_producers b))"
    using log_registers [of b ?t1 tid now "''x''" m "[]"] Suc.prems by blast
  show ?case using Suc.IH [of a1 b1 "?t1(tid \<mapsto> (length (lg_producers b), lg_id b))"] Suc.prems a1 b1
    by (simp add: fun_upd_def)
qed

text \<open>
  A thread that alternates between two loggers registers anew at every call: the cache of
  \<^verbatim>\<open>producer_for_this_thread\<close> remembers one logger only, so after \<open>n\<close> rounds each logger holds
  \<open>n\<close> rings of one record each for that single thread.
\<close>

lemma alternating_loggers_leak:
  "case alternate tid n now m (Map.empty, fst (logger_ctor i), fst (logger_ctor (i + 1))) of
     (t, a, b) \<Rightarrow> st_producers (logger_stats a) = n \<and> st_producers (logger_stats b) = n"
  using alternate_grows [of "fst (logger_ctor i)" "fst (logger_ctor (i + 1))" Map.empty tid n now m]
  by (auto simp: logger_ctor_def logger_stats_def)

end
