(* ===== verification/Logger_Threads.thy ===== *)
theory Logger_Threads
  imports Logger
begin

text \<open>
  \<^verbatim>\<open>framework/log/logger.cpp\<close> as its threads run it, in small steps: any number of threads inside
  \<^verbatim>\<open>Logger::log\<close>, the sink thread, and the thread that owns the logger (it starts it, asks it to
  stop, joins it and destroys it). A step is one access to shared memory: taking or leaving
  \<^verbatim>\<open>producers_mutex_\<close>, registering a ring, numbering a record, one \<^verbatim>\<open>try_push\<close> or \<^verbatim>\<open>try_pop\<close>
  (whose own interleaving is the subject of \<open>Log_Ring_Threads\<close>), printing a line. The operations of
  the theory \<open>Logger\<close> are these steps run without interruption.
\<close>

section \<open>States\<close>

text \<open>
  Where a thread is inside \<^verbatim>\<open>log\<close>: waiting for the mutex, about to register its ring, with its ring
  and no number yet, with its record, or refused and about to count the drop.
\<close>

datatype log_pc =
    Lp_idle
  | Lp_wait log_call
  | Lp_register log_call
  | Lp_number nat log_call
  | Lp_push nat log_record
  | Lp_drop nat

text \<open>Where a thread is inside \<^verbatim>\<open>drain_now\<close>: the ring it looks at and the number of records so far.\<close>

datatype drain_pc =
    Dp_idle
  | Dp_wait
  | Dp_pop nat nat
  | Dp_write nat nat log_record
  | Dp_done nat

text \<open>The sink thread; the flag says that it is past its loop, after the stop request.\<close>

datatype sink_pc =
    Sk_off
  | Sk_top
  | Sk_drain bool
  | Sk_report bool
  | Sk_sum bool nat u64
  | Sk_say bool u64
  | Sk_gone

datatype owner_pc = Ow_new | Ow_up | Ow_join | Ow_down | Ow_drain | Ow_end

datatype drainer = Sink | Owner

datatype holder = By_log nat | By_drain drainer | By_report

text \<open>A line of the output: a record of a ring, or a report of drops.\<close>

datatype line = Printed nat log_record | Drops u64

text \<open>
  \<open>ls_pushed\<close>, \<open>ls_lines\<close> and \<open>ls_mark\<close> are history: what each ring has accepted, the lines printed,
  and what each ring had accepted when the owner last asked for a stop or began the destructor.
\<close>

record lsys =
  ls_log :: logger
  ls_tls :: tls
  ls_pc :: "nat \<Rightarrow> log_pc"
  ls_drain :: "drainer \<Rightarrow> drain_pc"
  ls_sink :: sink_pc
  ls_owner :: owner_pc
  ls_mutex :: "holder option"
  ls_stop :: bool
  ls_pushed :: "nat \<Rightarrow> log_record list"
  ls_lines :: "line list"
  ls_mark :: "nat \<Rightarrow> nat"

text \<open>A new logger; the threads' caches may name loggers that came before.\<close>

definition lsys_init :: "u64 \<Rightarrow> tls \<Rightarrow> lsys" where
  "lsys_init ident t = \<lparr>ls_log = fst (logger_ctor ident), ls_tls = t, ls_pc = (\<lambda>_. Lp_idle),
     ls_drain = (\<lambda>_. Dp_idle), ls_sink = Sk_off, ls_owner = Ow_new, ls_mutex = None, ls_stop = False,
     ls_pushed = (\<lambda>_. []), ls_lines = [], ls_mark = (\<lambda>_. 0)\<rparr>"

abbreviation rings :: "lsys \<Rightarrow> producer list" where
  "rings s \<equiv> lg_producers (ls_log s)"

definition set_producer :: "nat \<Rightarrow> producer \<Rightarrow> logger \<Rightarrow> logger" where
  "set_producer i p lg = lg\<lparr>lg_producers := (lg_producers lg)[i := p]\<rparr>"

definition drop_line :: "u64 \<Rightarrow> string" where
  "drop_line n = pad_left 6 (CHR '' '') '''' @ '' '' @ pad_right 5 (level_name L_warn) @ '' '' @
     pad_right 10 ''log'' @ '' log dropped='' @ dec (unat n) @ [NL]"

primrec line_text :: "line \<Rightarrow> string" where
  "line_text (Printed i r) = record_line r"
| "line_text (Drops n) = drop_line n"

section \<open>A thread inside log\<close>

definition at_pc :: "nat \<Rightarrow> log_pc \<Rightarrow> lsys \<Rightarrow> lsys" where
  "at_pc t q s = s\<lparr>ls_pc := (ls_pc s)(t := q)\<rparr>"

text \<open>The lookup in the thread-local cache; a hit touches no shared mutable state.\<close>

definition cached :: "nat \<Rightarrow> lsys \<Rightarrow> nat option" where
  "cached t s =
     (case ls_tls s t of
        None \<Rightarrow> None
      | Some (mine, owner_id) \<Rightarrow> if owner_id = lg_id (ls_log s) then Some mine else None)"

definition after_lookup :: "nat \<Rightarrow> log_call \<Rightarrow> lsys \<Rightarrow> log_pc" where
  "after_lookup t a s = (case cached t s of Some p \<Rightarrow> Lp_number p a | None \<Rightarrow> Lp_wait a)"

definition register_ring :: "nat \<Rightarrow> lsys \<Rightarrow> lsys" where
  "register_ring t s =
     s\<lparr>ls_tls := (ls_tls s)(t \<mapsto> (length (rings s), lg_id (ls_log s))),
       ls_log := (ls_log s)\<lparr>lg_producers := rings s @ [new_producer]\<rparr>, ls_mutex := None\<rparr>"

definition take_number :: "lsys \<Rightarrow> lsys" where
  "take_number s = s\<lparr>ls_log := (ls_log s)\<lparr>lg_seq := lg_seq (ls_log s) + 1\<rparr>\<rparr>"

definition accept :: "nat \<Rightarrow> log_record spsc \<Rightarrow> log_record \<Rightarrow> lsys \<Rightarrow> lsys" where
  "accept p q r s =
     s\<lparr>ls_log := set_producer p ((rings s ! p)\<lparr>p_ring := q\<rparr>) (ls_log s),
       ls_pushed := (ls_pushed s)(p := ls_pushed s p @ [r])\<rparr>"

definition count_drop :: "nat \<Rightarrow> lsys \<Rightarrow> lsys" where
  "count_drop p s =
     s\<lparr>ls_log := set_producer p ((rings s ! p)\<lparr>p_dropped := p_dropped (rings s ! p) + 1\<rparr>) (ls_log s)\<rparr>"

text \<open>
  A call below the level has no effect and is no step. Between two calls a thread may log through
  another logger, which overwrites its cache.
\<close>

inductive caller_step :: "nat \<Rightarrow> lsys \<Rightarrow> lsys \<Rightarrow> bool" for t where
  called: "ls_pc s t = Lp_idle \<Longrightarrow> \<not> l < lg_level (ls_log s) \<Longrightarrow>
    caller_step t s (at_pc t (after_lookup t (now, l, cname, msg, kvs) s) s)"
| locked: "ls_pc s t = Lp_wait a \<Longrightarrow> ls_mutex s = None \<Longrightarrow>
    caller_step t s (at_pc t (Lp_register a) (s\<lparr>ls_mutex := Some (By_log t)\<rparr>))"
| registered: "ls_pc s t = Lp_register a \<Longrightarrow>
    caller_step t s (at_pc t (Lp_number (length (rings s)) a) (register_ring t s))"
| numbered: "ls_pc s t = Lp_number p (now, l, cname, msg, kvs) \<Longrightarrow>
    caller_step t s (at_pc t (Lp_push p (make_record now (lg_seq (ls_log s)) l cname msg kvs)) (take_number s))"
| accepted: "ls_pc s t = Lp_push p r \<Longrightarrow> try_push r (p_ring (rings s ! p)) = (True, q) \<Longrightarrow>
    caller_step t s (at_pc t Lp_idle (accept p q r s))"
| refused: "ls_pc s t = Lp_push p r \<Longrightarrow> try_push r (p_ring (rings s ! p)) = (False, q) \<Longrightarrow>
    caller_step t s (at_pc t (Lp_drop p) s)"
| counted: "ls_pc s t = Lp_drop p \<Longrightarrow> caller_step t s (at_pc t Lp_idle (count_drop p s))"
| elsewhere: "ls_pc s t = Lp_idle \<Longrightarrow> other \<noteq> lg_id (ls_log s) \<Longrightarrow>
    caller_step t s (s\<lparr>ls_tls := (ls_tls s)(t \<mapsto> (mine, other))\<rparr>)"

section \<open>Draining\<close>

definition at_drain :: "drainer \<Rightarrow> drain_pc \<Rightarrow> lsys \<Rightarrow> lsys" where
  "at_drain w q s = s\<lparr>ls_drain := (ls_drain s)(w := q)\<rparr>"

definition put_record :: "nat \<Rightarrow> log_record \<Rightarrow> lsys \<Rightarrow> lsys" where
  "put_record i r s = s\<lparr>ls_log := write_record r (ls_log s), ls_lines := ls_lines s @ [Printed i r]\<rparr>"

text \<open>\<^verbatim>\<open>drain_now\<close>: the mutex is held over all rings, and a ring is left when it is found empty.\<close>

inductive drain_step :: "drainer \<Rightarrow> lsys \<Rightarrow> lsys \<Rightarrow> bool" for w where
  enters: "ls_drain s w = Dp_wait \<Longrightarrow> ls_mutex s = None \<Longrightarrow>
    drain_step w s (at_drain w (Dp_pop 0 0) (s\<lparr>ls_mutex := Some (By_drain w)\<rparr>))"
| popped: "ls_drain s w = Dp_pop i n \<Longrightarrow> i < length (rings s) \<Longrightarrow> try_pop (p_ring (rings s ! i)) = (Some r, q) \<Longrightarrow>
    drain_step w s (at_drain w (Dp_write i n r)
      (s\<lparr>ls_log := set_producer i ((rings s ! i)\<lparr>p_ring := q\<rparr>) (ls_log s)\<rparr>))"
| written: "ls_drain s w = Dp_write i n r \<Longrightarrow>
    drain_step w s (at_drain w (Dp_pop i (n + 1)) (put_record i r s))"
| empty: "ls_drain s w = Dp_pop i n \<Longrightarrow> i < length (rings s) \<Longrightarrow> try_pop (p_ring (rings s ! i)) = (None, q) \<Longrightarrow>
    drain_step w s (at_drain w (Dp_pop (i + 1) n) s)"
| leaves: "ls_drain s w = Dp_pop i n \<Longrightarrow> \<not> i < length (rings s) \<Longrightarrow>
    drain_step w s (at_drain w (Dp_done n) (s\<lparr>ls_mutex := None\<rparr>))"

section \<open>The sink and the owner\<close>

definition at_sink :: "sink_pc \<Rightarrow> lsys \<Rightarrow> lsys" where
  "at_sink q s = s\<lparr>ls_sink := q\<rparr>"

definition after_report :: "bool \<Rightarrow> sink_pc" where
  "after_report fin = (if fin then Sk_gone else Sk_top)"

text \<open>\<^verbatim>\<open>report_drops\<close> after its sum: printed outside the mutex.\<close>

definition say_drops :: "u64 \<Rightarrow> lsys \<Rightarrow> lsys" where
  "say_drops sm s =
     (let already = lg_reported (ls_log s)
      in if sm = already then s
         else s\<lparr>ls_log := (ls_log s)\<lparr>lg_out := lg_out (ls_log s) @ drop_line (sm - already), lg_reported := sm\<rparr>,
                ls_lines := ls_lines s @ [Drops (sm - already)]\<rparr>)"

text \<open>
  \<^verbatim>\<open>sink_loop\<close>; whether a second has passed since the last report is left open. The flush and the
  sleep of an idle turn change no state.
\<close>

inductive sink_step :: "lsys \<Rightarrow> lsys \<Rightarrow> bool" where
  turns: "ls_sink s = Sk_top \<Longrightarrow> sink_step s (at_sink (Sk_drain (ls_stop s)) (at_drain Sink Dp_wait s))"
| drains: "drain_step Sink s s' \<Longrightarrow> sink_step s s'"
| due: "ls_sink s = Sk_drain fin \<Longrightarrow> ls_drain s Sink = Dp_done n \<Longrightarrow>
    sink_step s (at_sink (Sk_report fin) (at_drain Sink Dp_idle s))"
| not_due: "ls_sink s = Sk_drain False \<Longrightarrow> ls_drain s Sink = Dp_done n \<Longrightarrow>
    sink_step s (at_sink Sk_top (at_drain Sink Dp_idle s))"
| adds_up: "ls_sink s = Sk_report fin \<Longrightarrow> ls_mutex s = None \<Longrightarrow>
    sink_step s (at_sink (Sk_sum fin 0 0) (s\<lparr>ls_mutex := Some By_report\<rparr>))"
| adds: "ls_sink s = Sk_sum fin i acc \<Longrightarrow> i < length (rings s) \<Longrightarrow>
    sink_step s (at_sink (Sk_sum fin (i + 1) (acc + p_dropped (rings s ! i))) s)"
| added: "ls_sink s = Sk_sum fin i acc \<Longrightarrow> \<not> i < length (rings s) \<Longrightarrow>
    sink_step s (at_sink (Sk_say fin acc) (s\<lparr>ls_mutex := None\<rparr>))"
| says: "ls_sink s = Sk_say fin acc \<Longrightarrow> sink_step s (at_sink (after_report fin) (say_drops acc s))"

definition set_mark :: "lsys \<Rightarrow> lsys" where
  "set_mark s = s\<lparr>ls_mark := (\<lambda>i. length (ls_pushed s i))\<rparr>"

definition at_owner :: "owner_pc \<Rightarrow> lsys \<Rightarrow> lsys" where
  "at_owner q s = s\<lparr>ls_owner := q\<rparr>"

text \<open>
  \<^verbatim>\<open>start\<close>, \<^verbatim>\<open>stop\<close> (the request, then the join) and the destructor, whose own stop finds the
  thread joined and whose drain is the last.
\<close>

inductive owner_step :: "lsys \<Rightarrow> lsys \<Rightarrow> bool" where
  starts: "ls_owner s \<in> {Ow_new, Ow_down} \<Longrightarrow>
    owner_step s (at_owner Ow_up (at_sink Sk_top (s\<lparr>ls_log := logger_start now (ls_log s), ls_stop := False\<rparr>)))"
| asks: "ls_owner s = Ow_up \<Longrightarrow> owner_step s (at_owner Ow_join (set_mark (s\<lparr>ls_stop := True\<rparr>)))"
| joins: "ls_owner s = Ow_join \<Longrightarrow> ls_sink s = Sk_gone \<Longrightarrow>
    owner_step s (at_owner Ow_down (s\<lparr>ls_log := (ls_log s)\<lparr>lg_joinable := False\<rparr>\<rparr>))"
| destroys: "ls_owner s \<in> {Ow_new, Ow_down} \<Longrightarrow>
    owner_step s (at_owner Ow_drain (set_mark (at_drain Owner Dp_wait s)))"
| flushes: "drain_step Owner s s' \<Longrightarrow> owner_step s s'"
| destroyed: "ls_owner s = Ow_drain \<Longrightarrow> ls_drain s Owner = Dp_done n \<Longrightarrow>
    owner_step s (at_owner Ow_end (at_drain Owner Dp_idle s))"

inductive lsys_reach :: "u64 \<Rightarrow> tls \<Rightarrow> lsys \<Rightarrow> bool" for ident c where
  created: "lsys_reach ident c (lsys_init ident c)"
| by_caller: "lsys_reach ident c s \<Longrightarrow> caller_step t s s' \<Longrightarrow> lsys_reach ident c s'"
| by_sink: "lsys_reach ident c s \<Longrightarrow> sink_step s s' \<Longrightarrow> lsys_reach ident c s'"
| by_owner: "lsys_reach ident c s \<Longrightarrow> owner_step s s' \<Longrightarrow> lsys_reach ident c s'"
| by_level: "lsys_reach ident c s \<Longrightarrow> lsys_reach ident c (s\<lparr>ls_log := set_level l (ls_log s)\<rparr>)"

inductive_cases caller_stepE: "caller_step t s s'"
inductive_cases drain_stepE: "drain_step w s s'"
inductive_cases sink_stepE: "sink_step s s'"
inductive_cases owner_stepE: "owner_step s s'"

section \<open>Who holds the mutex\<close>

fun registers :: "log_pc \<Rightarrow> bool" where
  "registers (Lp_register a) = True" | "registers _ = False"

fun draining :: "drain_pc \<Rightarrow> bool" where
  "draining (Dp_pop i n) = True" | "draining (Dp_write i n r) = True" | "draining _ = False"

fun summing :: "sink_pc \<Rightarrow> bool" where
  "summing (Sk_sum fin i acc) = True" | "summing _ = False"

definition mutex_ok :: "lsys \<Rightarrow> bool" where
  "mutex_ok s \<longleftrightarrow> (\<forall>t. registers (ls_pc s t) \<longleftrightarrow> ls_mutex s = Some (By_log t))
     \<and> (\<forall>w. draining (ls_drain s w) \<longleftrightarrow> ls_mutex s = Some (By_drain w))
     \<and> (summing (ls_sink s) \<longleftrightarrow> ls_mutex s = Some By_report)"

lemmas lstep_defs = at_pc_def register_ring_def take_number_def accept_def count_drop_def
  at_drain_def put_record_def at_sink_def say_drops_def Let_def set_mark_def at_owner_def set_producer_def
  write_record_def logger_start_def set_level_def

lemma registers_after_lookup [simp]: "\<not> registers (after_lookup t a s)"
  by (simp add: after_lookup_def split: option.split)

lemma summing_after_report [simp]: "\<not> summing (after_report fin)"
  by (simp add: after_report_def)

lemma mutex_ok_registers: "mutex_ok s \<Longrightarrow> registers (ls_pc s t) \<longleftrightarrow> ls_mutex s = Some (By_log t)"
  by (simp add: mutex_ok_def)

lemma mutex_ok_quiet: "mutex_ok s \<Longrightarrow> \<not> registers (ls_pc s t) \<Longrightarrow> \<not> registers q \<Longrightarrow> mutex_ok (at_pc t q s)"
  by (auto simp: mutex_ok_def at_pc_def)

lemma mutex_ok_same: "mutex_ok s \<Longrightarrow> ls_pc s' = ls_pc s \<Longrightarrow> ls_drain s' = ls_drain s \<Longrightarrow> ls_sink s' = ls_sink s \<Longrightarrow>
    ls_mutex s' = ls_mutex s \<Longrightarrow> mutex_ok s'"
  by (simp add: mutex_ok_def)

lemma caller_pcs [simp]: "ls_pc (take_number s) = ls_pc s" "ls_pc (accept p q r s) = ls_pc s" "ls_pc (count_drop p s) = ls_pc s"
  by (simp_all add: lstep_defs)

lemma mutex_ok_kept [simp]: "mutex_ok (take_number s) = mutex_ok s" "mutex_ok (accept p q r s) = mutex_ok s"
  "mutex_ok (count_drop p s) = mutex_ok s"
  by (simp_all add: mutex_ok_def lstep_defs)

lemma mutex_ok_caller:
  assumes ok: "mutex_ok s" and step: "caller_step t s s'"
  shows "mutex_ok s'"
  using step
proof (cases rule: caller_step.cases)
  case (locked a)
  then show ?thesis using ok by (auto simp: mutex_ok_def lstep_defs)
next
  case (registered a)
  then have "ls_mutex s = Some (By_log t)" using mutex_ok_registers [OF ok, of t] by simp
  with registered show ?thesis using ok by (auto simp: mutex_ok_def lstep_defs)
next
  case (elsewhere other mine)
  then show ?thesis using ok by (auto intro: mutex_ok_same)
qed (use ok in \<open>simp_all add: mutex_ok_quiet\<close>)

lemma mutex_ok_drains: "mutex_ok s \<Longrightarrow> draining (ls_drain s w) \<longleftrightarrow> ls_mutex s = Some (By_drain w)"
  by (simp add: mutex_ok_def)

lemma mutex_ok_sums: "mutex_ok s \<Longrightarrow> summing (ls_sink s) \<longleftrightarrow> ls_mutex s = Some By_report"
  by (simp add: mutex_ok_def)

lemma mutex_ok_drain: "mutex_ok s \<Longrightarrow> drain_step w s s' \<Longrightarrow> mutex_ok s'"
  by (erule drain_stepE; frule mutex_ok_drains [of _ w]) (auto simp: mutex_ok_def lstep_defs)

lemma drain_step_sink: "drain_step w s s' \<Longrightarrow> ls_sink s' = ls_sink s \<and> ls_owner s' = ls_owner s \<and> ls_stop s' = ls_stop s
  \<and> ls_mark s' = ls_mark s \<and> ls_pushed s' = ls_pushed s \<and> ls_tls s' = ls_tls s \<and> ls_pc s' = ls_pc s"
  by (erule drain_stepE) (auto simp: lstep_defs)

text \<open>The sink drains exactly while its program counter says so, and the owner in its destructor only.\<close>

definition flow_ok :: "lsys \<Rightarrow> bool" where
  "flow_ok s \<longleftrightarrow> (ls_drain s Sink \<noteq> Dp_idle \<longleftrightarrow> (\<exists>fin. ls_sink s = Sk_drain fin))
     \<and> (ls_drain s Owner \<noteq> Dp_idle \<longleftrightarrow> ls_owner s = Ow_drain)
     \<and> (ls_owner s = Ow_new \<longrightarrow> ls_sink s = Sk_off)
     \<and> (ls_owner s \<in> {Ow_down, Ow_drain, Ow_end} \<longrightarrow> ls_sink s \<in> {Sk_off, Sk_gone})
     \<and> (ls_owner s \<in> {Ow_up, Ow_join} \<longrightarrow> ls_sink s \<noteq> Sk_off)
     \<and> (ls_stop s \<longrightarrow> ls_owner s \<notin> {Ow_new, Ow_up})
     \<and> (ls_owner s = Ow_join \<longrightarrow> ls_stop s)"

lemma flow_ok_caller: "flow_ok s \<Longrightarrow> caller_step t s s' \<Longrightarrow> flow_ok s'"
  by (erule caller_stepE) (simp_all add: flow_ok_def lstep_defs)

lemma flow_ok_drain: "flow_ok s \<Longrightarrow> drain_step w s s' \<Longrightarrow> flow_ok s'"
  by (erule drain_stepE; cases w) (simp_all add: flow_ok_def lstep_defs)

lemma flow_ok_sink: "flow_ok s \<Longrightarrow> sink_step s s' \<Longrightarrow> flow_ok s'"
proof (erule sink_stepE, goal_cases)
  case 2
  then show ?case by (blast intro: flow_ok_drain)
qed (auto simp: flow_ok_def lstep_defs after_report_def)

lemma flow_ok_owner: "flow_ok s \<Longrightarrow> owner_step s s' \<Longrightarrow> flow_ok s'"
proof (erule owner_stepE, goal_cases)
  case 1
  then show ?case by (cases "ls_owner s") (simp_all add: flow_ok_def lstep_defs, auto)
next
  case 4
  then show ?case by (cases "ls_owner s") (simp_all add: flow_ok_def lstep_defs)
next
  case 5
  then show ?case by (blast intro: flow_ok_drain)
qed (simp_all add: flow_ok_def lstep_defs)

lemma mutex_ok_idle: "mutex_ok s \<Longrightarrow> \<not> draining (ls_drain s w) \<Longrightarrow> \<not> draining q \<Longrightarrow> mutex_ok (at_drain w q s)"
  by (auto simp: mutex_ok_def at_drain_def)

lemma mutex_ok_at_sink: "mutex_ok s \<Longrightarrow> \<not> summing (ls_sink s) \<Longrightarrow> \<not> summing q \<Longrightarrow> mutex_ok (at_sink q s)"
  by (auto simp: mutex_ok_def at_sink_def)

lemma mutex_ok_say: "mutex_ok s \<Longrightarrow> mutex_ok (say_drops sm s)"
  by (simp add: mutex_ok_def say_drops_def Let_def)

lemma sink_of_simps [simp]: "ls_sink (at_drain w q s) = ls_sink s" "ls_sink (say_drops sm s) = ls_sink s"
  "ls_drain (at_sink k s) = ls_drain s" "ls_drain (at_owner ow s) = ls_drain s" "ls_drain (set_mark s) = ls_drain s"
  by (simp_all add: lstep_defs)

lemma mutex_ok_sink: "mutex_ok s \<Longrightarrow> flow_ok s \<Longrightarrow> sink_step s s' \<Longrightarrow> mutex_ok s'"
proof (erule sink_stepE, goal_cases)
  case 1
  then show ?case by (simp add: mutex_ok_at_sink mutex_ok_idle flow_ok_def)
next
  case 2
  then show ?case by (blast intro: mutex_ok_drain)
next
  case (3 fin n)
  then show ?case by (simp add: mutex_ok_at_sink mutex_ok_idle)
next
  case (4 n)
  then show ?case by (simp add: mutex_ok_at_sink mutex_ok_idle)
next
  case (5 fin)
  then show ?case by (simp add: mutex_ok_def lstep_defs)
next
  case (6 fin i acc)
  then show ?case by (simp add: mutex_ok_def lstep_defs)
next
  case (7 fin i acc)
  then show ?case using mutex_ok_sums [of s] by (simp add: mutex_ok_def lstep_defs)
next
  case (8 fin acc)
  then show ?case by (simp add: mutex_ok_at_sink mutex_ok_say)
qed

lemma mutex_ok_owner_moves [simp]: "mutex_ok (at_owner ow s) = mutex_ok s" "mutex_ok (set_mark s) = mutex_ok s"
  "mutex_ok (s\<lparr>ls_stop := b\<rparr>) = mutex_ok s" "mutex_ok (s\<lparr>ls_log := lg, ls_stop := b\<rparr>) = mutex_ok s"
  "mutex_ok (s\<lparr>ls_log := lg\<rparr>) = mutex_ok s"
  by (simp_all add: mutex_ok_def lstep_defs)

lemma mutex_ok_owner: "mutex_ok s \<Longrightarrow> flow_ok s \<Longrightarrow> owner_step s s' \<Longrightarrow> mutex_ok s'"
proof (erule owner_stepE, goal_cases)
  case (1 now)
  then have "ls_sink s \<in> {Sk_off, Sk_gone}" by (auto simp: flow_ok_def)
  with 1 show ?case by (auto intro: mutex_ok_at_sink)
next
  case 4
  then have "ls_drain s Owner = Dp_idle" by (auto simp: flow_ok_def)
  with 4 show ?case by (simp add: mutex_ok_idle)
next
  case 5
  then show ?case by (blast intro: mutex_ok_drain)
qed (simp_all add: mutex_ok_idle)

section \<open>Whose ring it is\<close>

fun uses :: "log_pc \<Rightarrow> nat option" where
  "uses (Lp_number p a) = Some p" | "uses (Lp_push p r) = Some p" | "uses (Lp_drop p) = Some p" | "uses _ = None"

definition threads_ok :: "lsys \<Rightarrow> bool" where
  "threads_ok s \<longleftrightarrow> tls_ok (ls_tls s) (ls_log s)
     \<and> (\<forall>t p. uses (ls_pc s t) = Some p \<longrightarrow> ls_tls s t = Some (p, lg_id (ls_log s)))"

lemma cached_Some: "cached t s = Some p \<longleftrightarrow> ls_tls s t = Some (p, lg_id (ls_log s))"
  by (auto simp: cached_def split: option.splits)

lemma uses_after_lookup: "uses (after_lookup t a s) = cached t s"
  by (simp add: after_lookup_def split: option.split)

lemma threads_ok_log: "lg_id lg = lg_id (ls_log s) \<Longrightarrow> length (lg_producers lg) = length (rings s) \<Longrightarrow>
    threads_ok (s\<lparr>ls_log := lg\<rparr>) = threads_ok s"
  by (simp add: threads_ok_def tls_ok_def)

lemma threads_ok_caller:
  assumes "threads_ok s" and "caller_step t s s'"
  shows "threads_ok s'"
  using assms(2)
proof (cases rule: caller_step.cases)
  case (called l now cname msg kvs)
  then show ?thesis using assms(1)
    by (auto simp: threads_ok_def at_pc_def uses_after_lookup cached_Some)
next
  case (registered a)
  then show ?thesis using assms(1)
    by (auto simp: threads_ok_def tls_ok_def lstep_defs less_Suc_eq)
next
  case (elsewhere other mine)
  then show ?thesis using assms(1) by (auto simp: threads_ok_def tls_ok_def)
qed (use assms(1) in \<open>auto simp: threads_ok_def tls_ok_def lstep_defs\<close>)

text \<open>Draining, reporting and the owner leave the callers' side alone.\<close>

definition same_callers :: "lsys \<Rightarrow> lsys \<Rightarrow> bool" where
  "same_callers s s' \<longleftrightarrow> ls_pc s' = ls_pc s \<and> ls_tls s' = ls_tls s \<and> ls_pushed s' = ls_pushed s
     \<and> lg_id (ls_log s') = lg_id (ls_log s) \<and> length (rings s') = length (rings s)"

lemma drain_same_callers: "drain_step w s s' \<Longrightarrow> same_callers s s'"
  by (erule drain_stepE) (simp_all add: same_callers_def lstep_defs)

lemma sink_same_callers: "sink_step s s' \<Longrightarrow> same_callers s s'"
proof (erule sink_stepE, goal_cases)
  case 2
  then show ?case by (rule drain_same_callers)
qed (simp_all add: same_callers_def lstep_defs)

lemma owner_same_callers: "owner_step s s' \<Longrightarrow> same_callers s s'"
proof (erule owner_stepE, goal_cases)
  case 5
  then show ?case by (rule drain_same_callers)
qed (simp_all add: same_callers_def lstep_defs)

lemma threads_ok_same: "same_callers s s' \<Longrightarrow> threads_ok s' = threads_ok s"
  by (simp add: same_callers_def threads_ok_def tls_ok_def)

lemma threads_ok_index: "threads_ok s \<Longrightarrow> uses (ls_pc s t) = Some p \<Longrightarrow> p < length (rings s)"
  unfolding threads_ok_def tls_ok_def by blast

section \<open>The ledger of every ring\<close>

text \<open>Of each ring: printed, popped and not yet printed, still in the ring; together what it accepted.\<close>

fun held :: "nat \<Rightarrow> drain_pc \<Rightarrow> log_record list" where
  "held i (Dp_write j n r) = (if j = i then [r] else [])" | "held i _ = []"

primrec record_of :: "nat \<Rightarrow> line \<Rightarrow> log_record list" where
  "record_of i (Printed j r) = (if j = i then [r] else [])" | "record_of i (Drops n) = []"

definition printed_of :: "nat \<Rightarrow> lsys \<Rightarrow> log_record list" where
  "printed_of i s = concat (map (record_of i) (ls_lines s))"

definition in_ring :: "nat \<Rightarrow> lsys \<Rightarrow> log_record list" where
  "in_ring i s = (if i < length (rings s) then ring_content (p_ring (rings s ! i)) else [])"

definition in_flight :: "nat \<Rightarrow> lsys \<Rightarrow> log_record list" where
  "in_flight i s = held i (ls_drain s Sink) @ held i (ls_drain s Owner)"

definition ledger_ok :: "lsys \<Rightarrow> bool" where
  "ledger_ok s \<longleftrightarrow> (\<forall>p \<in> set (rings s). producer_ok p)
     \<and> (\<forall>i. printed_of i s @ in_flight i s @ in_ring i s = ls_pushed s i)
     \<and> (\<forall>w i n r. ls_drain s w = Dp_write i n r \<longrightarrow> i < length (rings s))"

lemmas ledger_defs = ledger_ok_def printed_of_def in_ring_def in_flight_def

lemma ledger_okD: "ledger_ok s \<Longrightarrow> i < length (rings s) \<Longrightarrow> producer_ok (rings s ! i)"
  by (simp add: ledger_ok_def)

lemma push_into_producer:
  assumes "producer_ok p" and "try_push r (p_ring p) = (b, q)"
  shows "producer_ok (p\<lparr>p_ring := q\<rparr>) \<and> ring_content q = ring_content (p_ring p) @ (if b then [r] else [])
    \<and> (b \<longleftrightarrow> length (ring_content (p_ring p)) < kRingCapacity)"
proof -
  have ok: "ring_ok (p_ring p)" and cap: "capacity (p_ring p) = kRingCapacity"
    using assms(1) by (auto simp: producer_ok_def)
  show ?thesis
  proof (cases "length (ring_content (p_ring p)) < kRingCapacity")
    case True
    with ring.push_room [OF ok, of r] ring.push_ok [OF ok, of r] cap assms(2) show ?thesis
      by (auto simp: producer_ok_def)
  next
    case False
    then have "try_push r (p_ring p) = (False, p_ring p)"
      using ring.push_full [OF ok, of r] cap by simp
    with False assms show ?thesis by (auto simp: producer_ok_def)
  qed
qed

lemma pop_from_producer:
  assumes "producer_ok p" and "try_pop (p_ring p) = (x, q)"
  shows "producer_ok (p\<lparr>p_ring := q\<rparr>) \<and> ring_content (p_ring p) = (case x of None \<Rightarrow> [] | Some r \<Rightarrow> r # ring_content q)
    \<and> (x = None \<longrightarrow> q = p_ring p)"
proof (cases "ring_content (p_ring p)")
  case Nil
  then show ?thesis using assms by (auto simp: try_pop_empty producer_ok_def)
next
  case (Cons y ys)
  then show ?thesis using assms try_pop_some [OF _ Cons] by (auto simp: producer_ok_def)
qed

lemma producers_update: "x \<in> set (ps[i := q]) \<Longrightarrow> \<forall>p \<in> set ps. producer_ok p \<Longrightarrow> producer_ok q \<Longrightarrow> producer_ok x"
  by (metis in_set_conv_nth length_list_update nth_list_update_eq nth_list_update_neq)

lemma ledger_ok_all: "ledger_ok s \<Longrightarrow> \<forall>p \<in> set (rings s). producer_ok p"
  by (simp add: ledger_ok_def)

lemma ring_of_set_producer [simp]: "p < length (rings s) \<Longrightarrow>
    in_ring i (s\<lparr>ls_log := set_producer p x (ls_log s)\<rparr>) = (if i = p then ring_content (p_ring x) else in_ring i s)"
  by (simp add: in_ring_def set_producer_def)

lemma ring_content_new_producer [simp]: "ring_content (p_ring new_producer) = []"
  by (simp add: new_producer_def)

lemma ledger_ok_callerI:
  assumes "ledger_ok s" and "ls_drain s' = ls_drain s" and "ls_lines s' = ls_lines s"
    and "length (rings s) \<le> length (rings s')" and "\<forall>p \<in> set (rings s'). producer_ok p"
    and "\<And>i. ls_pushed s' i = ls_pushed s i @ new i \<and> in_ring i s' = in_ring i s @ new i"
  shows "ledger_ok s'"
  unfolding ledger_ok_def
proof (intro conjI allI impI)
  fix i
  have "printed_of i s' = printed_of i s" "in_flight i s' = in_flight i s"
    using assms(2,3) by (simp_all add: printed_of_def in_flight_def)
  moreover have "printed_of i s @ in_flight i s @ in_ring i s = ls_pushed s i"
    using assms(1) by (simp add: ledger_ok_def)
  ultimately show "printed_of i s' @ in_flight i s' @ in_ring i s' = ls_pushed s' i"
    using assms(6) [of i] by (metis append.assoc)
next
  fix w i n r
  assume "ls_drain s' w = Dp_write i n r"
  then show "i < length (rings s')" using assms(1,2,4) unfolding ledger_ok_def by (metis less_le_trans)
qed (use assms(5) in auto)

lemma ledger_ok_caller:
  assumes ok: "ledger_ok s" and own: "threads_ok s" and step: "caller_step t s s'"
  shows "ledger_ok s'"
  using step
proof (cases rule: caller_step.cases)
  case (registered a)
  show ?thesis
    by (rule ledger_ok_callerI [OF ok, where new = "\<lambda>i. []"])
      (use registered ok in \<open>auto simp: lstep_defs in_ring_def nth_append new_producer_ok ledger_ok_def less_Suc_eq\<close>)
next
  case (accepted p r q)
  then have p: "p < length (rings s)" by (simp add: threads_ok_index [OF own, of t])
  note push = push_into_producer [OF ledger_okD [OF ok p] accepted(3)]
  show ?thesis
    by (rule ledger_ok_callerI [OF ok, where new = "\<lambda>i. if i = p then [r] else []"])
      (use accepted ok p push in \<open>auto simp: lstep_defs in_ring_def ledger_ok_def intro: producers_update\<close>)
next
  case (counted p)
  then have p: "p < length (rings s)" by (simp add: threads_ok_index [OF own, of t])
  have "producer_ok ((rings s ! p)\<lparr>p_dropped := d\<rparr>)" for d using ledger_okD [OF ok p] by (simp add: producer_ok_def)
  then show ?thesis
    by (intro ledger_ok_callerI [OF ok, where new = "\<lambda>i. []"])
      (use counted ok p in \<open>auto simp: lstep_defs in_ring_def ledger_ok_def nth_list_update intro: producers_update\<close>)
qed (rule ledger_ok_callerI [OF ok, where new = "\<lambda>i. []"]; use ok in \<open>auto simp: lstep_defs in_ring_def ledger_ok_def\<close>)+

lemma in_flight_draining:
  assumes "mutex_ok s" and "draining (ls_drain s w)"
  shows "in_flight i s = held i (ls_drain s w)"
proof -
  have "held i (ls_drain s v) = []" if "v \<noteq> w" for v
    using assms that mutex_ok_drains [OF assms(1), of w] mutex_ok_drains [OF assms(1), of v]
    by (cases "ls_drain s v") auto
  then show ?thesis by (cases w) (simp_all add: in_flight_def)
qed

lemma in_flight_at_drain:
  assumes "mutex_ok s" and "draining (ls_drain s w)" and "ls_drain s' = (ls_drain s)(w := q)"
  shows "in_flight i s' = held i q"
proof -
  have "held i (ls_drain s v) = []" if "v \<noteq> w" for v
    using assms that mutex_ok_drains [OF assms(1), of w] mutex_ok_drains [OF assms(1), of v]
    by (cases "ls_drain s v") auto
  then show ?thesis using assms(3) by (cases w) (simp_all add: in_flight_def)
qed

lemma ledger_ok_drainI:
  assumes ok: "ledger_ok s" and "ls_pushed s' = ls_pushed s" and "length (rings s') = length (rings s)"
    and "\<forall>p \<in> set (rings s'). producer_ok p"
    and "\<And>i. printed_of i s' @ in_flight i s' @ in_ring i s' = printed_of i s @ in_flight i s @ in_ring i s"
    and "\<And>v i n r. ls_drain s' v = Dp_write i n r \<Longrightarrow> ls_drain s v \<noteq> Dp_write i n r \<Longrightarrow> i < length (rings s)"
  shows "ledger_ok s'"
  using assms unfolding ledger_ok_def by metis

lemma ledger_ok_quiet: "ledger_ok s \<Longrightarrow> ls_pushed s' = ls_pushed s \<Longrightarrow> rings s' = rings s \<Longrightarrow>
    (\<And>i. printed_of i s' = printed_of i s) \<Longrightarrow> (\<And>i v. held i (ls_drain s' v) = held i (ls_drain s v)) \<Longrightarrow>
    (\<And>v i n r. ls_drain s' v = Dp_write i n r \<Longrightarrow> ls_drain s v = Dp_write i n r) \<Longrightarrow> ledger_ok s'"
  unfolding ledger_ok_def in_flight_def in_ring_def by metis

lemma ledger_ok_drain:
  assumes ok: "ledger_ok s" and mx: "mutex_ok s" and step: "drain_step w s s'"
  shows "ledger_ok s'"
  using step
proof (cases rule: drain_step.cases)
  case enters
  then show ?thesis
    by (intro ledger_ok_quiet [OF ok]) (auto simp: lstep_defs printed_of_def split: if_splits)
next
  case (popped i n r q)
  then have d: "draining (ls_drain s w)" by simp
  note pop = pop_from_producer [OF ledger_okD [OF ok popped(3)] popped(4)]
  have "in_flight j s' = (if i = j then [r] else [])" for j
    using in_flight_at_drain [OF mx d, of s' "Dp_write i n r"] popped(1) by (simp add: lstep_defs)
  moreover have "in_flight j s = []" for j using in_flight_draining [OF mx d] popped(2) by simp
  ultimately show ?thesis
    by (intro ledger_ok_drainI [OF ok])
      (use ledger_ok_all [OF ok] popped pop in \<open>auto simp: lstep_defs printed_of_def in_ring_def intro: producers_update split: if_splits\<close>)
next
  case (written i n r)
  then have d: "draining (ls_drain s w)" by simp
  have "in_flight j s' = []" for j
    using in_flight_at_drain [OF mx d, of s' "Dp_pop i (n + 1)"] written(1) by (simp add: lstep_defs)
  moreover have "in_flight j s = (if i = j then [r] else [])" for j using in_flight_draining [OF mx d] written(2) by simp
  ultimately show ?thesis
    by (intro ledger_ok_drainI [OF ok])
      (use ledger_ok_all [OF ok] written in \<open>auto simp: lstep_defs printed_of_def in_ring_def split: if_splits\<close>)
next
  case (empty i n q)
  then show ?thesis
    by (intro ledger_ok_quiet [OF ok]) (auto simp: lstep_defs printed_of_def split: if_splits)
next
  case (leaves i n)
  then show ?thesis
    by (intro ledger_ok_quiet [OF ok]) (auto simp: lstep_defs printed_of_def split: if_splits)
qed

lemma ledger_ok_sink:
  assumes ok: "ledger_ok s" and mx: "mutex_ok s" and fl: "flow_ok s" and step: "sink_step s s'"
  shows "ledger_ok s'"
  using step
proof (cases rule: sink_step.cases)
  case turns
  then have "ls_drain s Sink = Dp_idle" using fl by (auto simp: flow_ok_def)
  with turns show ?thesis
    by (intro ledger_ok_quiet [OF ok]) (auto simp: lstep_defs printed_of_def split: if_splits)
next
  case drains
  then show ?thesis by (rule ledger_ok_drain [OF ok mx])
qed (rule ledger_ok_quiet [OF ok]; auto simp: lstep_defs printed_of_def split: if_splits)+

lemma ledger_ok_owner:
  assumes ok: "ledger_ok s" and mx: "mutex_ok s" and fl: "flow_ok s" and step: "owner_step s s'"
  shows "ledger_ok s'"
  using step
proof (cases rule: owner_step.cases)
  case destroys
  then have "ls_drain s Owner = Dp_idle" using fl by (auto simp: flow_ok_def)
  with destroys show ?thesis
    by (intro ledger_ok_quiet [OF ok]) (auto simp: lstep_defs printed_of_def split: if_splits)
next
  case flushes
  then show ?thesis by (rule ledger_ok_drain [OF ok mx])
qed (rule ledger_ok_quiet [OF ok]; auto simp: lstep_defs printed_of_def split: if_splits)+

section \<open>The output\<close>

primrec drops_in :: "line \<Rightarrow> u64" where
  "drops_in (Printed i r) = 0" | "drops_in (Drops n) = n"

primrec is_record :: "line \<Rightarrow> bool" where
  "is_record (Printed i r) = True" | "is_record (Drops n) = False"

definition text_ok :: "lsys \<Rightarrow> bool" where
  "text_ok s \<longleftrightarrow> lg_out (ls_log s) = concat (map line_text (ls_lines s))
     \<and> lg_written (ls_log s) = of_nat (length (filter is_record (ls_lines s)))
     \<and> lg_reported (ls_log s) = sum_list (map drops_in (ls_lines s))"

lemma text_ok_drain: "text_ok s \<Longrightarrow> drain_step w s s' \<Longrightarrow> text_ok s'"
  by (erule drain_stepE) (simp_all add: text_ok_def lstep_defs)

lemma text_ok_caller: "text_ok s \<Longrightarrow> caller_step t s s' \<Longrightarrow> text_ok s'"
  by (erule caller_stepE) (simp_all add: text_ok_def lstep_defs)

lemma text_ok_sink: "text_ok s \<Longrightarrow> sink_step s s' \<Longrightarrow> text_ok s'"
proof (erule sink_stepE, goal_cases)
  case 2
  then show ?case by (rule text_ok_drain)
qed (simp_all add: text_ok_def lstep_defs)

lemma text_ok_owner: "text_ok s \<Longrightarrow> owner_step s s' \<Longrightarrow> text_ok s'"
proof (erule owner_stepE, goal_cases)
  case 5
  then show ?case by (rule text_ok_drain)
qed (simp_all add: text_ok_def lstep_defs)

section \<open>What a stop has printed\<close>

definition flushed_below :: "nat \<Rightarrow> lsys \<Rightarrow> bool" where
  "flushed_below k s \<longleftrightarrow> (\<forall>i < k. ls_mark s i \<le> length (printed_of i s))"

definition flushed :: "lsys \<Rightarrow> bool" where
  "flushed s \<longleftrightarrow> (\<forall>i. ls_mark s i \<le> length (printed_of i s))"

fun covered :: "drain_pc \<Rightarrow> lsys \<Rightarrow> bool" where
  "covered (Dp_pop i n) s = flushed_below i s"
| "covered (Dp_write i n r) s = flushed_below i s"
| "covered (Dp_done n) s = flushed s"
| "covered _ s = True"

fun past_drain :: "sink_pc \<Rightarrow> bool" where
  "past_drain (Sk_report fin) = fin"
| "past_drain (Sk_sum fin i acc) = fin"
| "past_drain (Sk_say fin acc) = fin"
| "past_drain Sk_gone = True"
| "past_drain _ = False"

definition marks_ok :: "lsys \<Rightarrow> bool" where
  "marks_ok s \<longleftrightarrow> (\<forall>i. ls_mark s i \<le> length (ls_pushed s i))
     \<and> (ls_owner s \<in> {Ow_new, Ow_up} \<longrightarrow> \<not> past_drain (ls_sink s) \<and> ls_sink s \<noteq> Sk_drain True)
     \<and> (ls_owner s = Ow_join \<and> ls_sink s = Sk_drain True \<longrightarrow> covered (ls_drain s Sink) s)
     \<and> (ls_owner s = Ow_join \<and> past_drain (ls_sink s) \<longrightarrow> flushed s)
     \<and> (ls_owner s = Ow_drain \<longrightarrow> covered (ls_drain s Owner) s)
     \<and> (ls_owner s \<in> {Ow_down, Ow_end} \<longrightarrow> flushed s)"

lemma flushed_grows: "flushed s \<Longrightarrow> ls_mark s' = ls_mark s \<Longrightarrow> ls_lines s' = ls_lines s @ new \<Longrightarrow> flushed s'"
  by (simp add: flushed_def printed_of_def trans_le_add1)

lemma covered_grows: "covered q s \<Longrightarrow> ls_mark s' = ls_mark s \<Longrightarrow> ls_lines s' = ls_lines s @ new \<Longrightarrow> covered q s'"
  by (cases q) (simp_all add: flushed_below_def flushed_def printed_of_def trans_le_add1)

lemma printed_all:
  assumes "ledger_ok s" and "mutex_ok s" and "ls_drain s w = Dp_pop k n" and "in_ring i s = []"
  shows "printed_of i s = ls_pushed s i"
proof -
  have "in_flight i s = []" using in_flight_draining [OF assms(2), of w i] assms(3) by simp
  moreover have "printed_of i s @ in_flight i s @ in_ring i s = ls_pushed s i"
    using assms(1) by (simp add: ledger_ok_def)
  ultimately show ?thesis using assms(4) by simp
qed

lemma drain_lines: "drain_step w s s' \<Longrightarrow> \<exists>new. ls_lines s' = ls_lines s @ new"
  by (erule drain_stepE) (auto simp: lstep_defs)

lemma sink_lines: "sink_step s s' \<Longrightarrow> \<exists>new. ls_lines s' = ls_lines s @ new"
proof (erule sink_stepE, goal_cases)
  case 2
  then show ?case by (rule drain_lines)
qed (auto simp: lstep_defs)

lemma covered_drain:
  assumes ok: "ledger_ok s" and mx: "mutex_ok s" and le: "\<And>i. ls_mark s i \<le> length (ls_pushed s i)"
    and cov: "covered (ls_drain s w) s" and step: "drain_step w s s'"
  shows "covered (ls_drain s' w) s'"
  using step
proof (cases rule: drain_step.cases)
  case enters
  then show ?thesis by (simp add: lstep_defs flushed_below_def)
next
  case (popped i n r q)
  then show ?thesis using cov by (simp add: lstep_defs flushed_below_def printed_of_def)
next
  case (written i n r)
  then show ?thesis using cov by (simp add: lstep_defs flushed_below_def printed_of_def trans_le_add1)
next
  case (empty i n q)
  have "in_ring i s = []"
    using pop_from_producer [OF ledger_okD [OF ok empty(3)] empty(4)] empty(3) by (simp add: in_ring_def)
  then have "ls_mark s i \<le> length (printed_of i s)" using printed_all [OF ok mx empty(2)] le [of i] by simp
  then show ?thesis using cov empty by (simp add: lstep_defs flushed_below_def printed_of_def less_Suc_eq)
next
  case (leaves i n)
  have "ls_mark s j \<le> length (printed_of j s)" for j
  proof (cases "j < i")
    case True
    then show ?thesis using cov leaves(2) by (simp add: flushed_below_def)
  next
    case False
    then have "in_ring j s = []" using leaves(3) by (simp add: in_ring_def)
    then show ?thesis using printed_all [OF ok mx leaves(2)] le [of j] by simp
  qed
  then show ?thesis using leaves(1) by (simp add: lstep_defs flushed_def printed_of_def)
qed

lemma marks_ok_caller:
  assumes "marks_ok s" and "caller_step t s s'"
  shows "marks_ok s'"
proof -
  have "ls_mark s' = ls_mark s \<and> ls_lines s' = ls_lines s @ [] \<and> ls_owner s' = ls_owner s \<and> ls_sink s' = ls_sink s
      \<and> ls_drain s' = ls_drain s \<and> (\<forall>i. length (ls_pushed s i) \<le> length (ls_pushed s' i))"
    using assms(2) by (cases rule: caller_step.cases) (simp_all add: lstep_defs)
  then show ?thesis
    using assms(1) covered_grows [of _ s s' "[]"] flushed_grows [of s s' "[]"] unfolding marks_ok_def
    by (metis le_trans)
qed

lemma drain_step_busy: "drain_step w s s' \<Longrightarrow> ls_drain s w \<noteq> Dp_idle"
  by (erule drain_stepE) simp_all

lemma drain_step_rest: "drain_step w s s' \<Longrightarrow> ls_sink s' = ls_sink s \<and> ls_owner s' = ls_owner s
    \<and> ls_mark s' = ls_mark s \<and> ls_pushed s' = ls_pushed s \<and> (\<forall>v. v \<noteq> w \<longrightarrow> ls_drain s' v = ls_drain s v)"
  by (erule drain_stepE) (simp_all add: lstep_defs)

lemma marks_ok_drain:
  assumes ok: "marks_ok s" and led: "ledger_ok s" and mx: "mutex_ok s" and fl: "flow_ok s" and step: "drain_step w s s'"
  shows "marks_ok s'"
proof -
  obtain new where new: "ls_lines s' = ls_lines s @ new" using drain_lines [OF step] by blast
  note rest = drain_step_rest [OF step]
  have le: "ls_mark s i \<le> length (ls_pushed s i)" for i using ok by (simp add: marks_ok_def)
  note cov = covered_drain [OF led mx le _ step]
  have own: "ls_owner s = Ow_drain" if "w = Owner" using drain_step_busy [OF step] fl that by (simp add: flow_ok_def)
  have snk: "\<exists>fin. ls_sink s = Sk_drain fin" if "w = Sink"
    using drain_step_busy [OF step] fl that by (simp add: flow_ok_def)
  have more: "flushed s \<Longrightarrow> flushed s'" using rest new by (auto intro: flushed_grows)
  show ?thesis
  proof (cases w)
    case Sink
    with snk fl have "ls_owner s \<in> {Ow_up, Ow_join}" by (cases "ls_owner s") (auto simp: flow_ok_def)
    then show ?thesis using Sink rest ok cov more by (auto simp: marks_ok_def)
  next
    case Owner
    then show ?thesis using own rest ok cov by (auto simp: marks_ok_def)
  qed
qed

lemma marks_ok_sink:
  assumes ok: "marks_ok s" and led: "ledger_ok s" and mx: "mutex_ok s" and fl: "flow_ok s" and step: "sink_step s s'"
  shows "marks_ok s'"
proof (cases "\<exists>w. drain_step w s s'")
  case True
  then show ?thesis using marks_ok_drain [OF ok led mx fl] by blast
next
  case False
  obtain new where new: "ls_lines s' = ls_lines s @ new" using sink_lines [OF step] by blast
  have "ls_sink s \<notin> {Sk_off, Sk_gone}" using step False by (cases rule: sink_step.cases) auto
  then have own: "ls_owner s = Ow_up \<and> \<not> ls_stop s \<or> ls_owner s = Ow_join"
    using fl by (cases "ls_owner s") (simp_all add: flow_ok_def)
  have more: "ls_mark s' = ls_mark s \<Longrightarrow> flushed s \<Longrightarrow> flushed s'" using new by (auto intro: flushed_grows)
  show ?thesis
    using step
  proof (cases rule: sink_step.cases)
    case turns
    then show ?thesis using ok own by (auto simp: marks_ok_def lstep_defs)
  next
    case drains
    then show ?thesis using False by blast
  next
    case (says fin acc)
    then have "flushed s'" if "flushed s" using more that by (simp add: lstep_defs)
    then show ?thesis using says ok own by (auto simp: marks_ok_def lstep_defs after_report_def)
  qed (use ok own more in \<open>auto simp: marks_ok_def lstep_defs\<close>)
qed

lemma marks_ok_owner:
  assumes ok: "marks_ok s" and led: "ledger_ok s" and mx: "mutex_ok s" and fl: "flow_ok s" and step: "owner_step s s'"
  shows "marks_ok s'"
  using step
proof (cases rule: owner_step.cases)
  case (starts now)
  then show ?thesis using ok by (auto simp: marks_ok_def lstep_defs)
next
  case asks
  then show ?thesis using ok fl by (auto simp: marks_ok_def lstep_defs flow_ok_def)
next
  case joins
  then have "flushed s" using ok by (simp add: marks_ok_def)
  then have "flushed s'" using joins(1) by (auto intro: flushed_grows [of s _ "[]"] simp: lstep_defs)
  then show ?thesis using joins ok by (simp add: marks_ok_def lstep_defs)
next
  case destroys
  then show ?thesis using ok by (auto simp: marks_ok_def lstep_defs)
next
  case flushes
  then show ?thesis by (rule marks_ok_drain [OF ok led mx fl])
next
  case (destroyed n)
  then have "flushed s" using ok by (simp add: marks_ok_def)
  then have "flushed s'" using destroyed(1) by (auto intro: flushed_grows [of s _ "[]"] simp: lstep_defs)
  then show ?thesis using destroyed ok by (simp add: marks_ok_def lstep_defs)
qed

section \<open>Every reachable state\<close>

definition fresh_id :: "tls \<Rightarrow> u64 \<Rightarrow> bool" where
  "fresh_id c ident \<longleftrightarrow> (\<forall>t p. c t \<noteq> Some (p, ident))"

definition lsys_ok :: "lsys \<Rightarrow> bool" where
  "lsys_ok s \<longleftrightarrow> mutex_ok s \<and> flow_ok s \<and> threads_ok s \<and> ledger_ok s \<and> text_ok s \<and> marks_ok s"

lemma lsys_ok_init: "fresh_id c ident \<Longrightarrow> lsys_ok (lsys_init ident c)"
  by (simp add: lsys_ok_def lsys_init_def logger_ctor_def mutex_ok_def flow_ok_def threads_ok_def tls_ok_def fresh_id_def
      ledger_defs text_ok_def marks_ok_def)

lemma lsys_ok_level: "lsys_ok s \<Longrightarrow> lsys_ok (s\<lparr>ls_log := set_level l (ls_log s)\<rparr>)"
proof -
  let ?s = "s\<lparr>ls_log := set_level l (ls_log s)\<rparr>"
  assume ok: "lsys_ok s"
  have "same_callers s ?s" by (simp add: same_callers_def set_level_def)
  moreover have "covered q s \<Longrightarrow> covered q ?s" for q by (rule covered_grows [where new = "[]"]) simp_all
  moreover have "flushed s \<Longrightarrow> flushed ?s" by (rule flushed_grows [where new = "[]"]) simp_all
  moreover have "ledger_ok ?s = ledger_ok s" "flow_ok ?s = flow_ok s" "text_ok ?s = text_ok s"
    by (simp_all add: ledger_defs flow_ok_def text_ok_def set_level_def)
  ultimately show ?thesis using ok by (simp add: lsys_ok_def threads_ok_same marks_ok_def)
qed

lemma lsys_ok_sink: "lsys_ok s \<Longrightarrow> sink_step s s' \<Longrightarrow> lsys_ok s'"
  by (auto simp: lsys_ok_def threads_ok_same [OF sink_same_callers]
      intro: mutex_ok_sink flow_ok_sink ledger_ok_sink text_ok_sink marks_ok_sink)

lemma lsys_reach_ok: "lsys_reach ident c s \<Longrightarrow> fresh_id c ident \<Longrightarrow> lsys_ok s"
proof (induction rule: lsys_reach.induct)
  case created
  then show ?case by (rule lsys_ok_init)
next
  case (by_caller s t s')
  moreover have "flow_ok s'" using by_caller by (auto simp: lsys_ok_def intro: flow_ok_caller)
  ultimately show ?case
    by (auto simp: lsys_ok_def intro: mutex_ok_caller threads_ok_caller ledger_ok_caller text_ok_caller marks_ok_caller)
next
  case (by_sink s s')
  then show ?case by (auto intro: lsys_ok_sink)
next
  case (by_owner s s')
  then show ?case
    by (auto simp: lsys_ok_def threads_ok_same [OF owner_same_callers]
        intro: mutex_ok_owner flow_ok_owner ledger_ok_owner text_ok_owner marks_ok_owner)
next
  case (by_level s l)
  then show ?case by (auto intro: lsys_ok_level)
qed

end
