(* ===== verification/Logger_Sink.thy ===== *)
theory Logger_Sink
  imports Logger_Threads
begin

text \<open>
  What holds of the logger's threads in every interleaving: the rings and the vector are used as they
  ask to be, every ring's records are printed once and in order, a stop prints what it found, the sink
  ends, and the one thing it does not do under overload.
\<close>

section \<open>What every interleaving keeps\<close>

text \<open>
  C9. What the rings and the vector of rings rely on, in every interleaving of any number of logging
  threads, the sink and the owner: a ring is pushed to by one thread only, which is inside the vector;
  one thread at a time pops; and while a ring is registered nobody walks over the rings, so the vector
  does not move under a reader.
\<close>

theorem logger_threads_apart:
  assumes "lsys_reach ident c s" and "fresh_id c ident"
  shows "(\<forall>t u p. uses (ls_pc s t) = Some p \<and> uses (ls_pc s u) = Some p \<longrightarrow> t = u)
    \<and> (\<forall>t p. uses (ls_pc s t) = Some p \<longrightarrow> p < length (rings s))
    \<and> (\<forall>w v. draining (ls_drain s w) \<and> draining (ls_drain s v) \<longrightarrow> w = v)
    \<and> (\<forall>t. registers (ls_pc s t) \<longrightarrow>
         (\<forall>w. \<not> draining (ls_drain s w)) \<and> \<not> summing (ls_sink s) \<and> (\<forall>u. registers (ls_pc s u) \<longrightarrow> u = t))"
proof -
  from lsys_reach_ok [OF assms] have mx: "mutex_ok s" and own: "threads_ok s" by (simp_all add: lsys_ok_def)
  have "t = u" if "uses (ls_pc s t) = Some p" "uses (ls_pc s u) = Some p" for t u p
    using own that unfolding threads_ok_def tls_ok_def by blast
  then show ?thesis using mx threads_ok_index [OF own] by (auto simp: mutex_ok_def)
qed

text \<open>
  C11. The order of records with threads: of every ring, what is printed, what the drain holds and what is
  still in the ring is, in this order, what the ring accepted, so nothing is lost, repeated or
  reordered; the output is the printed lines one after the other, \<^verbatim>\<open>written\<close> counts the records
  among them and the reported drops add up to what has been reported.
\<close>

theorem logger_threads_order:
  assumes "lsys_reach ident c s" and "fresh_id c ident"
  shows "printed_of i s @ in_flight i s @ in_ring i s = ls_pushed s i
    \<and> lg_out (ls_log s) = concat (map line_text (ls_lines s))
    \<and> lg_written (ls_log s) = of_nat (length (filter is_record (ls_lines s)))
    \<and> lg_reported (ls_log s) = sum_list (map drops_in (ls_lines s))"
  using lsys_reach_ok [OF assms] by (simp add: lsys_ok_def ledger_ok_def text_ok_def)

text \<open>
  C10. When \<^verbatim>\<open>stop\<close> has returned, everything the rings had accepted when it was called is printed,
  whatever the other threads log meanwhile; the same of the destructor.
\<close>

theorem logger_threads_stop:
  assumes "lsys_reach ident c s" and "fresh_id c ident" and "ls_owner s \<in> {Ow_down, Ow_end}"
  shows "\<exists>more. printed_of i s = take (ls_mark s i) (ls_pushed s i) @ more"
proof -
  from lsys_reach_ok [OF assms(1,2)] have "printed_of i s @ in_flight i s @ in_ring i s = ls_pushed s i"
    and "flushed s" using assms(3) by (auto simp: lsys_ok_def ledger_ok_def marks_ok_def)
  then have "ls_mark s i \<le> length (printed_of i s)"
    and "take (ls_mark s i) (ls_pushed s i) = take (ls_mark s i) (printed_of i s @ in_flight i s @ in_ring i s)"
    by (simp_all add: flushed_def)
  then have "printed_of i s = take (ls_mark s i) (ls_pushed s i) @ drop (ls_mark s i) (printed_of i s)" by simp
  then show ?thesis ..
qed

section \<open>The sink ends\<close>

definition work_left :: "lsys \<Rightarrow> nat" where
  "work_left s = sum_list (map pending (rings s))"

fun drain_work :: "drain_pc \<Rightarrow> lsys \<Rightarrow> nat" where
  "drain_work Dp_wait s = 2 * work_left s + length (rings s) + 2"
| "drain_work (Dp_pop i n) s = 2 * work_left s + (length (rings s) - i) + 1"
| "drain_work (Dp_write i n r) s = 2 * work_left s + (length (rings s) - i) + 2"
| "drain_work _ s = 0"

definition turn_work :: "lsys \<Rightarrow> nat" where
  "turn_work s = 2 * work_left s + 2 * length (rings s) + 8"

fun sink_work :: "sink_pc \<Rightarrow> lsys \<Rightarrow> nat" where
  "sink_work Sk_top s = turn_work s"
| "sink_work (Sk_drain fin) s = drain_work (ls_drain s Sink) s + length (rings s) + 4 + (if fin then 0 else turn_work s)"
| "sink_work (Sk_report fin) s = length (rings s) + 3 + (if fin then 0 else turn_work s)"
| "sink_work (Sk_sum fin i acc) s = length (rings s) - i + 2 + (if fin then 0 else turn_work s)"
| "sink_work (Sk_say fin acc) s = 1 + (if fin then 0 else turn_work s)"
| "sink_work _ s = 0"

lemma work_left_update: "i < length ps \<Longrightarrow> sum_list (map pending (ps[i := p])) + pending (ps ! i) = sum_list (map pending ps) + pending p"
  by (induction ps arbitrary: i) (auto split: nat.splits)

lemma drain_work_less:
  assumes "ledger_ok s" and "drain_step w s s'"
  shows "drain_work (ls_drain s' w) s' < drain_work (ls_drain s w) s \<and> turn_work s' \<le> turn_work s
    \<and> length (rings s') = length (rings s)"
  using assms(2)
proof (cases rule: drain_step.cases)
  case (popped i n r q)
  have "pending (rings s ! i) = Suc (pending ((rings s ! i)\<lparr>p_ring := q\<rparr>))"
    using pop_from_producer [OF ledger_okD [OF assms(1) popped(3)] popped(4)] by (simp add: pending_def)
  then have "work_left s = Suc (work_left s')"
    using work_left_update [OF popped(3), of "(rings s ! i)\<lparr>p_ring := q\<rparr>"] popped(1)
    by (simp add: work_left_def lstep_defs)
  then show ?thesis using popped by (simp add: lstep_defs turn_work_def)
qed (simp_all add: lstep_defs turn_work_def work_left_def)

lemma sink_work_less:
  assumes "ledger_ok s" and "flow_ok s" and "ls_stop s" and "sink_step s s'"
  shows "sink_work (ls_sink s') s' < sink_work (ls_sink s) s \<and> ls_stop s'"
  using assms(4)
proof (cases rule: sink_step.cases)
  case drains
  note less = drain_work_less [OF assms(1) drains]
  from drain_step_busy [OF drains] assms(2) obtain fin where "ls_sink s = Sk_drain fin" by (auto simp: flow_ok_def)
  moreover have "ls_sink s' = ls_sink s" "ls_stop s' = ls_stop s" using drain_step_sink [OF drains] by simp_all
  ultimately show ?thesis using less assms(3) by auto
next
  case (adds fin i acc)
  let ?rest = "if fin then 0 else turn_work s"
  have "sink_work (ls_sink s) s = length (rings s) - i + 2 + ?rest" using adds(2) by simp
  moreover have "sink_work (ls_sink s') s' = length (rings s) - (i + 1) + 2 + ?rest"
    using adds(1) by (simp add: at_sink_def turn_work_def work_left_def)
  ultimately show ?thesis using adds(1,3) assms(3) by (simp add: at_sink_def)
qed (use assms(3) in \<open>simp_all add: lstep_defs turn_work_def work_left_def after_report_def\<close>)

lemma sink_moves:
  assumes ok: "lsys_ok s" and own: "ls_owner s = Ow_join" and free: "\<forall>t. \<not> registers (ls_pc s t)"
    and live: "ls_sink s \<noteq> Sk_gone"
  shows "\<exists>s'. sink_step s s'"
proof -
  from ok have mx: "mutex_ok s" and fl: "flow_ok s" by (simp_all add: lsys_ok_def)
  have idle: "ls_drain s Owner = Dp_idle" using fl own by (auto simp: flow_ok_def)
  have held: "ls_mutex s \<in> {None, Some (By_drain Sink), Some By_report}"
  proof (cases "ls_mutex s")
    case (Some h)
    then show ?thesis
    proof (cases h)
      case (By_drain w)
      then show ?thesis using Some mutex_ok_drains [OF mx, of Owner] idle by (cases w) auto
    qed (use Some mutex_ok_registers [OF mx] free in auto)
  qed simp
  show ?thesis
  proof (cases "ls_sink s")
    case Sk_off
    then show ?thesis using fl own by (simp add: flow_ok_def)
  next
    case (Sk_drain fin)
    then have busy: "ls_drain s Sink \<noteq> Dp_idle" using fl by (auto simp: flow_ok_def)
    have nosum: "ls_mutex s \<noteq> Some By_report" using mutex_ok_sums [OF mx] Sk_drain by simp
    show ?thesis
    proof (cases "ls_drain s Sink")
      case Dp_wait
      then have "ls_mutex s = None" using held nosum mutex_ok_drains [OF mx, of Sink] by auto
      then show ?thesis using Dp_wait by (blast intro: drains enters)
    next
      case (Dp_pop i n)
      then show ?thesis
        by (cases "i < length (rings s)"; cases "try_pop (p_ring (rings s ! i))"; cases "fst (try_pop (p_ring (rings s ! i)))")
          (auto intro: drains popped empty leaves)
    qed (use busy Sk_drain in \<open>blast intro: drains written due\<close>)+
  next
    case (Sk_report fin)
    then have "ls_mutex s = None"
      using held mutex_ok_sums [OF mx] mutex_ok_drains [OF mx, of Sink] fl by (auto simp: flow_ok_def)
    then show ?thesis using Sk_report by (blast intro: adds_up)
  next
    case (Sk_sum fin i acc)
    then show ?thesis by (cases "i < length (rings s)") (blast intro: adds added)+
  qed (use live in \<open>blast intro: turns says\<close>)+
qed

lemma sink_owner: "sink_step s s' \<Longrightarrow> ls_owner s' = ls_owner s \<and> ls_pc s' = ls_pc s"
proof (erule sink_stepE, goal_cases)
  case 2
  then show ?case by (auto dest: drain_step_sink)
qed (simp_all add: lstep_defs)

lemma sink_run_bounded: "(sink_step ^^ n) s s' \<Longrightarrow> lsys_ok s \<Longrightarrow> ls_stop s \<Longrightarrow> n \<le> sink_work (ls_sink s) s"
proof (induction n arbitrary: s)
  case (Suc n)
  then obtain m where m: "sink_step s m" "(sink_step ^^ n) m s'" by (metis relpowp_Suc_E2)
  have "sink_work (ls_sink m) m < sink_work (ls_sink s) s \<and> ls_stop m"
    using sink_work_less [OF _ _ Suc.prems(3) m(1)] Suc.prems(2) by (simp add: lsys_ok_def)
  then show ?case using Suc.IH [OF m(2) lsys_ok_sink [OF Suc.prems(2) m(1)]] by simp
qed simp

lemma sink_run_ends:
  "lsys_ok s \<Longrightarrow> ls_owner s = Ow_join \<Longrightarrow> \<forall>t. \<not> registers (ls_pc s t) \<Longrightarrow>
     \<exists>n s'. (sink_step ^^ n) s s' \<and> ls_sink s' = Sk_gone"
proof (induction "sink_work (ls_sink s) s" arbitrary: s rule: less_induct)
  case less
  show ?case
  proof (cases "ls_sink s = Sk_gone")
    case True
    then have "(sink_step ^^ 0) s s \<and> ls_sink s = Sk_gone" by simp
    then show ?thesis by blast
  next
    case False
    then obtain m where m: "sink_step s m" using sink_moves [OF less.prems] by blast
    have stop: "ls_stop s" using less.prems by (simp add: lsys_ok_def flow_ok_def)
    have "sink_work (ls_sink m) m < sink_work (ls_sink s) s"
      using less.prems stop m by (simp add: lsys_ok_def sink_work_less)
    moreover have "lsys_ok m" by (rule lsys_ok_sink [OF less.prems(1) m])
    ultimately obtain n s' where "(sink_step ^^ n) m s'" "ls_sink s' = Sk_gone"
      using less.hyps [of m] less.prems sink_owner [OF m] by auto
    then have "(sink_step ^^ Suc n) s s' \<and> ls_sink s' = Sk_gone" using m by (meson relpowp_Suc_I2)
    then show ?thesis by blast
  qed
qed

text \<open>
  C12. \<^verbatim>\<open>stop\<close> returns: once it has been asked for, and while no thread is inside the registration of a
  ring, the sink thread always has a step to take until it has ended, and it takes at most as many as
  the records in the rings and the rings themselves account for, provided the others do not log.
\<close>

theorem logger_threads_end:
  assumes "lsys_reach ident c s" and "fresh_id c ident" and "ls_owner s = Ow_join"
    and "\<forall>t. \<not> registers (ls_pc s t)"
  shows "(\<exists>n s'. (sink_step ^^ n) s s' \<and> ls_sink s' = Sk_gone)
    \<and> (\<forall>n s'. (sink_step ^^ n) s s' \<longrightarrow> n \<le> sink_work (ls_sink s) s)"
proof -
  have ok: "lsys_ok s" by (rule lsys_reach_ok [OF assms(1,2)])
  then have "ls_stop s" using assms(3) by (simp add: lsys_ok_def flow_ok_def)
  with sink_run_ends [OF ok assms(3,4)] sink_run_bounded [OF _ ok] show ?thesis by blast
qed

section \<open>An overload\<close>

text \<open>Thread 0 has registered ring 0, which holds \<open>k\<close> records and has refused \<open>d\<close>.\<close>

definition lane :: "u64 \<Rightarrow> tls \<Rightarrow> nat \<Rightarrow> nat \<Rightarrow> lsys \<Rightarrow> bool" where
  "lane ident c k d s \<longleftrightarrow> lsys_reach ident c s \<and> ls_pc s 0 = Lp_idle \<and> ls_tls s 0 = Some (0, lg_id (ls_log s))
     \<and> length (rings s) = 1 \<and> producer_ok (rings s ! 0) \<and> length (ring_content (p_ring (rings s ! 0))) = k
     \<and> p_dropped (rings s ! 0) = of_nat d"

definition same_sink :: "lsys \<Rightarrow> lsys \<Rightarrow> bool" where
  "same_sink s s' \<longleftrightarrow> ls_drain s' = ls_drain s \<and> ls_sink s' = ls_sink s \<and> ls_owner s' = ls_owner s
     \<and> ls_lines s' = ls_lines s \<and> ls_mutex s' = ls_mutex s \<and> ls_stop s' = ls_stop s"

lemma error_passes: "\<not> L_error < l"
  by (cases l) (simp_all add: less_level_def)

lemma lane_numbered:
  assumes "lane ident c k d s"
  shows "\<exists>s' r. lsys_reach ident c s' \<and> ls_pc s' 0 = Lp_push 0 r \<and> ls_tls s' 0 = Some (0, lg_id (ls_log s'))
    \<and> rings s' = rings s \<and> same_sink s s'"
proof -
  let ?s1 = "at_pc 0 (after_lookup 0 (0, L_error, [], [], []) s) s"
  let ?r = "make_record 0 (lg_seq (ls_log ?s1)) L_error [] [] []"
  let ?s2 = "at_pc 0 (Lp_push 0 ?r) (take_number ?s1)"
  have idle: "ls_pc s 0 = Lp_idle" and hit: "ls_tls s 0 = Some (0, lg_id (ls_log s))" and r: "lsys_reach ident c s"
    using assms by (auto simp: lane_def)
  have "caller_step 0 s ?s1" using idle by (intro called) (simp_all add: error_passes)
  then have r1: "lsys_reach ident c ?s1" using r by (rule by_caller [rotated])
  have "ls_pc ?s1 0 = Lp_number 0 (0, L_error, [], [], [])"
    using hit by (simp add: at_pc_def after_lookup_def cached_def)
  then have "caller_step 0 ?s1 ?s2" by (rule numbered)
  then have "lsys_reach ident c ?s2" using r1 by (rule by_caller [rotated])
  then show ?thesis using hit by (intro exI [of _ ?s2] exI [of _ ?r]) (simp add: lstep_defs same_sink_def)
qed

lemma lane_accepts:
  assumes lane: "lane ident c k d s" and room: "k < kRingCapacity"
  shows "\<exists>s'. lane ident c (Suc k) d s' \<and> same_sink s s'"
proof -
  obtain s1 r where s1: "lsys_reach ident c s1" "ls_pc s1 0 = Lp_push 0 r"
    "ls_tls s1 0 = Some (0, lg_id (ls_log s1))" "rings s1 = rings s" "same_sink s s1"
    using lane_numbered [OF lane] by blast
  obtain b q where bq: "try_push r (p_ring (rings s1 ! 0)) = (b, q)" by fastforce
  have "producer_ok (rings s1 ! 0)" using lane s1(4) by (simp add: lane_def)
  note push = push_into_producer [OF this bq]
  with lane room s1(4) have b: "b" by (simp add: lane_def)
  then have "caller_step 0 s1 (at_pc 0 Lp_idle (accept 0 q r s1))" using s1(2) bq by (auto intro: accepted)
  then have "lsys_reach ident c (at_pc 0 Lp_idle (accept 0 q r s1))" using s1(1) by (rule by_caller [rotated])
  then show ?thesis using lane s1 push b
    by (intro exI [of _ "at_pc 0 Lp_idle (accept 0 q r s1)"]) (auto simp: lane_def lstep_defs same_sink_def)
qed

lemma lane_drops:
  assumes lane: "lane ident c kRingCapacity d s"
  shows "\<exists>s'. lane ident c kRingCapacity (Suc d) s' \<and> same_sink s s'"
proof -
  obtain s1 r where s1: "lsys_reach ident c s1" "ls_pc s1 0 = Lp_push 0 r"
    "ls_tls s1 0 = Some (0, lg_id (ls_log s1))" "rings s1 = rings s" "same_sink s s1"
    using lane_numbered [OF lane] by blast
  obtain b q where bq: "try_push r (p_ring (rings s1 ! 0)) = (b, q)" by fastforce
  have ok: "producer_ok (rings s1 ! 0)" using lane s1(4) by (simp add: lane_def)
  have "\<not> b" using push_into_producer [OF ok bq] lane s1(4) by (simp add: lane_def)
  then have "caller_step 0 s1 (at_pc 0 (Lp_drop 0) s1)" using s1(2) bq by (auto intro: refused)
  then have r2: "lsys_reach ident c (at_pc 0 (Lp_drop 0) s1)" using s1(1) by (rule by_caller [rotated])
  let ?s3 = "at_pc 0 Lp_idle (count_drop 0 (at_pc 0 (Lp_drop 0) s1))"
  have "caller_step 0 (at_pc 0 (Lp_drop 0) s1) ?s3" by (rule counted) (simp add: at_pc_def)
  then have "lsys_reach ident c ?s3" using r2 by (rule by_caller [rotated])
  then show ?thesis using lane s1 ok
    by (intro exI [of _ ?s3]) (auto simp: lane_def lstep_defs same_sink_def producer_ok_def)
qed

lemma lane_first:
  assumes "fresh_id c ident"
  shows "\<exists>s. lane ident c 1 0 s \<and> same_sink (lsys_init ident c) s"
proof -
  let ?a = "(0, L_error, [], [], [])" and ?s0 = "lsys_init ident c"
  let ?s1 = "at_pc 0 (Lp_wait ?a) ?s0"
  let ?s2 = "at_pc 0 (Lp_register ?a) (?s1\<lparr>ls_mutex := Some (By_log 0)\<rparr>)"
  let ?s3 = "at_pc 0 (Lp_number (length (rings ?s2)) ?a) (register_ring 0 ?s2)"
  let ?r = "make_record 0 (lg_seq (ls_log ?s3)) L_error [] [] []"
  let ?s4 = "at_pc 0 (Lp_push 0 ?r) (take_number ?s3)"
  obtain b q where bq: "try_push ?r (p_ring new_producer) = (b, q)" by fastforce
  note push = push_into_producer [OF new_producer_ok(1) bq]
  let ?s5 = "at_pc 0 Lp_idle (accept 0 q ?r ?s4)"
  have miss: "after_lookup 0 ?a ?s0 = Lp_wait ?a"
    using assms by (auto simp: after_lookup_def cached_def lsys_init_def logger_ctor_def fresh_id_def split: option.split)
  have "caller_step 0 ?s0 (at_pc 0 (after_lookup 0 ?a ?s0) ?s0)"
    by (rule called) (simp_all add: lsys_init_def error_passes)
  then have 1: "lsys_reach ident c ?s1" using created by (subst (asm) miss) (rule by_caller [rotated])
  have "caller_step 0 ?s1 ?s2" by (rule locked) (simp_all add: at_pc_def lsys_init_def)
  then have 2: "lsys_reach ident c ?s2" using 1 by (rule by_caller [rotated])
  have "caller_step 0 ?s2 ?s3" by (rule registered) (simp add: at_pc_def)
  then have 3: "lsys_reach ident c ?s3" using 2 by (rule by_caller [rotated])
  have "caller_step 0 ?s3 ?s4" by (rule numbered) (simp add: at_pc_def lsys_init_def logger_ctor_def)
  then have 4: "lsys_reach ident c ?s4" using 3 by (rule by_caller [rotated])
  have "b" using push by (simp add: kRingCapacity_def)
  then have "caller_step 0 ?s4 ?s5"
    using bq by (intro accepted) (simp_all add: lstep_defs lsys_init_def logger_ctor_def)
  then have "lsys_reach ident c ?s5" using 4 by (rule by_caller [rotated])
  then show ?thesis using push \<open>b\<close>
    by (intro exI [of _ ?s5])
      (simp add: lane_def lstep_defs lsys_init_def logger_ctor_def same_sink_def new_producer_ok)
qed

lemma same_sink_trans: "same_sink s t \<Longrightarrow> same_sink t u \<Longrightarrow> same_sink s u"
  by (simp add: same_sink_def)

lemma lane_full:
  assumes "fresh_id c ident"
  shows "\<exists>s. lane ident c kRingCapacity 0 s \<and> same_sink (lsys_init ident c) s"
proof -
  have "Suc k \<le> kRingCapacity \<Longrightarrow> \<exists>s. lane ident c (Suc k) 0 s \<and> same_sink (lsys_init ident c) s" for k
  proof (induction k)
    case 0
    then show ?case using lane_first [OF assms] by simp
  next
    case (Suc k)
    then obtain s where s: "lane ident c (Suc k) 0 s" "same_sink (lsys_init ident c) s" by auto
    obtain s' where "lane ident c (Suc (Suc k)) 0 s'" "same_sink s s'"
      using lane_accepts [OF s(1)] Suc.prems by auto
    then show ?case using s(2) same_sink_trans by blast
  qed
  from this [of "kRingCapacity - 1"] show ?thesis by (simp add: kRingCapacity_def)
qed

lemma lane_keeps: "lane ident c k d s \<Longrightarrow> lsys_reach ident c s' \<Longrightarrow> same_callers s s' \<Longrightarrow> rings s' = rings s \<Longrightarrow> lane ident c k d s'"
  by (simp add: lane_def same_callers_def)

text \<open>The sink inside its last drain, \<open>n\<close> records printed and as many refused meanwhile.\<close>

definition swamped :: "u64 \<Rightarrow> tls \<Rightarrow> nat \<Rightarrow> lsys \<Rightarrow> bool" where
  "swamped ident c n s \<longleftrightarrow> lane ident c kRingCapacity n s \<and> ls_drain s Sink = Dp_pop 0 n
     \<and> ls_sink s = Sk_drain True \<and> ls_owner s = Ow_join \<and> (\<forall>l \<in> set (ls_lines s). is_record l)"

lemma swamped_0:
  assumes "fresh_id c ident"
  shows "\<exists>s. swamped ident c 0 s"
proof -
  obtain s where lane: "lane ident c kRingCapacity 0 s" and same: "same_sink (lsys_init ident c) s"
    using lane_full [OF assms] by blast
  let ?s1 = "at_owner Ow_up (at_sink Sk_top (s\<lparr>ls_log := logger_start 0 (ls_log s), ls_stop := False\<rparr>))"
  let ?s2 = "at_owner Ow_join (set_mark (?s1\<lparr>ls_stop := True\<rparr>))"
  let ?s3 = "at_sink (Sk_drain (ls_stop ?s2)) (at_drain Sink Dp_wait ?s2)"
  let ?s4 = "at_drain Sink (Dp_pop 0 0) (?s3\<lparr>ls_mutex := Some (By_drain Sink)\<rparr>)"
  have init: "ls_owner s = Ow_new" "ls_mutex s = None" "ls_lines s = []"
    using same by (simp_all add: same_sink_def lsys_init_def)
  have "owner_step s ?s1" using init by (intro starts) simp
  moreover have "owner_step ?s1 ?s2" by (rule asks) (simp add: at_owner_def)
  moreover have "sink_step ?s2 ?s3" by (rule turns) (simp add: lstep_defs)
  moreover have "sink_step ?s3 ?s4" using init by (intro drains enters) (simp_all add: lstep_defs)
  ultimately have "lsys_reach ident c ?s4" using lane unfolding lane_def by (meson by_owner by_sink)
  then have "lane ident c kRingCapacity 0 ?s4"
    by (rule lane_keeps [OF lane]) (simp_all add: same_callers_def lstep_defs)
  then have "swamped ident c 0 ?s4" using init by (simp add: swamped_def lstep_defs)
  then show ?thesis by blast
qed

lemma swamped_Suc:
  assumes "swamped ident c n s"
  shows "\<exists>s'. swamped ident c (Suc n) s'"
proof -
  from assms have lane: "lane ident c kRingCapacity n s" and pc: "ls_drain s Sink = Dp_pop 0 n"
    and ctl: "ls_sink s = Sk_drain True" "ls_owner s = Ow_join" "\<forall>l \<in> set (ls_lines s). is_record l"
    by (simp_all add: swamped_def)
  from lane have len: "length (rings s) = 1" and ok: "producer_ok (rings s ! 0)"
    and full: "length (ring_content (p_ring (rings s ! 0))) = kRingCapacity"
    by (simp_all add: lane_def)
  obtain x q where xq: "try_pop (p_ring (rings s ! 0)) = (x, q)" by fastforce
  note pop = pop_from_producer [OF ok xq]
  with full obtain r where x: "x = Some r" by (cases x) (auto simp: kRingCapacity_def)
  let ?s1 = "at_drain Sink (Dp_write 0 n r) (s\<lparr>ls_log := set_producer 0 ((rings s ! 0)\<lparr>p_ring := q\<rparr>) (ls_log s)\<rparr>)"
  let ?s2 = "at_drain Sink (Dp_pop 0 (n + 1)) (put_record 0 r ?s1)"
  have "sink_step s ?s1" using pc len xq x by (intro drains popped) simp_all
  moreover have "sink_step ?s1 ?s2" by (intro drains written) (simp add: lstep_defs)
  ultimately have r2: "lsys_reach ident c ?s2" using lane unfolding lane_def by (meson by_sink)
  have "lane ident c (kRingCapacity - 1) n ?s2"
    using lane r2 pop x full by (auto simp: lane_def lstep_defs)
  then obtain s3 where s3: "lane ident c kRingCapacity n s3" "same_sink ?s2 s3"
    using lane_accepts [of ident c "kRingCapacity - 1" n ?s2] by (auto simp: kRingCapacity_def)
  obtain s4 where s4: "lane ident c kRingCapacity (Suc n) s4" "same_sink s3 s4"
    using lane_drops [OF s3(1)] by blast
  have "same_sink ?s2 s4" by (rule same_sink_trans [OF s3(2) s4(2)])
  then have "swamped ident c (Suc n) s4" using s4(1) ctl by (simp add: swamped_def same_sink_def lstep_defs)
  then show ?thesis by blast
qed

text \<open>
  C13. An overload keeps the sink from reporting it, and from stopping: \<^verbatim>\<open>drain_now\<close> leaves a ring only
  when it finds it empty, so against a thread that logs as fast as lines are printed the drain under
  way does not end. For every \<open>n\<close> there is a reachable state in which \<^verbatim>\<open>stop\<close> is waiting, the
  sink is still inside one drain, \<open>n\<close> records have been printed and \<open>n\<close> refused, and no drop has been
  reported, although the comment says once per second.
\<close>

theorem logger_overload:
  assumes "fresh_id c ident"
  shows "\<exists>s. lsys_reach ident c s \<and> ls_owner s = Ow_join \<and> ls_drain s Sink = Dp_pop 0 n
    \<and> p_dropped (rings s ! 0) = of_nat n \<and> (\<forall>l \<in> set (ls_lines s). is_record l)"
proof -
  have "\<exists>s. swamped ident c n s"
    using swamped_0 [OF assms] swamped_Suc by (induction n) blast+
  then show ?thesis by (auto simp: swamped_def lane_def)
qed

theorem logger_overload_witness:
  "\<exists>s. lsys_reach 7 (\<lambda>_. None) s \<and> ls_owner s = Ow_join \<and> ls_drain s Sink = Dp_pop 0 5000
    \<and> p_dropped (rings s ! 0) = of_nat 5000 \<and> (\<forall>l \<in> set (ls_lines s). is_record l)"
  by (rule logger_overload) (simp add: fresh_id_def)

section \<open>Witnesses\<close>

lemma fresh_empty: "fresh_id (\<lambda>_. None) ident"
  by (simp add: fresh_id_def)

lemma swamped_exists: "\<exists>s. swamped 7 (\<lambda>_. None) n s"
  using swamped_0 [OF fresh_empty] swamped_Suc by (induction n) blast+

lemma swamped_reach: "swamped ident c n s \<Longrightarrow> lsys_reach ident c s \<and> ls_owner s = Ow_join \<and> draining (ls_drain s Sink)"
  by (simp add: swamped_def lane_def)

lemma swamped_quiet: "swamped 7 (\<lambda>_. None) n s \<Longrightarrow> \<not> registers (ls_pc s t)"
  using swamped_reach lsys_reach_ok [OF _ fresh_empty] unfolding lsys_ok_def mutex_ok_def
  by (metis holder.distinct(1) option.inject)

theorem logger_threads_apart_witness:
  "\<exists>s :: lsys. draining (ls_drain s Sink) \<and> (\<forall>t. registers (ls_pc s t) \<longrightarrow> (\<forall>w. \<not> draining (ls_drain s w)))
     \<and> (\<forall>t u p. uses (ls_pc s t) = Some p \<and> uses (ls_pc s u) = Some p \<longrightarrow> t = u)"
proof -
  obtain s where "swamped 7 (\<lambda>_. None) 3 s" using swamped_exists by blast
  then have r: "lsys_reach 7 (\<lambda>_. None) s" "draining (ls_drain s Sink)" using swamped_reach by auto
  have "draining (ls_drain s Sink) \<and> (\<forall>t. registers (ls_pc s t) \<longrightarrow> (\<forall>w. \<not> draining (ls_drain s w)))
     \<and> (\<forall>t u p. uses (ls_pc s t) = Some p \<and> uses (ls_pc s u) = Some p \<longrightarrow> t = u)"
    using logger_threads_apart [OF r(1) fresh_empty] r(2) by simp
  then show ?thesis by (rule exI)
qed

theorem logger_threads_order_witness:
  "\<exists>s. ls_drain s Sink = Dp_pop 0 3 \<and> printed_of 0 s @ in_flight 0 s @ in_ring 0 s = ls_pushed s 0
     \<and> length (in_ring 0 s) = 1024"
proof -
  obtain s where s: "swamped 7 (\<lambda>_. None) 3 s" using swamped_exists by blast
  then have r: "lsys_reach 7 (\<lambda>_. None) s" using swamped_reach by auto
  from s have "ls_drain s Sink = Dp_pop 0 3" "length (in_ring 0 s) = 1024"
    by (auto simp: swamped_def lane_def in_ring_def kRingCapacity_def)
  with logger_threads_order [OF r fresh_empty, of 0] show ?thesis by blast
qed

lemma sink_run_reach: "(sink_step ^^ n) s s' \<Longrightarrow> lsys_reach ident c s \<Longrightarrow>
    lsys_reach ident c s' \<and> ls_owner s' = ls_owner s"
proof (induction n arbitrary: s)
  case (Suc n)
  then obtain m where m: "sink_step s m" "(sink_step ^^ n) m s'" by (metis relpowp_Suc_E2)
  then show ?case using Suc.IH [OF m(2)] sink_owner [OF m(1)] by_sink [OF Suc.prems(2) m(1)] by simp
qed simp

theorem logger_threads_stop_witness:
  "\<exists>s. ls_owner s = Ow_down \<and> (\<exists>more. printed_of 0 s = take (ls_mark s 0) (ls_pushed s 0) @ more)"
proof -
  obtain s where s: "swamped 7 (\<lambda>_. None) 3 s" using swamped_exists by blast
  then have r: "lsys_reach 7 (\<lambda>_. None) s" "ls_owner s = Ow_join" using swamped_reach by auto
  obtain n s' where run: "(sink_step ^^ n) s s'" "ls_sink s' = Sk_gone"
    using sink_run_ends [OF lsys_reach_ok [OF r(1) fresh_empty] r(2)] swamped_quiet [OF s] by blast
  let ?e = "at_owner Ow_down (s'\<lparr>ls_log := (ls_log s')\<lparr>lg_joinable := False\<rparr>\<rparr>)"
  have "owner_step s' ?e" using sink_run_reach [OF run(1) r(1)] r(2) run(2) by (intro joins) simp_all
  then have "lsys_reach 7 (\<lambda>_. None) ?e" using sink_run_reach [OF run(1) r(1)] by (blast intro: by_owner)
  moreover have d: "ls_owner ?e = Ow_down" by (simp add: at_owner_def)
  ultimately have "\<exists>more. printed_of 0 ?e = take (ls_mark ?e 0) (ls_pushed ?e 0) @ more"
    by (intro logger_threads_stop [OF _ fresh_empty]) simp_all
  with d show ?thesis by blast
qed

theorem logger_threads_end_witness:
  "\<exists>s. ls_drain s Sink = Dp_pop 0 3 \<and> (\<exists>n s'. (sink_step ^^ n) s s' \<and> ls_sink s' = Sk_gone)"
proof -
  obtain s where s: "swamped 7 (\<lambda>_. None) 3 s" using swamped_exists by blast
  then have r: "lsys_reach 7 (\<lambda>_. None) s" "ls_owner s = Ow_join" using swamped_reach by auto
  have "ls_drain s Sink = Dp_pop 0 3" using s by (simp add: swamped_def)
  with logger_threads_end [OF r(1) fresh_empty r(2)] swamped_quiet [OF s] show ?thesis by blast
qed

end
