(* ===== verification/Hal_Mmio.thy ===== *)
theory Hal_Mmio
  imports Core_Error
begin

text \<open>
  \<^verbatim>\<open>framework/hal/include/optronic/hal/mmio.hpp\<close> and \<^verbatim>\<open>register.hpp\<close>: the seam between
  register code and the device. The concept \<^verbatim>\<open>MmioBackend\<close> is a record of operations over an
  abstract device state; the clock the register code reads is part of it, because reading the clock is
  what lets the device move on. \<^verbatim>\<open>FakeMmio\<close> is the host stand-in. Offsets are
  \<^verbatim>\<open>std::size_t\<close> values, so the bounds check is computed at 64 bits with its wrap-around.
\<close>

section \<open>Backends and the clock\<close>

record 's backend =
  bk_read :: "u64 \<Rightarrow> 's \<Rightarrow> u32 \<times> 's"
  bk_write :: "u64 \<Rightarrow> u32 \<Rightarrow> 's \<Rightarrow> 's"
  bk_now :: "'s \<Rightarrow> int \<times> 's"

text \<open>
  \<^verbatim>\<open>std::chrono::steady_clock\<close>: the sequence of its readings in nanoseconds never decreases
  and passes every bound.
\<close>

typedef steady = "{f :: nat \<Rightarrow> int. mono f \<and> (\<forall>d. \<exists>n. d \<le> f n)}"
  morphisms reading Abs_steady
proof -
  have "mono int" by (simp add: mono_def)
  moreover have "\<forall>d. \<exists>n. d \<le> int n" by (meson int_nat_eq nat_le_iff order_refl)
  ultimately show ?thesis by blast
qed

setup_lifting type_definition_steady

text \<open>A clock read every \<open>p + 1\<close> nanoseconds, used to run the model on examples.\<close>

lift_definition steady_every :: "nat \<Rightarrow> steady" is "\<lambda>p n. int (n * Suc p)"
proof -
  fix p
  have "mono (\<lambda>n. int (n * Suc p))" by (intro monoI) (simp only: of_nat_le_iff mult_le_mono1)
  moreover have "\<exists>n. d \<le> int (n * Suc p)" for d
  proof
    have "nat d \<le> nat d * Suc p" by simp
    then show "d \<le> int (nat d * Suc p)" by linarith
  qed
  ultimately show "mono (\<lambda>n. int (n * Suc p)) \<and> (\<forall>d. \<exists>n. d \<le> int (n * Suc p))" by blast
qed

lemma reading_steady_every: "reading (steady_every p) n = int (n * Suc p)"
  by transfer simp

lemma reading_mono: "m \<le> n \<Longrightarrow> reading c m \<le> reading c n"
  using reading [of c] by (auto simp: mono_def)

lemma reading_unbounded: "\<exists>n. d \<le> reading c n"
  using reading [of c] by blast

section \<open>FakeMmio\<close>

definition mmio_size :: u64 where
  "mmio_size = 0x1000"

definition word_count :: nat where
  "word_count = 1024"

definition aligned_and_inside :: "u64 \<Rightarrow> bool" where
  "aligned_and_inside off \<longleftrightarrow> off mod 4 = 0 \<and> off + 4 \<le> mmio_size"

text \<open>
  The part of the object its hooks can change: the words, the read-only marks, the fault counter, and
  \<open>dv_env\<close>, the state the hooks' closures share. \<open>dv_wild\<close> is set once the word vector has been
  indexed out of its bounds, after which nothing is promised; \<open>dv_reads\<close> counts the clock readings
  made so far, by the hooks and by the code that polls the device.
\<close>

record 'e dev =
  dv_words :: "u32 list"
  dv_ro :: "bool list"
  dv_faults :: u64
  dv_wild :: bool
  dv_reads :: nat
  dv_env :: 'e

record 'e fake =
  fk_dev :: "'e dev"
  fk_hooks :: "(u64 \<times> (u32 \<Rightarrow> 'e dev \<Rightarrow> 'e dev)) list"
  fk_read_hooks :: "(u64 \<times> ('e dev \<Rightarrow> 'e dev)) list"

definition idx :: "u64 \<Rightarrow> nat" where
  "idx off = unat (off div 4)"

definition fake_ctor :: "'e \<Rightarrow> 'e fake" where
  "fake_ctor e = \<lparr>fk_dev = \<lparr>dv_words = replicate word_count 0, dv_ro = [], dv_faults = 0,
     dv_wild = False, dv_reads = 0, dv_env = e\<rparr>, fk_hooks = [], fk_read_hooks = []\<rparr>"

definition load_word :: "u64 \<Rightarrow> 'e dev \<Rightarrow> u32 \<times> 'e dev" where
  "load_word off d =
     (if idx off < length (dv_words d) then (dv_words d ! idx off, d) else (0, d\<lparr>dv_wild := True\<rparr>))"

definition store_word :: "u64 \<Rightarrow> u32 \<Rightarrow> 'e dev \<Rightarrow> 'e dev" where
  "store_word off v d =
     (if idx off < length (dv_words d) then d\<lparr>dv_words := (dv_words d)[idx off := v]\<rparr>
      else d\<lparr>dv_wild := True\<rparr>)"

definition fault :: "'e dev \<Rightarrow> 'e dev" where
  "fault d = d\<lparr>dv_faults := dv_faults d + 1\<rparr>"

definition run_read_hooks :: "u64 \<Rightarrow> (u64 \<times> ('e dev \<Rightarrow> 'e dev)) list \<Rightarrow> 'e dev \<Rightarrow> 'e dev" where
  "run_read_hooks off hs d = fold (\<lambda>(o', fn) d. if o' = off then fn d else d) hs d"

definition run_hooks :: "u64 \<Rightarrow> u32 \<Rightarrow> (u64 \<times> (u32 \<Rightarrow> 'e dev \<Rightarrow> 'e dev)) list \<Rightarrow> 'e dev \<Rightarrow> 'e dev" where
  "run_hooks off v hs d = fold (\<lambda>(o', fn) d. if o' = off then fn v d else d) hs d"

definition fake_read32 :: "u64 \<Rightarrow> 'e fake \<Rightarrow> u32 \<times> 'e fake" where
  "fake_read32 off m =
     (if \<not> aligned_and_inside off then (0, m\<lparr>fk_dev := fault (fk_dev m)\<rparr>)
      else case load_word off (run_read_hooks off (fk_read_hooks m) (fk_dev m)) of
        (v, d) \<Rightarrow> (v, m\<lparr>fk_dev := d\<rparr>))"

definition fake_write32 :: "u64 \<Rightarrow> u32 \<Rightarrow> 'e fake \<Rightarrow> 'e fake" where
  "fake_write32 off v m =
     (if \<not> aligned_and_inside off then m\<lparr>fk_dev := fault (fk_dev m)\<rparr>
      else if length (dv_ro (fk_dev m)) > idx off \<and> dv_ro (fk_dev m) ! idx off
      then m\<lparr>fk_dev := fault (fk_dev m)\<rparr>
      else m\<lparr>fk_dev := run_hooks off v (fk_hooks m) (store_word off v (fk_dev m))\<rparr>)"

definition on_write :: "u64 \<Rightarrow> (u32 \<Rightarrow> 'e dev \<Rightarrow> 'e dev) \<Rightarrow> 'e fake \<Rightarrow> 'e fake" where
  "on_write off fn m = m\<lparr>fk_hooks := fk_hooks m @ [(off, fn)]\<rparr>"

definition on_read :: "u64 \<Rightarrow> ('e dev \<Rightarrow> 'e dev) \<Rightarrow> 'e fake \<Rightarrow> 'e fake" where
  "on_read off fn m = m\<lparr>fk_read_hooks := fk_read_hooks m @ [(off, fn)]\<rparr>"

definition set_read_only :: "u64 \<Rightarrow> 'e dev \<Rightarrow> 'e dev" where
  "set_read_only off d =
     (let d1 = (if length (dv_ro d) < word_count then d\<lparr>dv_ro := replicate word_count False\<rparr> else d)
      in if idx off < word_count then d1\<lparr>dv_ro := (dv_ro d1)[idx off := True]\<rparr> else d1)"

definition poke :: "u64 \<Rightarrow> u32 \<Rightarrow> 'e dev \<Rightarrow> 'e dev" where
  "poke off v d = (if aligned_and_inside off then store_word off v d else d)"

definition peek :: "u64 \<Rightarrow> 'e dev \<Rightarrow> u32" where
  "peek off d = (if aligned_and_inside off then fst (load_word off d) else 0)"

definition faults :: "'e fake \<Rightarrow> u64" where
  "faults m = dv_faults (fk_dev m)"

definition dev_now :: "steady \<Rightarrow> 'e dev \<Rightarrow> int \<times> 'e dev" where
  "dev_now c d = (reading c (dv_reads d), d\<lparr>dv_reads := dv_reads d + 1\<rparr>)"

definition fake_now :: "steady \<Rightarrow> 'e fake \<Rightarrow> int \<times> 'e fake" where
  "fake_now c m = (case dev_now c (fk_dev m) of (t, d) \<Rightarrow> (t, m\<lparr>fk_dev := d\<rparr>))"

definition fake_backend :: "steady \<Rightarrow> 'e fake backend" where
  "fake_backend c = \<lparr>bk_read = fake_read32, bk_write = fake_write32, bk_now = fake_now c\<rparr>"

section \<open>Typed registers\<close>

datatype access = RO | WO | RW

record reg =
  reg_off :: u32
  reg_access :: access

primrec readable :: "access \<Rightarrow> bool" where
  "readable RO = True" | "readable WO = False" | "readable RW = True"

primrec writable :: "access \<Rightarrow> bool" where
  "writable RO = False" | "writable WO = True" | "writable RW = True"

text \<open>
  The \<^verbatim>\<open>requires\<close> clauses of \<^verbatim>\<open>read\<close> and \<^verbatim>\<open>write\<close> are compile-time checks; the
  predicates above state them, and the operations take any register.
\<close>

definition off64 :: "reg \<Rightarrow> u64" where
  "off64 r = ucast (reg_off r)"

definition offset_of :: "reg \<Rightarrow> u32" where
  "offset_of r = reg_off r"

definition reg_read :: "'s backend \<Rightarrow> reg \<Rightarrow> 's \<Rightarrow> u32 \<times> 's" where
  "reg_read bk r s = bk_read bk (off64 r) s"

definition reg_write :: "'s backend \<Rightarrow> reg \<Rightarrow> u32 \<Rightarrow> 's \<Rightarrow> 's" where
  "reg_write bk r v s = bk_write bk (off64 r) v s"

definition set_bits :: "'s backend \<Rightarrow> reg \<Rightarrow> u32 \<Rightarrow> 's \<Rightarrow> 's" where
  "set_bits bk r msk s = (case reg_read bk r s of (v, s1) \<Rightarrow> reg_write bk r (v OR msk) s1)"

definition clear_bits :: "'s backend \<Rightarrow> reg \<Rightarrow> u32 \<Rightarrow> 's \<Rightarrow> 's" where
  "clear_bits bk r msk s = (case reg_read bk r s of (v, s1) \<Rightarrow> reg_write bk r (v AND NOT msk) s1)"

definition any_bit :: "'s backend \<Rightarrow> reg \<Rightarrow> u32 \<Rightarrow> 's \<Rightarrow> bool \<times> 's" where
  "any_bit bk r msk s = (case reg_read bk r s of (v, s1) \<Rightarrow> (v AND msk \<noteq> 0, s1))"

section \<open>The contracts register code relies on\<close>

text \<open>
  A window of registers: an access outside it reads zero, and no register access takes the backend
  out of its valid states.
\<close>

locale register_window =
  fixes bk :: "'s backend"
    and inside :: "u64 \<Rightarrow> bool"
    and okd :: "'s \<Rightarrow> bool"
  assumes read_outside: "okd s \<Longrightarrow> \<not> inside (off64 r) \<Longrightarrow> fst (reg_read bk r s) = 0"
    and read_ok: "okd s \<Longrightarrow> okd (snd (reg_read bk r s))"
    and write_ok: "okd s \<Longrightarrow> okd (reg_write bk r v s)"
    and now_ok: "okd s \<Longrightarrow> okd (snd (bk_now bk s))"
begin

lemma set_bits_ok: "okd s \<Longrightarrow> okd (set_bits bk r m s)"
  using read_ok [of s r] by (auto simp: set_bits_def write_ok split: prod.splits)

lemma clear_bits_ok: "okd s \<Longrightarrow> okd (clear_bits bk r m s)"
  using read_ok [of s r] by (auto simp: clear_bits_def write_ok split: prod.splits)

lemma any_bit_ok: "okd s \<Longrightarrow> okd (snd (any_bit bk r m s))"
  using read_ok [of s r] by (auto simp: any_bit_def split: prod.splits)

lemma any_bit_outside: "okd s \<Longrightarrow> \<not> inside (off64 r) \<Longrightarrow> \<not> fst (any_bit bk r m s)"
  using read_outside [of s r] by (auto simp: any_bit_def split: prod.splits)

end

text \<open>
  A window whose clock moves on: every reading is the next one of a steady clock, and no access takes
  readings back.
\<close>

locale polled_window = register_window bk inside okd
  for bk :: "'s backend" and inside :: "u64 \<Rightarrow> bool" and okd :: "'s \<Rightarrow> bool" +
  fixes c :: steady
    and reads :: "'s \<Rightarrow> nat"
  assumes now_reading: "okd s \<Longrightarrow> fst (bk_now bk s) = reading c (reads s)"
    and now_reads: "okd s \<Longrightarrow> reads (snd (bk_now bk s)) = Suc (reads s)"
    and read_reads: "okd s \<Longrightarrow> reads s \<le> reads (snd (reg_read bk r s))"
    and write_reads: "okd s \<Longrightarrow> reads s \<le> reads (reg_write bk r v s)"
begin

lemma any_bit_reads: "okd s \<Longrightarrow> reads s \<le> reads (snd (any_bit bk r m s))"
  using read_reads [of s r] by (auto simp: any_bit_def split: prod.splits)

end

text \<open>Registers that behave as storage, in the states where they do.\<close>

locale storage_registers =
  fixes bk :: "'s backend"
    and plain :: "reg \<Rightarrow> 's \<Rightarrow> bool"
    and content :: "reg \<Rightarrow> 's \<Rightarrow> u32"
  assumes read_plain: "plain r s \<Longrightarrow> reg_read bk r s = (content r s, s)"
    and write_same: "plain r s \<Longrightarrow> content r (reg_write bk r v s) = v"
    and write_other: "plain r s \<Longrightarrow> plain q s \<Longrightarrow> reg_off q \<noteq> reg_off r \<Longrightarrow>
      content q (reg_write bk r v s) = content q s"
    and write_plain: "plain r s \<Longrightarrow> plain q s \<Longrightarrow> plain q (reg_write bk r v s)"
begin

lemma set_bits_content:
  assumes "plain r s"
  shows "content r (set_bits bk r m s) = content r s OR m"
    and "fst (any_bit bk r m (set_bits bk r m s)) = (m \<noteq> 0)"
  using assms
  by (simp_all add: set_bits_def read_plain write_same any_bit_def write_plain word_bw_comms
      bit.conj_disj_distrib)

lemma clear_bits_content:
  assumes "plain r s"
  shows "content r (clear_bits bk r m s) = content r s AND NOT m"
    and "\<not> fst (any_bit bk r m (clear_bits bk r m s))"
  using assms
  by (simp_all add: clear_bits_def read_plain write_same any_bit_def write_plain and.assoc)

lemma bits_other:
  assumes "plain r s" "plain q s" "reg_off q \<noteq> reg_off r"
  shows "content q (set_bits bk r m s) = content q s"
    and "content q (clear_bits bk r m s) = content q s"
  using assms by (simp_all add: set_bits_def clear_bits_def read_plain write_other)

end

section \<open>FakeMmio fulfils them\<close>

definition dev_ok :: "'e dev \<Rightarrow> bool" where
  "dev_ok d \<longleftrightarrow> length (dv_words d) = word_count \<and> \<not> dv_wild d"

definition hook_ok :: "('e dev \<Rightarrow> 'e dev) \<Rightarrow> bool" where
  "hook_ok fn \<longleftrightarrow> (\<forall>d. dev_ok d \<longrightarrow> dev_ok (fn d) \<and> dv_reads d \<le> dv_reads (fn d))"

definition fake_ok :: "'e fake \<Rightarrow> bool" where
  "fake_ok m \<longleftrightarrow> dev_ok (fk_dev m)
     \<and> (\<forall>(o', fn) \<in> set (fk_hooks m). \<forall>v. hook_ok (fn v))
     \<and> (\<forall>(o', fn) \<in> set (fk_read_hooks m). hook_ok fn)"

lemma idx_inside:
  assumes "aligned_and_inside off" and "off < 0xFFFFFFFFFFFFFFFC"
  shows "idx off < word_count"
proof -
  have "unat off + 4 < 2 ^ 64"
    using assms(2) by (simp add: word_less_nat_alt)
  then have "unat (off + 4) = unat off + 4" by (simp add: unat_word_ariths)
  then have "unat off + 4 \<le> 4096"
    using assms(1) by (simp add: aligned_and_inside_def mmio_size_def word_le_nat_alt)
  then show ?thesis by (simp add: idx_def word_count_def unat_div)
qed

lemma off64_small: "off64 r < 0xFFFFFFFFFFFFFFFC"
  by (simp add: off64_def word_less_nat_alt) (rule less_trans [OF unat_u32_bound], simp)

lemma reg_idx_inside: "aligned_and_inside (off64 r) \<Longrightarrow> idx (off64 r) < word_count"
  by (rule idx_inside [OF _ off64_small])

lemma run_read_hooks_ok:
  "(\<forall>(o', fn) \<in> set hs. hook_ok fn) \<Longrightarrow> dev_ok d \<Longrightarrow>
   dev_ok (run_read_hooks off hs d) \<and> dv_reads d \<le> dv_reads (run_read_hooks off hs d)"
  unfolding run_read_hooks_def
proof (induction hs arbitrary: d)
  case Nil
  then show ?case by simp
next
  case (Cons h hs)
  obtain o' fn where h: "h = (o', fn)" by fastforce
  have fn: "dev_ok (fn d) \<and> dv_reads d \<le> dv_reads (fn d)"
    using Cons.prems h by (simp add: hook_ok_def)
  let ?d = "if o' = off then fn d else d"
  have d: "dev_ok ?d" "dv_reads d \<le> dv_reads ?d" using fn Cons.prems by auto
  show ?case using Cons.IH [of ?d] Cons.prems(1) d h by force
qed

lemma run_hooks_ok:
  "(\<forall>(o', fn) \<in> set hs. \<forall>v. hook_ok (fn v)) \<Longrightarrow> dev_ok d \<Longrightarrow>
   dev_ok (run_hooks off v hs d) \<and> dv_reads d \<le> dv_reads (run_hooks off v hs d)"
proof -
  assume a: "\<forall>(o', fn) \<in> set hs. \<forall>v. hook_ok (fn v)" and d: "dev_ok d"
  have eq: "run_hooks off v hs d = run_read_hooks off (map (\<lambda>(o', fn). (o', fn v)) hs) d"
    unfolding run_hooks_def run_read_hooks_def
    by (simp add: fold_map comp_def case_prod_unfold cong: if_cong)
  show ?thesis unfolding eq by (rule run_read_hooks_ok) (use a d in auto)
qed

lemma store_word_ok: "idx off < word_count \<Longrightarrow> dev_ok d \<Longrightarrow>
   dev_ok (store_word off v d) \<and> dv_reads (store_word off v d) = dv_reads d"
  by (simp add: store_word_def dev_ok_def)

lemma fake_read_ok:
  assumes "fake_ok m"
  shows "fake_ok (snd (fake_read32 (off64 r) m)) \<and>
    dv_reads (fk_dev m) \<le> dv_reads (fk_dev (snd (fake_read32 (off64 r) m)))"
  using assms run_read_hooks_ok [of "fk_read_hooks m" "fk_dev m" "off64 r"] reg_idx_inside [of r]
  by (auto simp: fake_read32_def fake_ok_def fault_def dev_ok_def load_word_def split: prod.splits)

lemma fake_write_ok:
  assumes "fake_ok m"
  shows "fake_ok (fake_write32 (off64 r) v m) \<and>
    dv_reads (fk_dev m) \<le> dv_reads (fk_dev (fake_write32 (off64 r) v m))"
proof (cases "aligned_and_inside (off64 r)")
  case True
  note s = store_word_ok [OF reg_idx_inside [OF True], of "fk_dev m" v]
  show ?thesis
    using assms s run_hooks_ok [of "fk_hooks m" "store_word (off64 r) v (fk_dev m)" "off64 r" v] True
    by (auto simp: fake_write32_def fake_ok_def fault_def dev_ok_def)
next
  case False
  then show ?thesis using assms by (simp add: fake_write32_def fake_ok_def fault_def dev_ok_def)
qed

lemma fake_now_ok:
  assumes "fake_ok m"
  shows "fake_ok (snd (fake_now c m)) \<and> fst (fake_now c m) = reading c (dv_reads (fk_dev m))
    \<and> dv_reads (fk_dev (snd (fake_now c m))) = Suc (dv_reads (fk_dev m))"
  using assms by (simp add: fake_now_def dev_now_def fake_ok_def dev_ok_def)

lemma fake_reg_simps [simp]:
  "reg_read (fake_backend c) r m = fake_read32 (off64 r) m"
  "reg_write (fake_backend c) r v m = fake_write32 (off64 r) v m"
  "bk_now (fake_backend c) m = fake_now c m"
  by (simp_all add: reg_read_def reg_write_def fake_backend_def)

interpretation fake: polled_window "fake_backend c" aligned_and_inside fake_ok c
  "\<lambda>m. dv_reads (fk_dev m)" for c
proof unfold_locales
  show "fst (reg_read (fake_backend c) r m) = 0" if "\<not> aligned_and_inside (off64 r)" for r m
    using that by (simp add: fake_read32_def)
qed (auto simp: fake_read_ok fake_write_ok fake_now_ok)

text \<open>A register of the fake is plain when it is in range, not read-only and has no hook.\<close>

definition plain_reg :: "reg \<Rightarrow> 'e fake \<Rightarrow> bool" where
  "plain_reg r m \<longleftrightarrow> fake_ok m \<and> aligned_and_inside (off64 r)
     \<and> \<not> (length (dv_ro (fk_dev m)) > idx (off64 r) \<and> dv_ro (fk_dev m) ! idx (off64 r))
     \<and> off64 r \<notin> fst ` set (fk_hooks m) \<and> off64 r \<notin> fst ` set (fk_read_hooks m)"

definition reg_content :: "reg \<Rightarrow> 'e fake \<Rightarrow> u32" where
  "reg_content r m = dv_words (fk_dev m) ! idx (off64 r)"

lemma no_read_hooks: "off \<notin> fst ` set hs \<Longrightarrow> run_read_hooks off hs d = d"
  unfolding run_read_hooks_def by (induction hs arbitrary: d) auto

lemma no_hooks: "off \<notin> fst ` set hs \<Longrightarrow> run_hooks off v hs d = d"
  unfolding run_hooks_def by (induction hs arbitrary: d) auto

lemma idx_inject:
  assumes "aligned_and_inside a" "aligned_and_inside b" "idx a = idx b"
  shows "a = b"
proof -
  have "unat a mod 4 = 0" "unat b mod 4 = 0"
    using assms(1,2) unat_mod [of a 4] unat_mod [of b 4] by (simp_all add: aligned_and_inside_def)
  moreover have "unat a div 4 = unat b div 4"
    using assms(3) by (simp add: idx_def unat_div)
  ultimately have "unat a = unat b" by (metis div_mod_decomp)
  then show ?thesis by (simp only: word_unat_eq_iff)
qed

lemma off64_inject: "off64 q = off64 r \<longleftrightarrow> reg_off q = reg_off r"
  by (metis off64_def unat_ucast_u32_u64 word_unat_eq_iff)

lemma plain_write:
  assumes "plain_reg r m"
  shows "fake_write32 (off64 r) v m = m\<lparr>fk_dev := (fk_dev m)
    \<lparr>dv_words := (dv_words (fk_dev m))[idx (off64 r) := v]\<rparr>\<rparr>"
  using assms reg_idx_inside [of r]
  by (auto simp: plain_reg_def fake_write32_def no_hooks store_word_def fake_ok_def dev_ok_def)

interpretation fake_store: storage_registers "fake_backend c" plain_reg reg_content for c
proof unfold_locales
  show "reg_read (fake_backend c) r m = (reg_content r m, m)" if "plain_reg r m" for r and m :: "'a fake"
    using that reg_idx_inside [of r]
    by (simp add: plain_reg_def fake_read32_def no_read_hooks load_word_def reg_content_def
        fake_ok_def dev_ok_def)
  show "reg_content r (reg_write (fake_backend c) r v m) = v" if "plain_reg r m" for r v and m :: "'a fake"
    using that reg_idx_inside [of r] plain_write [OF that]
    by (simp add: reg_content_def plain_reg_def fake_ok_def dev_ok_def)
  show "reg_content q (reg_write (fake_backend c) r v m) = reg_content q m"
    if "plain_reg r m" "plain_reg q m" "reg_off q \<noteq> reg_off r" for r q v and m :: "'a fake"
  proof -
    have "idx (off64 q) \<noteq> idx (off64 r)"
      using that idx_inject [of "off64 q" "off64 r"] by (auto simp: plain_reg_def off64_inject)
    then show ?thesis using plain_write [OF that(1)] by (simp add: reg_content_def)
  qed
  show "plain_reg q (reg_write (fake_backend c) r v m)"
    if "plain_reg r m" "plain_reg q m" for r q v and m :: "'a fake"
    using that plain_write [OF that(1)] by (simp add: plain_reg_def fake_ok_def dev_ok_def)
qed

lemma fresh_fake_ok: "fake_ok (fake_ctor e)"
  by (simp add: fake_ok_def fake_ctor_def dev_ok_def)

section \<open>Properties\<close>

text \<open>
  C19. Whatever registers software names (any of the \<open>2 ^ 32\<close> offsets a register type can carry), the
  typed accesses never index the word vector of \<^verbatim>\<open>FakeMmio\<close> out of its bounds, an access
  outside the window reads zero and leaves every word as it was, and the object stays valid.
\<close>

theorem registers_stay_inside:
  assumes "fake_ok m"
  shows "let bk = fake_backend c
    in fake_ok (snd (reg_read bk r m)) \<and> fake_ok (reg_write bk r v m)
     \<and> fake_ok (set_bits bk r v m) \<and> fake_ok (clear_bits bk r v m)
     \<and> fake_ok (snd (any_bit bk r v m))
     \<and> (aligned_and_inside (off64 r) \<or> fst (reg_read bk r m) = 0
          \<and> dv_words (fk_dev (reg_write bk r v m)) = dv_words (fk_dev m)
          \<and> faults (reg_write bk r v m) = faults m + 1)"
proof -
  have "aligned_and_inside (off64 r) \<or> fst (reg_read (fake_backend c) r m) = 0
     \<and> dv_words (fk_dev (reg_write (fake_backend c) r v m)) = dv_words (fk_dev m)
     \<and> faults (reg_write (fake_backend c) r v m) = faults m + 1"
    by (simp add: fake_read32_def fake_write32_def fault_def faults_def)
  then show ?thesis unfolding Let_def
    using fake.read_ok [OF assms] fake.write_ok [OF assms] fake.set_bits_ok [OF assms]
      fake.clear_bits_ok [OF assms] fake.any_bit_ok [OF assms] by blast
qed

theorem registers_stay_inside_witness:
  "fake_ok (set_bits (fake_backend (steady_every 0)) \<lparr>reg_off = 0x1000, reg_access = RW\<rparr> 1 (fake_ctor ()))"
  using registers_stay_inside [OF fresh_fake_ok [of "()"], of "steady_every 0" "\<lparr>reg_off = 0x1000, reg_access = RW\<rparr>" 1]
  unfolding Let_def by (elim conjE)

text \<open>
  Masked updates of plain registers: after \<^verbatim>\<open>set_bits\<close> (\<^verbatim>\<open>clear_bits\<close>) a register
  reads as its old value with the mask's bits set (cleared), and every other plain register reads as
  before.
\<close>

lemma masked_update:
  assumes "plain_reg r m" and "plain_reg q m" and "reg_off q \<noteq> reg_off r"
  shows "let bk = fake_backend c; old = fst (reg_read bk r m)
    in fst (reg_read bk r (set_bits bk r v m)) = old OR v
     \<and> fst (reg_read bk r (clear_bits bk r v m)) = old AND NOT v
     \<and> fst (reg_read bk q (set_bits bk r v m)) = fst (reg_read bk q m)
     \<and> fst (reg_read bk q (clear_bits bk r v m)) = fst (reg_read bk q m)"
proof -
  have p: "plain_reg x (set_bits (fake_backend c) r v m)" "plain_reg x (clear_bits (fake_backend c) r v m)"
    if "plain_reg x m" for x
    unfolding set_bits_def clear_bits_def
    by (simp_all only: fake_store.read_plain [OF assms(1)] prod.case fake_store.write_plain [OF assms(1) that])
  note s = fake_store.read_plain [OF p(1) [OF assms(1)]] fake_store.read_plain [OF p(2) [OF assms(1)]]
    fake_store.read_plain [OF p(1) [OF assms(2)]] fake_store.read_plain [OF p(2) [OF assms(2)]]
    fake_store.read_plain [OF assms(1)] fake_store.read_plain [OF assms(2)]
  show ?thesis unfolding Let_def s fst_conv
    using fake_store.set_bits_content(1) [OF assms(1)] fake_store.clear_bits_content(1) [OF assms(1)]
      fake_store.bits_other [OF assms] by blast
qed

lemma masked_update_witness:
  "let bk = fake_backend (steady_every 0); m = fake_ctor ();
       r = \<lparr>reg_off = 0x10, reg_access = RW\<rparr>; q = \<lparr>reg_off = 0x14, reg_access = RW\<rparr>;
       old = fst (reg_read bk r m)
    in fst (reg_read bk r (set_bits bk r 6 m)) = old OR 6
     \<and> fst (reg_read bk r (clear_bits bk r 6 m)) = old AND NOT 6
     \<and> fst (reg_read bk q (set_bits bk r 6 m)) = fst (reg_read bk q m)
     \<and> fst (reg_read bk q (clear_bits bk r 6 m)) = fst (reg_read bk q m)"
proof -
  let ?r = "\<lparr>reg_off = 0x10, reg_access = RW\<rparr>" and ?q = "\<lparr>reg_off = 0x14, reg_access = RW\<rparr>"
  have "plain_reg ?r (fake_ctor ())" "plain_reg ?q (fake_ctor ())"
    by (simp_all add: plain_reg_def fresh_fake_ok aligned_and_inside_def off64_def mmio_size_def)
      (simp_all add: fake_ctor_def)
  from masked_update [OF this, of "steady_every 0" 6] show ?thesis by (simp only: Let_def) simp
qed

text \<open>
  The raw accessors do not have the bound the typed ones have: the check \<^verbatim>\<open>off + 4 <= size\<close>
  is computed modulo \<open>2 ^ 64\<close>, so the offset \<open>2 ^ 64 - 4\<close> passes it and indexes the vector far outside,
  and it is the only offset that does.
\<close>

lemma raw_offset_wraps:
  "(aligned_and_inside off \<and> word_count \<le> idx off \<longleftrightarrow> off = 0xFFFFFFFFFFFFFFFC)
   \<and> dv_wild (fk_dev (snd (fake_read32 0xFFFFFFFFFFFFFFFC (fake_ctor e))))
   \<and> dv_wild (fk_dev (fake_write32 0xFFFFFFFFFFFFFFFC v (fake_ctor e)))"
proof (intro conjI)
  have m: "aligned_and_inside 0xFFFFFFFFFFFFFFFC" "\<not> idx 0xFFFFFFFFFFFFFFFC < word_count"
    by (simp_all add: aligned_and_inside_def mmio_size_def idx_def word_count_def)
  have "off = 0xFFFFFFFFFFFFFFFC" if a: "aligned_and_inside off" "word_count \<le> idx off"
  proof -
    have "\<not> off < 0xFFFFFFFFFFFFFFFC" using idx_inside [OF a(1)] a(2) by linarith
    then have "0xFFFFFFFFFFFFFFFC \<le> unat off" by (simp add: word_less_nat_alt)
    moreover have "unat off mod 4 = 0"
      using a(1) unat_mod [of off 4] by (simp add: aligned_and_inside_def)
    ultimately have "unat off = 0xFFFFFFFFFFFFFFFC" using unat_u64_bound [of off] by presburger
    then have "unat off = unat (0xFFFFFFFFFFFFFFFC :: u64)" by simp
    then show ?thesis by (simp only: word_unat_eq_iff)
  qed
  with m show "aligned_and_inside off \<and> word_count \<le> idx off \<longleftrightarrow> off = 0xFFFFFFFFFFFFFFFC" by auto
  show "dv_wild (fk_dev (snd (fake_read32 0xFFFFFFFFFFFFFFFC (fake_ctor e))))"
    "dv_wild (fk_dev (fake_write32 0xFFFFFFFFFFFFFFFC v (fake_ctor e)))"
    using m by (simp_all add: fake_read32_def fake_write32_def fake_ctor_def run_read_hooks_def
        run_hooks_def load_word_def store_word_def)
qed

end
