(* ===== verification/Hal_Isp.thy ===== *)
theory Hal_Isp
  imports Hal_Mmio
begin

text \<open>
  \<^verbatim>\<open>framework/hal/include/optronic/hal/isp_ctrl.hpp\<close> (register map, power-on BIT, timestamp) and
  \<^verbatim>\<open>framework/hal/src/isp_model.cpp\<close> (the behaviour of the block behind \<^verbatim>\<open>FakeMmio\<close>).
  The objects the model's hooks capture through \<^verbatim>\<open>shared_ptr\<close> are the cells of
  \<open>dv_env\<close>: each installation of the model adds one cell, and its hooks refer to that cell by index.
  Durations are nanoseconds.
\<close>

section \<open>Register map\<close>

definition isp_id :: reg where "isp_id = \<lparr>reg_off = 0x000, reg_access = RO\<rparr>"
definition isp_version :: reg where "isp_version = \<lparr>reg_off = 0x004, reg_access = RO\<rparr>"
definition isp_ctrl :: reg where "isp_ctrl = \<lparr>reg_off = 0x008, reg_access = RW\<rparr>"
definition isp_status :: reg where "isp_status = \<lparr>reg_off = 0x00C, reg_access = RO\<rparr>"
definition isp_gain :: reg where "isp_gain = \<lparr>reg_off = 0x010, reg_access = RW\<rparr>"
definition isp_offset :: reg where "isp_offset = \<lparr>reg_off = 0x014, reg_access = RW\<rparr>"
definition isp_frame_w :: reg where "isp_frame_w = \<lparr>reg_off = 0x018, reg_access = RW\<rparr>"
definition isp_frame_h :: reg where "isp_frame_h = \<lparr>reg_off = 0x01C, reg_access = RW\<rparr>"
definition isp_frame_cnt :: reg where "isp_frame_cnt = \<lparr>reg_off = 0x020, reg_access = RO\<rparr>"
definition isp_irq_en :: reg where "isp_irq_en = \<lparr>reg_off = 0x024, reg_access = RW\<rparr>"
definition isp_irq_stat :: reg where "isp_irq_stat = \<lparr>reg_off = 0x028, reg_access = RO\<rparr>"
definition isp_irq_clr :: reg where "isp_irq_clr = \<lparr>reg_off = 0x02C, reg_access = WO\<rparr>"
definition isp_temp_mc :: reg where "isp_temp_mc = \<lparr>reg_off = 0x030, reg_access = RO\<rparr>"
definition isp_ts_lo :: reg where "isp_ts_lo = \<lparr>reg_off = 0x034, reg_access = RO\<rparr>"
definition isp_ts_hi :: reg where "isp_ts_hi = \<lparr>reg_off = 0x038, reg_access = RO\<rparr>"
definition isp_shutter :: reg where "isp_shutter = \<lparr>reg_off = 0x03C, reg_access = RW\<rparr>"
definition isp_nuc_acc_ctrl :: reg where "isp_nuc_acc_ctrl = \<lparr>reg_off = 0x040, reg_access = RW\<rparr>"
definition isp_nuc_table_addr :: reg where "isp_nuc_table_addr = \<lparr>reg_off = 0x100, reg_access = RW\<rparr>"
definition isp_nuc_table_data :: reg where "isp_nuc_table_data = \<lparr>reg_off = 0x104, reg_access = RW\<rparr>"

lemmas isp_regs = isp_id_def isp_version_def isp_ctrl_def isp_status_def isp_gain_def isp_offset_def
  isp_frame_w_def isp_frame_h_def isp_frame_cnt_def isp_irq_en_def isp_irq_stat_def isp_irq_clr_def
  isp_temp_mc_def isp_ts_lo_def isp_ts_hi_def isp_shutter_def isp_nuc_acc_ctrl_def
  isp_nuc_table_addr_def isp_nuc_table_data_def

definition kIdMagic :: u32 where "kIdMagic = 0x49535031"

definition ctrl_enable :: u32 where "ctrl_enable = 0x1"
definition ctrl_nuc_en :: u32 where "ctrl_nuc_en = 0x2"
definition ctrl_sw_reset :: u32 where "ctrl_sw_reset = 0x4"
definition ctrl_test_pattern :: u32 where "ctrl_test_pattern = 0x100"
definition status_running :: u32 where "status_running = 0x1"
definition status_frame_done :: u32 where "status_frame_done = 0x2"
definition status_overflow :: u32 where "status_overflow = 0x10"
definition status_underflow :: u32 where "status_underflow = 0x20"
definition shutter_close :: u32 where "shutter_close = 0x1"
definition shutter_busy :: u32 where "shutter_busy = 0x10"
definition shutter_fault :: u32 where "shutter_fault = 0x100"
definition nuc_start :: u32 where "nuc_start = 0x1"
definition nuc_done :: u32 where "nuc_done = 0x100"
definition log2n_shift :: nat where "log2n_shift = 4"
definition log2n_mask :: u32 where "log2n_mask = 0xF0"
definition kGainMask :: u32 where "kGainMask = 0x0FFF"
definition kTempMinMilliC :: int where "kTempMinMilliC = - 40000"
definition kTempMaxMilliC :: int where "kTempMaxMilliC = 105000"

lemmas isp_bits = ctrl_enable_def ctrl_nuc_en_def ctrl_sw_reset_def ctrl_test_pattern_def
  status_running_def status_frame_done_def status_overflow_def status_underflow_def
  shutter_close_def shutter_busy_def shutter_fault_def nuc_start_def nuc_done_def
  log2n_shift_def log2n_mask_def kGainMask_def kTempMinMilliC_def kTempMaxMilliC_def

section \<open>The device model\<close>

record isp_model =
  im_shutter_move :: int
  im_nuc_accumulate :: int
  im_shutter_jams :: bool

definition isp_model_default :: isp_model where
  "isp_model_default = \<lparr>im_shutter_move = 40000000, im_nuc_accumulate = 120000000, im_shutter_jams = False\<rparr>"

record isp_cell =
  ic_shutter_ready :: int
  ic_accum_ready :: int
  ic_table :: "u32 list"

type_synonym isp_dev = "isp_cell list dev"
type_synonym isp_fake = "isp_cell list fake"

definition poke_reg :: "reg \<Rightarrow> u32 \<Rightarrow> 'e dev \<Rightarrow> 'e dev" where
  "poke_reg r v d = poke (ucast (offset_of r)) v d"

definition peek_reg :: "reg \<Rightarrow> 'e dev \<Rightarrow> u32" where
  "peek_reg r d = peek (ucast (offset_of r)) d"

definition cell_upd :: "nat \<Rightarrow> (isp_cell \<Rightarrow> isp_cell) \<Rightarrow> isp_dev \<Rightarrow> isp_dev" where
  "cell_upd k f d = d\<lparr>dv_env := (dv_env d)[k := f (dv_env d ! k)]\<rparr>"

definition ctrl_hook :: "u32 \<Rightarrow> isp_dev \<Rightarrow> isp_dev" where
  "ctrl_hook v dev =
     (if v AND ctrl_sw_reset \<noteq> 0
      then poke_reg isp_gain 0x0100 (poke_reg isp_frame_cnt 0 (poke_reg isp_status 0 (poke_reg isp_ctrl 0 dev)))
      else let st = peek_reg isp_status dev
           in poke_reg isp_status (if v AND ctrl_enable \<noteq> 0 then st OR status_running
                                   else st AND NOT status_running) dev)"

definition irq_clr_hook :: "u32 \<Rightarrow> isp_dev \<Rightarrow> isp_dev" where
  "irq_clr_hook v dev =
     (let dev1 = poke_reg isp_status (peek_reg isp_status dev AND NOT v) dev;
          dev2 = poke_reg isp_irq_stat (peek_reg isp_irq_stat dev1 AND NOT v) dev1
      in poke_reg isp_irq_clr 0 dev2)"

definition shutter_write_hook :: "steady \<Rightarrow> isp_model \<Rightarrow> nat \<Rightarrow> u32 \<Rightarrow> isp_dev \<Rightarrow> isp_dev" where
  "shutter_write_hook c model k v dev =
     (case dev_now c dev of (now, dev1) \<Rightarrow>
        poke_reg isp_shutter ((v AND shutter_close) OR shutter_busy)
          (cell_upd k (\<lambda>x. x\<lparr>ic_shutter_ready := now + im_shutter_move model\<rparr>) dev1))"

definition shutter_read_hook :: "steady \<Rightarrow> isp_model \<Rightarrow> nat \<Rightarrow> isp_dev \<Rightarrow> isp_dev" where
  "shutter_read_hook c model k dev =
     (if im_shutter_jams model then dev
      else case dev_now c dev of (now, dev1) \<Rightarrow>
        if now \<ge> ic_shutter_ready (dv_env dev1 ! k)
        then poke_reg isp_shutter (peek_reg isp_shutter dev1 AND NOT shutter_busy) dev1 else dev1)"

definition acc_write_hook :: "steady \<Rightarrow> isp_model \<Rightarrow> nat \<Rightarrow> u32 \<Rightarrow> isp_dev \<Rightarrow> isp_dev" where
  "acc_write_hook c model k v dev =
     (if v AND nuc_start \<noteq> 0
      then case dev_now c dev of (now, dev1) \<Rightarrow>
        poke_reg isp_nuc_acc_ctrl (v AND NOT nuc_done)
          (cell_upd k (\<lambda>x. x\<lparr>ic_accum_ready := now + im_nuc_accumulate model\<rparr>) dev1)
      else dev)"

definition acc_read_hook :: "steady \<Rightarrow> nat \<Rightarrow> isp_dev \<Rightarrow> isp_dev" where
  "acc_read_hook c k dev =
     (let v = peek_reg isp_nuc_acc_ctrl dev
      in if v AND nuc_start = 0 then dev
         else case dev_now c dev of (now, dev1) \<Rightarrow>
           if now \<ge> ic_accum_ready (dv_env dev1 ! k)
           then poke_reg isp_nuc_acc_ctrl (v OR nuc_done) dev1 else dev1)"

definition table_write_hook :: "nat \<Rightarrow> u32 \<Rightarrow> isp_dev \<Rightarrow> isp_dev" where
  "table_write_hook k v dev =
     (let i = peek_reg isp_nuc_table_addr dev AND 0xFFFF;
          dev1 = (if unat i < length (ic_table (dv_env dev ! k))
                  then cell_upd k (\<lambda>x. x\<lparr>ic_table := (ic_table x)[unat i := v AND 0xFFFF]\<rparr>) dev else dev)
      in poke_reg isp_nuc_table_addr (i + 1) dev1)"

definition table_read_hook :: "nat \<Rightarrow> isp_dev \<Rightarrow> isp_dev" where
  "table_read_hook k dev =
     (let i = peek_reg isp_nuc_table_addr dev AND 0xFFFF;
          t = ic_table (dv_env dev ! k)
      in poke_reg isp_nuc_table_addr (i + 1)
           (poke_reg isp_nuc_table_data (if unat i < length t then t ! unat i else 0) dev))"

definition install_isp_model :: "steady \<Rightarrow> isp_model \<Rightarrow> isp_fake \<Rightarrow> isp_fake" where
  "install_isp_model c model m =
     (let d1 = poke_reg isp_temp_mc 41250 (poke_reg isp_frame_h 1080 (poke_reg isp_frame_w 1920
                 (poke_reg isp_gain 0x0100 (poke_reg isp_version 0x00010000
                   (poke_reg isp_id kIdMagic (fk_dev m))))));
          d2 = fold (\<lambda>r d. set_read_only (ucast (offset_of r)) d)
                 [isp_id, isp_version, isp_status, isp_frame_cnt, isp_irq_stat, isp_temp_mc,
                  isp_ts_lo, isp_ts_hi] d1;
          k = length (dv_env d2);
          d3 = d2\<lparr>dv_env := dv_env d2 @ [\<lparr>ic_shutter_ready = 0, ic_accum_ready = 0,
                                          ic_table = replicate 1024 0\<rparr>]\<rparr>;
          o' = (\<lambda>r. ucast (offset_of r))
      in on_read (o' isp_nuc_table_data) (table_read_hook k)
         (on_write (o' isp_nuc_table_data) (table_write_hook k)
         (on_read (o' isp_nuc_acc_ctrl) (acc_read_hook c k)
         (on_write (o' isp_nuc_acc_ctrl) (acc_write_hook c model k)
         (on_read (o' isp_shutter) (shutter_read_hook c model k)
         (on_write (o' isp_shutter) (shutter_write_hook c model k)
         (on_write (o' isp_irq_clr) irq_clr_hook
         (on_write (o' isp_ctrl) ctrl_hook (m\<lparr>fk_dev := d3\<rparr>)))))))))"

text \<open>The device the service and the tests use: a fresh \<^verbatim>\<open>FakeMmio\<close> with the model installed once.\<close>

definition isp_device :: "steady \<Rightarrow> isp_model \<Rightarrow> isp_fake" where
  "isp_device c model = install_isp_model c model (fake_ctor [])"

section \<open>Code over the register map\<close>

definition power_on_bit :: "'s backend \<Rightarrow> 's \<Rightarrow> status \<times> 's" where
  "power_on_bit bk s =
     (case reg_read bk isp_id s of (v, s1) \<Rightarrow>
        if v \<noteq> kIdMagic then (fail hal_id_mismatch ''bit: ID'', s1)
        else case reg_read bk isp_version s1 of (v, s2) \<Rightarrow>
          if drop_bit 16 v \<noteq> 1 then (fail hal_id_mismatch ''bit: VERSION.major'', s2)
          else case reg_read bk isp_ctrl (reg_write bk isp_ctrl ctrl_sw_reset s2) of (v, s3) \<Rightarrow>
            if v \<noteq> 0 then (fail bit_poweron ''bit: CTRL after SW_RESET'', s3)
            else case reg_read bk isp_temp_mc s3 of (v, s4) \<Rightarrow>
              if sint v < kTempMinMilliC \<or> sint v > kTempMaxMilliC
              then (fail bit_poweron ''bit: TEMP_MC'', s4)
              else (Inr (), s4))"

definition read_timestamp_ns :: "'s backend \<Rightarrow> 's \<Rightarrow> u64 \<times> 's" where
  "read_timestamp_ns bk s =
     (case reg_read bk isp_ts_lo s of (lo, s1) \<Rightarrow>
        case reg_read bk isp_ts_hi s1 of (hi, s2) \<Rightarrow> (push_bit 32 (ucast hi) OR ucast lo, s2))"

section \<open>The map, checked\<close>

lemma isp_idx [simp]:
  "idx (off64 isp_id) = 0"
  "idx (off64 isp_version) = 1"
  "idx (off64 isp_ctrl) = 2"
  "idx (off64 isp_status) = 3"
  "idx (off64 isp_gain) = 4"
  "idx (off64 isp_offset) = 5"
  "idx (off64 isp_frame_w) = 6"
  "idx (off64 isp_frame_h) = 7"
  "idx (off64 isp_frame_cnt) = 8"
  "idx (off64 isp_irq_en) = 9"
  "idx (off64 isp_irq_stat) = 10"
  "idx (off64 isp_irq_clr) = 11"
  "idx (off64 isp_temp_mc) = 12"
  "idx (off64 isp_ts_lo) = 13"
  "idx (off64 isp_ts_hi) = 14"
  "idx (off64 isp_shutter) = 15"
  "idx (off64 isp_nuc_acc_ctrl) = 16"
  "idx (off64 isp_nuc_table_addr) = 64"
  "idx (off64 isp_nuc_table_data) = 65"
  by (simp_all add: idx_def off64_def isp_regs)

lemma isp_inside [simp]:
  "aligned_and_inside (off64 isp_id)"
  "aligned_and_inside (off64 isp_version)"
  "aligned_and_inside (off64 isp_ctrl)"
  "aligned_and_inside (off64 isp_status)"
  "aligned_and_inside (off64 isp_gain)"
  "aligned_and_inside (off64 isp_offset)"
  "aligned_and_inside (off64 isp_frame_w)"
  "aligned_and_inside (off64 isp_frame_h)"
  "aligned_and_inside (off64 isp_frame_cnt)"
  "aligned_and_inside (off64 isp_irq_en)"
  "aligned_and_inside (off64 isp_irq_stat)"
  "aligned_and_inside (off64 isp_irq_clr)"
  "aligned_and_inside (off64 isp_temp_mc)"
  "aligned_and_inside (off64 isp_ts_lo)"
  "aligned_and_inside (off64 isp_ts_hi)"
  "aligned_and_inside (off64 isp_shutter)"
  "aligned_and_inside (off64 isp_nuc_acc_ctrl)"
  "aligned_and_inside (off64 isp_nuc_table_addr)"
  "aligned_and_inside (off64 isp_nuc_table_data)"
  by (simp_all add: aligned_and_inside_def mmio_size_def off64_def isp_regs)

lemma offset_of_off64 [simp]: "ucast (offset_of r) = off64 r"
  by (simp add: offset_of_def off64_def)

lemma poke_reg_eq: "dev_ok d \<Longrightarrow> aligned_and_inside (off64 r) \<Longrightarrow>
   poke_reg r v d = d\<lparr>dv_words := (dv_words d)[idx (off64 r) := v]\<rparr>"
  using reg_idx_inside [of r] by (simp add: poke_reg_def poke_def store_word_def dev_ok_def)

lemma peek_reg_eq: "dev_ok d \<Longrightarrow> aligned_and_inside (off64 r) \<Longrightarrow>
   peek_reg r d = dv_words d ! idx (off64 r)"
  using reg_idx_inside [of r] by (simp add: peek_reg_def peek_def load_word_def dev_ok_def)

section \<open>States of the modelled device\<close>

text \<open>
  A device with the model installed once is determined by its words, the captured cell, the number of
  clock readings and the fault count; \<open>isp_at\<close> builds it. The equations in \<open>mmio_simps\<close> say what each
  access does to these four, and everything above works with them only.
\<close>

definition isp_ro :: "bool list" where
  "isp_ro = (replicate word_count False)[0 := True, 1 := True, 3 := True, 8 := True, 10 := True,
     12 := True, 13 := True, 14 := True]"

definition isp_at :: "steady \<Rightarrow> isp_model \<Rightarrow> u32 list \<Rightarrow> isp_cell \<Rightarrow> nat \<Rightarrow> u64 \<Rightarrow> isp_fake" where
  "isp_at c model ws cell n f =
     \<lparr>fk_dev = \<lparr>dv_words = ws, dv_ro = isp_ro, dv_faults = f, dv_wild = False, dv_reads = n, dv_env = [cell]\<rparr>,
      fk_hooks = [(0x008, ctrl_hook), (0x02C, irq_clr_hook), (0x03C, shutter_write_hook c model 0),
        (0x040, acc_write_hook c model 0), (0x104, table_write_hook 0)],
      fk_read_hooks = [(0x03C, shutter_read_hook c model 0), (0x040, acc_read_hook c 0),
        (0x104, table_read_hook 0)]\<rparr>"

definition isp_reset_words :: "u32 list" where
  "isp_reset_words = (replicate 1024 0)[0 := kIdMagic, 1 := 0x00010000, 4 := 0x0100, 6 := 1920,
     7 := 1080, 12 := 41250]"

definition isp_reset_cell :: isp_cell where
  "isp_reset_cell = \<lparr>ic_shutter_ready = 0, ic_accum_ready = 0, ic_table = replicate 1024 0\<rparr>"

lemma off64_eval:
  "off64 isp_ctrl = 0x008" "off64 isp_irq_clr = 0x02C" "off64 isp_shutter = 0x03C"
  "off64 isp_nuc_acc_ctrl = 0x040" "off64 isp_nuc_table_data = 0x104"
  by (simp_all add: off64_def isp_regs)

lemma off_num:
  "aligned_and_inside 0x008" "aligned_and_inside 0x02C" "aligned_and_inside 0x03C"
  "aligned_and_inside 0x040" "aligned_and_inside 0x104"
  "idx 0x008 = 2" "idx 0x02C = 11" "idx 0x03C = 15" "idx 0x040 = 16" "idx 0x104 = 65"
  using isp_inside isp_idx unfolding off64_eval by blast+

lemma isp_ro_length [simp]: "length isp_ro = 1024"
  by (simp add: isp_ro_def) (simp add: word_count_def)

lemma set_read_only_eq:
  "length (dv_ro d) = word_count \<Longrightarrow> idx off < word_count \<Longrightarrow>
   set_read_only off d = d\<lparr>dv_ro := (dv_ro d)[idx off := True]\<rparr>"
  by (simp add: set_read_only_def)

lemma set_read_only_first:
  "dv_ro d = [] \<Longrightarrow> idx off < word_count \<Longrightarrow>
   set_read_only off d = d\<lparr>dv_ro := (replicate word_count False)[idx off := True]\<rparr>"
  by (simp add: set_read_only_def)

lemma isp_idx_count:
  "0 < word_count" "1 < word_count" "Suc 0 < word_count" "3 < word_count" "8 < word_count"
  "10 < word_count" "12 < word_count" "13 < word_count" "14 < word_count"
  by (simp_all add: word_count_def)

lemma install_words:
  assumes "length ws = 1024"
  shows "poke_reg isp_temp_mc 41250 (poke_reg isp_frame_h 1080 (poke_reg isp_frame_w 1920
      (poke_reg isp_gain 0x0100 (poke_reg isp_version 0x00010000 (poke_reg isp_id kIdMagic
        \<lparr>dv_words = ws, dv_ro = ro, dv_faults = f, dv_wild = False, dv_reads = n, dv_env = e\<rparr>)))))
    = \<lparr>dv_words = ws[0 := kIdMagic, 1 := 0x00010000, 4 := 0x0100, 6 := 1920, 7 := 1080, 12 := 41250],
       dv_ro = ro, dv_faults = f, dv_wild = False, dv_reads = n, dv_env = e\<rparr>"
  using assms by (simp add: poke_reg_eq dev_ok_def word_count_def)

lemma install_marks:
  "fold (\<lambda>r d. set_read_only (ucast (offset_of r)) d)
     [isp_id, isp_version, isp_status, isp_frame_cnt, isp_irq_stat, isp_temp_mc, isp_ts_lo, isp_ts_hi]
     \<lparr>dv_words = ws, dv_ro = [], dv_faults = f, dv_wild = False, dv_reads = n, dv_env = e\<rparr>
   = \<lparr>dv_words = ws, dv_ro = isp_ro, dv_faults = f, dv_wild = False, dv_reads = n, dv_env = e\<rparr>"
  by (simp add: set_read_only_first set_read_only_eq isp_idx_count isp_ro_def)

lemma install_at:
  assumes "length ws = 1024"
  shows "install_isp_model c model \<lparr>fk_dev = \<lparr>dv_words = ws, dv_ro = [], dv_faults = f, dv_wild = False,
      dv_reads = n, dv_env = []\<rparr>, fk_hooks = [], fk_read_hooks = []\<rparr>
    = isp_at c model (ws[0 := kIdMagic, 1 := 0x00010000, 4 := 0x0100, 6 := 1920, 7 := 1080, 12 := 41250])
        isp_reset_cell n f"
  unfolding install_isp_model_def Let_def fake.select_convs install_words [OF assms] install_marks
  by (simp add: isp_at_def on_write_def on_read_def isp_reset_cell_def [symmetric] off64_eval)

lemma isp_device_at: "isp_device c model = isp_at c model isp_reset_words isp_reset_cell 0 0"
proof -
  have "length (replicate 1024 (0 :: u32)) = 1024" by simp
  from install_at [OF this] show ?thesis
    by (simp only: isp_device_def fake_ctor_def word_count_def isp_reset_words_def)
qed

lemma isp_reset_length [simp]: "length isp_reset_words = 1024" "length (ic_table isp_reset_cell) = 1024"
  by (simp_all add: isp_reset_words_def isp_reset_cell_def)

lemma isp_at_ok: "length ws = 1024 \<Longrightarrow> dev_ok (fk_dev (isp_at c model ws cell n f))"
  by (simp add: isp_at_def dev_ok_def word_count_def)

lemma isp_read_plain [mmio_simps]:
  assumes "length ws = 1024" and "aligned_and_inside (off64 r)"
    and "off64 r \<noteq> 0x03C" "off64 r \<noteq> 0x040" "off64 r \<noteq> 0x104"
  shows "fake_read32 (off64 r) (isp_at c model ws cell n f) = (ws ! idx (off64 r), isp_at c model ws cell n f)"
  using assms reg_idx_inside [of r]
  by (simp add: fake_read32_def isp_at_def run_read_hooks_def load_word_def word_count_def)

lemma isp_read_shutter [mmio_simps]:
  assumes "length ws = 1024"
  shows "fake_read32 (off64 isp_shutter) (isp_at c model ws cell n f)
    = (if im_shutter_jams model then (ws ! 15, isp_at c model ws cell n f)
       else if reading c n \<ge> ic_shutter_ready cell
       then (ws ! 15 AND NOT shutter_busy, isp_at c model (ws[15 := ws ! 15 AND NOT shutter_busy]) cell (Suc n) f)
       else (ws ! 15, isp_at c model ws cell (Suc n) f))"
  using assms
  by (simp add: fake_read32_def isp_at_def run_read_hooks_def load_word_def word_count_def off64_eval
      shutter_read_hook_def dev_now_def poke_reg_eq peek_reg_eq dev_ok_def off_num)

lemma isp_read_acc [mmio_simps]:
  assumes "length ws = 1024"
  shows "fake_read32 (off64 isp_nuc_acc_ctrl) (isp_at c model ws cell n f)
    = (if ws ! 16 AND nuc_start = 0 then (ws ! 16, isp_at c model ws cell n f)
       else if reading c n \<ge> ic_accum_ready cell
       then (ws ! 16 OR nuc_done, isp_at c model (ws[16 := ws ! 16 OR nuc_done]) cell (Suc n) f)
       else (ws ! 16, isp_at c model ws cell (Suc n) f))"
  using assms
  by (simp add: fake_read32_def isp_at_def run_read_hooks_def load_word_def word_count_def off64_eval
      acc_read_hook_def Let_def dev_now_def poke_reg_eq peek_reg_eq dev_ok_def off_num)

definition table_entry :: "isp_cell \<Rightarrow> nat \<Rightarrow> u32" where
  "table_entry cell i = (if i < length (ic_table cell) then ic_table cell ! i else 0)"

lemma isp_read_table [mmio_simps]:
  assumes "length ws = 1024"
  shows "fake_read32 (off64 isp_nuc_table_data) (isp_at c model ws cell n f)
    = (table_entry cell (unat (ws ! 64 AND 0xFFFF)),
       isp_at c model (ws[65 := table_entry cell (unat (ws ! 64 AND 0xFFFF)), 64 := (ws ! 64 AND 0xFFFF) + 1]) cell n f)"
  using assms
  by (simp add: fake_read32_def isp_at_def run_read_hooks_def load_word_def word_count_def off64_eval
      table_read_hook_def table_entry_def Let_def poke_reg_eq peek_reg_eq dev_ok_def off_num)

lemma isp_write_plain [mmio_simps]:
  assumes "length ws = 1024" and "aligned_and_inside (off64 r)" and "\<not> isp_ro ! idx (off64 r)"
    and "off64 r \<noteq> 0x008" "off64 r \<noteq> 0x02C" "off64 r \<noteq> 0x03C" "off64 r \<noteq> 0x040" "off64 r \<noteq> 0x104"
  shows "fake_write32 (off64 r) v (isp_at c model ws cell n f) = isp_at c model (ws[idx (off64 r) := v]) cell n f"
  using assms reg_idx_inside [of r]
  by (simp add: fake_write32_def isp_at_def run_hooks_def store_word_def word_count_def)

lemma isp_write_ro [mmio_simps]:
  assumes "aligned_and_inside (off64 r)" and "isp_ro ! idx (off64 r)"
  shows "fake_write32 (off64 r) v (isp_at c model ws cell n f) = isp_at c model ws cell n (f + 1)"
  using assms reg_idx_inside [of r]
  by (simp add: fake_write32_def isp_at_def fault_def word_count_def)

lemma isp_ro_nth [simp]:
  "isp_ro ! 0" "isp_ro ! 1" "isp_ro ! Suc 0" "isp_ro ! 3" "isp_ro ! 8" "isp_ro ! 10" "isp_ro ! 12"
  "isp_ro ! 13" "isp_ro ! 14" "\<not> isp_ro ! 2" "\<not> isp_ro ! 4" "\<not> isp_ro ! 5" "\<not> isp_ro ! 6"
  "\<not> isp_ro ! 7" "\<not> isp_ro ! 9" "\<not> isp_ro ! 11" "\<not> isp_ro ! 15" "\<not> isp_ro ! 16"
  "\<not> isp_ro ! 64" "\<not> isp_ro ! 65"
  by (simp_all add: isp_ro_def word_count_def)

lemma isp_write_ctrl [mmio_simps]:
  assumes "length ws = 1024"
  shows "fake_write32 (off64 isp_ctrl) v (isp_at c model ws cell n f)
    = (if v AND ctrl_sw_reset \<noteq> 0
       then isp_at c model (ws[2 := 0, 3 := 0, 8 := 0, 4 := 0x0100]) cell n f
       else isp_at c model (ws[2 := v, 3 := if v AND ctrl_enable \<noteq> 0 then ws ! 3 OR status_running
              else ws ! 3 AND NOT status_running]) cell n f)"
  using assms
  by (simp add: fake_write32_def isp_at_def run_hooks_def store_word_def word_count_def off64_eval
      ctrl_hook_def Let_def poke_reg_eq peek_reg_eq dev_ok_def off_num)

lemma isp_write_irq_clr [mmio_simps]:
  assumes "length ws = 1024"
  shows "fake_write32 (off64 isp_irq_clr) v (isp_at c model ws cell n f)
    = isp_at c model (ws[11 := 0, 3 := ws ! 3 AND NOT v, 10 := ws ! 10 AND NOT v]) cell n f"
  using assms
  by (simp add: fake_write32_def isp_at_def run_hooks_def store_word_def word_count_def off64_eval
      irq_clr_hook_def Let_def poke_reg_eq peek_reg_eq dev_ok_def off_num
      list_update_swap [of 11])

lemma isp_write_shutter [mmio_simps]:
  assumes "length ws = 1024"
  shows "fake_write32 (off64 isp_shutter) v (isp_at c model ws cell n f)
    = isp_at c model (ws[15 := (v AND shutter_close) OR shutter_busy])
        (cell\<lparr>ic_shutter_ready := reading c n + im_shutter_move model\<rparr>) (Suc n) f"
  using assms
  by (simp add: fake_write32_def isp_at_def run_hooks_def store_word_def word_count_def off64_eval
      shutter_write_hook_def dev_now_def cell_upd_def poke_reg_eq peek_reg_eq dev_ok_def off_num)

lemma isp_write_acc [mmio_simps]:
  assumes "length ws = 1024"
  shows "fake_write32 (off64 isp_nuc_acc_ctrl) v (isp_at c model ws cell n f)
    = (if v AND nuc_start \<noteq> 0
       then isp_at c model (ws[16 := v AND NOT nuc_done])
              (cell\<lparr>ic_accum_ready := reading c n + im_nuc_accumulate model\<rparr>) (Suc n) f
       else isp_at c model (ws[16 := v]) cell n f)"
  using assms
  by (simp add: fake_write32_def isp_at_def run_hooks_def store_word_def word_count_def off64_eval
      acc_write_hook_def dev_now_def cell_upd_def poke_reg_eq peek_reg_eq dev_ok_def off_num)

lemma isp_write_table [mmio_simps]:
  assumes "length ws = 1024"
  shows "fake_write32 (off64 isp_nuc_table_data) v (isp_at c model ws cell n f)
    = isp_at c model (ws[65 := v, 64 := (ws ! 64 AND 0xFFFF) + 1])
        (cell\<lparr>ic_table := (ic_table cell)[unat (ws ! 64 AND 0xFFFF) := v AND 0xFFFF]\<rparr>) n f"
  using assms
  by (simp add: fake_write32_def isp_at_def run_hooks_def store_word_def word_count_def off64_eval
      table_write_hook_def Let_def cell_upd_def poke_reg_eq peek_reg_eq dev_ok_def off_num
      list_update_beyond)

text \<open>Reads and writes of the registers without hooks, by name.\<close>

lemma isp_off_ne:
  "off64 isp_id \<noteq> k" "off64 isp_version \<noteq> k" "off64 isp_status \<noteq> k" "off64 isp_gain \<noteq> k"
  "off64 isp_offset \<noteq> k" "off64 isp_frame_w \<noteq> k" "off64 isp_frame_h \<noteq> k" "off64 isp_frame_cnt \<noteq> k"
  "off64 isp_irq_en \<noteq> k" "off64 isp_irq_stat \<noteq> k" "off64 isp_temp_mc \<noteq> k" "off64 isp_ts_lo \<noteq> k"
  "off64 isp_ts_hi \<noteq> k" "off64 isp_nuc_table_addr \<noteq> k"
  if "k \<in> {0x008, 0x02C, 0x03C, 0x040, 0x104}"
  using that by (auto simp: off64_def isp_regs)

lemmas isp_plain = isp_off_ne [of "0x008", simplified] isp_off_ne [of "0x02C", simplified]
  isp_off_ne [of "0x03C", simplified] isp_off_ne [of "0x040", simplified] isp_off_ne [of "0x104", simplified]

lemma isp_ctrl_plain: "off64 isp_ctrl \<noteq> 0x03C" "off64 isp_ctrl \<noteq> 0x040" "off64 isp_ctrl \<noteq> 0x104"
  by (simp_all add: off64_eval)

lemmas isp_exec = mmio_simps isp_plain isp_ctrl_plain

section \<open>Properties\<close>

text \<open>
  The power-on BIT on the modelled block, in any of its states: it reports the first check that
  fails, in the documented order, and passes otherwise; the self-clearing reset means the third check
  cannot fail; the temperature is read as a signed number.
\<close>

lemma power_on_bit_result:
  assumes "length ws = 1024"
  shows "fst (power_on_bit (fake_backend c) (isp_at c model ws cell n f)) =
    (if ws ! 0 \<noteq> kIdMagic then fail hal_id_mismatch ''bit: ID''
     else if drop_bit 16 (ws ! 1) \<noteq> 1 then fail hal_id_mismatch ''bit: VERSION.major''
     else if sint (ws ! 12) < - 40000 \<or> 105000 < sint (ws ! 12) then fail bit_poweron ''bit: TEMP_MC''
     else Inr ())"
  using assms by (simp add: power_on_bit_def isp_exec isp_bits)

lemma power_on_bit_result_witness:
  "fst (power_on_bit (fake_backend (steady_every 0)) (isp_device (steady_every 0) isp_model_default)) = Inr ()"
  unfolding isp_device_at
  by (subst power_on_bit_result)
    (simp_all add: isp_reset_words_def kIdMagic_def drop_bit_eq_div)

text \<open>
  \<^verbatim>\<open>CTRL\<close>: a write with \<^verbatim>\<open>SW_RESET\<close> clears itself, stops the block and restores
  the gain, but leaves the frame geometry and the interrupt state as they were; any other write is
  stored, and \<^verbatim>\<open>RUNNING\<close> follows \<^verbatim>\<open>ENABLE\<close> without touching the other status bits.
\<close>

lemma ctrl_write:
  assumes "length ws = 1024"
  shows "let bk = fake_backend c;
             m = isp_at c model ws cell n f;
             m' = reg_write bk isp_ctrl v m;
             rd = (\<lambda>r. fst (reg_read bk r m'))
    in (if v AND ctrl_sw_reset \<noteq> 0
        then rd isp_ctrl = 0 \<and> rd isp_status = 0 \<and> rd isp_frame_cnt = 0 \<and> rd isp_gain = 0x0100
        else rd isp_ctrl = v \<and> rd isp_gain = ws ! 4
           \<and> rd isp_status AND status_running = (if v AND ctrl_enable \<noteq> 0 then status_running else 0)
           \<and> rd isp_status AND NOT status_running = ws ! 3 AND NOT status_running)
      \<and> rd isp_frame_w = ws ! 6 \<and> rd isp_frame_h = ws ! 7 \<and> rd isp_irq_stat = ws ! 10
      \<and> rd isp_irq_en = ws ! 9"
  using assms
  by (simp add: Let_def isp_exec bit.conj_disj_distrib2 and.assoc)

lemma ctrl_write_witness:
  "let bk = fake_backend (steady_every 0);
       m' = reg_write bk isp_ctrl 4 (reg_write bk isp_frame_w 640 (isp_device (steady_every 0) isp_model_default))
    in fst (reg_read bk isp_ctrl m') = 0 \<and> fst (reg_read bk isp_frame_w m') = 640"
proof -
  have w: "reg_write (fake_backend (steady_every 0)) isp_frame_w 640
      (isp_device (steady_every 0) isp_model_default)
    = isp_at (steady_every 0) isp_model_default (isp_reset_words[6 := 640]) isp_reset_cell 0 0"
    by (simp add: isp_device_at isp_exec)
  have "length (isp_reset_words[6 := 640]) = 1024" by simp
  from ctrl_write [OF this, of "steady_every 0" isp_model_default isp_reset_cell 0 0 4] show ?thesis
    by (simp only: Let_def w) (simp add: ctrl_sw_reset_def)
qed

text \<open>
  \<^verbatim>\<open>IRQ_CLR\<close> is write-1-to-clear: exactly the written bits leave \<^verbatim>\<open>STATUS\<close>
  and \<^verbatim>\<open>IRQ_STAT\<close>, nothing else changes, and a direct write to either register is ignored
  and counted as a fault.
\<close>

lemma irq_clear:
  assumes "length ws = 1024"
  shows "let bk = fake_backend c; m = isp_at c model ws cell n f
    in reg_write bk isp_irq_clr v m
         = isp_at c model (ws[11 := 0, 3 := ws ! 3 AND NOT v, 10 := ws ! 10 AND NOT v]) cell n f
     \<and> reg_write bk isp_status v m = isp_at c model ws cell n (f + 1)
     \<and> reg_write bk isp_irq_stat v m = isp_at c model ws cell n (f + 1)"
  using assms by (simp add: Let_def isp_exec)

text \<open>The coefficient window as the software uses it: a loop over \<^verbatim>\<open>DATA\<close>.\<close>

fun table_put :: "'s backend \<Rightarrow> u32 list \<Rightarrow> 's \<Rightarrow> 's" where
  "table_put bk [] s = s"
| "table_put bk (v # vs) s = table_put bk vs (reg_write bk isp_nuc_table_data v s)"

fun table_get :: "'s backend \<Rightarrow> nat \<Rightarrow> 's \<Rightarrow> u32 list \<times> 's" where
  "table_get bk 0 s = ([], s)"
| "table_get bk (Suc k) s =
     (case reg_read bk isp_nuc_table_data s of (v, s1) \<Rightarrow>
        case table_get bk k s1 of (vs, s2) \<Rightarrow> (v # vs, s2))"

lemma mask16: "unat ((of_nat i :: u32) AND 0xFFFF) = i" if "i < 65536"
proof -
  have "(0xFFFF :: u32) = mask 16" by (simp add: mask_eq_exp_minus_1)
  then have "(of_nat i :: u32) AND 0xFFFF = take_bit 16 (of_nat i)" by (simp only: take_bit_eq_mask)
  then have "unat ((of_nat i :: u32) AND 0xFFFF) = take_bit 16 (unat (of_nat i :: u32))"
    by (simp only: unsigned_take_bit_eq)
  also have "\<dots> = i" using that by (simp add: unat_of_nat take_bit_eq_mod)
  finally show ?thesis .
qed

lemma mask16_word: "(of_nat i :: u32) AND 0xFFFF = of_nat i" if "i < 65536"
  using mask16 [OF that] that by (simp add: word_unat_eq_iff unat_of_nat)

lemma table_put_at:
  "length ws = 1024 \<Longrightarrow> ws ! 64 = of_nat i \<Longrightarrow> length (ic_table cell) = 1024 \<Longrightarrow> i + length vs \<le> 1024 \<Longrightarrow>
   \<exists>ws'. length ws' = 1024 \<and> table_put (fake_backend c) vs (isp_at c model ws cell n f)
     = isp_at c model ws' (cell\<lparr>ic_table := take i (ic_table cell) @ map (\<lambda>v. v AND 0xFFFF) vs
         @ drop (i + length vs) (ic_table cell)\<rparr>) n f"
proof (induction vs arbitrary: ws i cell)
  case Nil
  then show ?case by (intro exI [of _ ws]) simp
next
  case (Cons v vs)
  let ?ws = "ws[65 := v, 64 := of_nat (Suc i)]"
  let ?cell = "cell\<lparr>ic_table := (ic_table cell)[i := v AND 0xFFFF]\<rparr>"
  have step: "reg_write (fake_backend c) isp_nuc_table_data v (isp_at c model ws cell n f)
      = isp_at c model ?ws ?cell n f"
    using Cons.prems mask16 [of i] mask16_word [of i] by (simp add: isp_exec add.commute)
  have t: "take (Suc i) ((ic_table cell)[i := x]) = take i (ic_table cell) @ [x]" for x
    using Cons.prems by (simp add: take_Suc_conv_app_nth)
  have d: "drop (Suc (i + length vs)) ((ic_table cell)[i := x]) = drop (Suc (i + length vs)) (ic_table cell)" for x
    by simp
  show ?case using Cons.IH [of ?ws "Suc i" ?cell] Cons.prems
    unfolding table_put.simps step by (simp add: t d)
qed

lemma table_get_at:
  "length ws = 1024 \<Longrightarrow> ws ! 64 = of_nat i \<Longrightarrow> i + k \<le> 65536 \<Longrightarrow>
   fst (table_get (fake_backend c) k (isp_at c model ws cell n f)) = map (table_entry cell) [i..<i + k]"
proof (induction k arbitrary: ws i)
  case 0
  then show ?case by simp
next
  case (Suc k)
  let ?ws = "ws[65 := table_entry cell i, 64 := of_nat (Suc i)]"
  have step: "reg_read (fake_backend c) isp_nuc_table_data (isp_at c model ws cell n f)
      = (table_entry cell i, isp_at c model ?ws cell n f)"
    using Suc.prems mask16 [of i] mask16_word [of i] by (simp add: isp_exec add.commute)
  have "fst (table_get (fake_backend c) k (isp_at c model ?ws cell n f)) = map (table_entry cell) [Suc i..<Suc i + k]"
    using Suc.prems by (intro Suc.IH) simp_all
  moreover have "[i..<i + Suc k] = i # [Suc i..<Suc i + k]" by (simp add: upt_conv_Cons)
  ultimately show ?case
    unfolding table_get.simps step by (simp add: case_prod_unfold del: upt_Suc)
qed

text \<open>
  C37. A coefficient table written through the auto-incrementing window and read back through it comes
  back entry for entry, cut to the 16 bits the window carries, for tables of up to the block's 1024
  entries.
\<close>

theorem table_roundtrip:
  assumes "length ws = 1024" and "length (ic_table cell) = 1024" and "length vs \<le> 1024"
  shows "let bk = fake_backend c;
             m = isp_at c model ws cell n f;
             m' = table_put bk vs (reg_write bk isp_nuc_table_addr 0 m)
    in fst (table_get bk (length vs) (reg_write bk isp_nuc_table_addr 0 m')) = map (\<lambda>v. v AND 0xFFFF) vs"
proof -
  let ?cell = "cell\<lparr>ic_table := map (\<lambda>v. v AND 0xFFFF) vs @ drop (length vs) (ic_table cell)\<rparr>"
  have w0: "reg_write (fake_backend c) isp_nuc_table_addr 0 (isp_at c model us x n f)
      = isp_at c model (us[64 := 0]) x n f" if "length us = 1024" for us x
    using that by (simp add: isp_exec)
  obtain ws' where ws': "length ws' = 1024" "table_put (fake_backend c) vs (isp_at c model (ws[64 := 0]) cell n f)
      = isp_at c model ws' ?cell n f"
    using table_put_at [of "ws[64 := 0]" 0 cell vs c model n f] assms by auto
  have "fst (table_get (fake_backend c) (length vs) (isp_at c model (ws'[64 := 0]) ?cell n f))
      = map (table_entry ?cell) [0..<0 + length vs]"
    using ws'(1) assms(3) by (intro table_get_at) simp_all
  also have "\<dots> = map (\<lambda>v. v AND 0xFFFF) vs"
    by (rule nth_equalityI) (simp_all add: table_entry_def nth_append)
  finally show ?thesis using ws' assms(1) by (simp only: Let_def w0)
qed

theorem table_roundtrip_witness:
  "let bk = fake_backend (steady_every 0); m = isp_device (steady_every 0) isp_model_default;
       m' = table_put bk [7, 0x12345] (reg_write bk isp_nuc_table_addr 0 m)
    in fst (table_get bk 2 (reg_write bk isp_nuc_table_addr 0 m')) = [7, 0x2345]"
  unfolding isp_device_at
  using table_roundtrip [of isp_reset_words isp_reset_cell "[7, 0x12345]" "steady_every 0" isp_model_default 0 0]
  by (simp add: Let_def numeral_2_eq_2)

end
