(* ===== verification/Sensor_Nuc.thy ===== *)
theory Sensor_Nuc
  imports Hal_Isp
begin

text \<open>
  \<^verbatim>\<open>modules/sensor/include/optronic/sensor/nuc.hpp\<close>: the shutter correction. The procedure is
  generic in the backend, so it is defined over a backend record; the polling loop is a partial
  function whose value is \<open>None\<close> if it never returns, and that it returns is proved from the contract
  of a polled window. Times are nanoseconds; the result's duration is in milliseconds.
\<close>

section \<open>The procedure\<close>

record nuc_config =
  nc_log2_frames :: u32
  nc_shutter_timeout :: int
  nc_accumulate_timeout :: int
  nc_table_entries :: u32

definition nuc_config_default :: nuc_config where
  "nuc_config_default = \<lparr>nc_log2_frames = 4, nc_shutter_timeout = 150000000,
     nc_accumulate_timeout = 400000000, nc_table_entries = 256\<rparr>"

record nuc_result =
  nr_duration :: int
  nr_entries :: u32
  nr_mean_offset :: int

partial_function (option) poll_loop ::
  "'s backend \<Rightarrow> ('s \<Rightarrow> bool \<times> 's) \<Rightarrow> int \<Rightarrow> 's \<Rightarrow> (bool \<times> 's) option" where
  "poll_loop bk pred deadline s =
     (case pred s of (b, s1) \<Rightarrow>
        if b then Some (True, s1)
        else case bk_now bk s1 of (now, s2) \<Rightarrow>
          if now \<ge> deadline then Some (False, s2) else poll_loop bk pred deadline s2)"

definition poll_until :: "'s backend \<Rightarrow> ('s \<Rightarrow> bool \<times> 's) \<Rightarrow> int \<Rightarrow> 's \<Rightarrow> (bool \<times> 's) option" where
  "poll_until bk pred tmo s =
     (case bk_now bk s of (now, s1) \<Rightarrow> poll_loop bk pred (now + tmo) s1)"

definition open_shutter :: "'s backend \<Rightarrow> 's \<Rightarrow> 's" where
  "open_shutter bk s = reg_write bk isp_shutter 0 s"

definition not_busy :: "'s backend \<Rightarrow> 's \<Rightarrow> bool \<times> 's" where
  "not_busy bk s = (case any_bit bk isp_shutter shutter_busy s of (b, s1) \<Rightarrow> (\<not> b, s1))"

definition acc_done :: "'s backend \<Rightarrow> 's \<Rightarrow> bool \<times> 's" where
  "acc_done bk s = any_bit bk isp_nuc_acc_ctrl nuc_done s"

fun sum_table :: "'s backend \<Rightarrow> nat \<Rightarrow> int \<Rightarrow> 's \<Rightarrow> int \<times> 's" where
  "sum_table bk 0 tot s = (tot, s)"
| "sum_table bk (Suc k) tot s =
     (case reg_read bk isp_nuc_table_data s of (v, s1) \<Rightarrow>
        sum_table bk k (tot + uint (v AND 0xFFFF)) s1)"

definition run_nuc :: "'s backend \<Rightarrow> nuc_config \<Rightarrow> 's \<Rightarrow> (nuc_result expected \<times> 's) option" where
  "run_nuc bk cfg s =
    (case bk_now bk s of (started, s0) \<Rightarrow>
     case any_bit bk isp_shutter shutter_fault s0 of (faulty, s1) \<Rightarrow>
     if faulty then Some (fail hal_shutter ''nuc: shutter reports FAULT'', s1)
     else Option.bind (poll_until bk (not_busy bk) (nc_shutter_timeout cfg)
                         (reg_write bk isp_shutter shutter_close s1)) (\<lambda>(closed, s2).
     if \<not> closed then Some (fail hal_shutter ''nuc: shutter did not close'', open_shutter bk s2)
     else let acc = nuc_start OR (push_bit log2n_shift (nc_log2_frames cfg) AND log2n_mask)
     in Option.bind (poll_until bk (acc_done bk) (nc_accumulate_timeout cfg)
                       (reg_write bk isp_nuc_acc_ctrl acc s2)) (\<lambda>(accumulated, s3).
     if \<not> accumulated then Some (fail timeout ''nuc: accumulation did not finish'', open_shutter bk s3)
     else case sum_table bk (unat (nc_table_entries cfg)) 0 (reg_write bk isp_nuc_table_addr 0 s3) of (tot, s4) \<Rightarrow>
     Option.bind (poll_until bk (not_busy bk) (nc_shutter_timeout cfg) (open_shutter bk s4)) (\<lambda>(opened, s5).
     if \<not> opened then Some (fail hal_shutter ''nuc: shutter did not reopen'', s5)
     else case bk_now bk s5 of (now, s6) \<Rightarrow>
       Some (Inr \<lparr>nr_duration = (now - started) div 1000000,
                  nr_entries = nc_table_entries cfg,
                  nr_mean_offset = (if nc_table_entries cfg > 0
                                    then tot div uint (nc_table_entries cfg) else 0)\<rparr>, s6)))))"

section \<open>It returns, on every window whose clock moves\<close>

context polled_window
begin

lemma poll_loop_returns:
  assumes pred_ok: "\<And>s. okd s \<Longrightarrow> okd (snd (pred s)) \<and> reads s \<le> reads (snd (pred s))"
    and "okd s"
  shows "\<exists>b s'. poll_loop bk pred deadline s = Some (b, s') \<and> okd s' \<and> reads s \<le> reads s'"
proof -
  obtain N where N: "deadline \<le> reading c N" using reading_unbounded by blast
  from \<open>okd s\<close> show ?thesis
  proof (induction "N - reads s" arbitrary: s rule: less_induct)
    case less
    obtain b s1 where p: "pred s = (b, s1)" by fastforce
    have s1: "okd s1" "reads s \<le> reads s1" using pred_ok [OF less.prems] p by simp_all
    obtain t s2 where n: "bk_now bk s1 = (t, s2)" by fastforce
    have s2: "okd s2" "t = reading c (reads s1)" "reads s2 = Suc (reads s1)"
      using now_ok [OF s1(1)] now_reading [OF s1(1)] now_reads [OF s1(1)] n by simp_all
    show ?case
    proof (cases "b \<or> deadline \<le> t")
      case True
      then show ?thesis using p n s1 s2 by (subst poll_loop.simps) auto
    next
      case False
      then have "reads s1 < N" using N s2(2) reading_mono [of N "reads s1" c] by (cases "reads s1 < N") auto
      then have "N - reads s2 < N - reads s" using s1 s2 by linarith
      from less.hyps [OF this s2(1)] show ?thesis
        using p n False s1 s2 by (subst poll_loop.simps) auto
    qed
  qed
qed

lemma poll_until_returns:
  assumes "\<And>s. okd s \<Longrightarrow> okd (snd (pred s)) \<and> reads s \<le> reads (snd (pred s))" and "okd s"
  shows "\<exists>b s'. poll_until bk pred tmo s = Some (b, s') \<and> okd s'"
  using poll_loop_returns [OF assms(1) now_ok [OF assms(2)]]
  by (simp add: poll_until_def case_prod_beta) blast

lemma not_busy_ok: "okd s \<Longrightarrow> okd (snd (not_busy bk s)) \<and> reads s \<le> reads (snd (not_busy bk s))"
  using any_bit_ok [of s isp_shutter] any_bit_reads [of s isp_shutter]
  by (simp add: not_busy_def case_prod_beta)

lemma acc_done_ok: "okd s \<Longrightarrow> okd (snd (acc_done bk s)) \<and> reads s \<le> reads (snd (acc_done bk s))"
  using any_bit_ok [of s isp_nuc_acc_ctrl] any_bit_reads [of s isp_nuc_acc_ctrl]
  by (simp add: acc_done_def)

lemma sum_table_ok: "okd s \<Longrightarrow> okd (snd (sum_table bk k tot s))"
proof (induction k arbitrary: tot s)
  case 0
  then show ?case by simp
next
  case (Suc k)
  then show ?case using read_ok [OF Suc.prems, of isp_nuc_table_data] by (auto split: prod.splits)
qed

lemma run_nuc_returns:
  assumes "okd s"
  shows "\<exists>res s'. run_nuc bk cfg s = Some (res, s') \<and> okd s'"
proof -
  obtain t0 s0 where s0: "bk_now bk s = (t0, s0)" "okd s0" using now_ok [OF assms] by (metis prod.collapse)
  obtain b s1 where s1: "any_bit bk isp_shutter shutter_fault s0 = (b, s1)" "okd s1"
    using any_bit_ok [OF s0(2)] by (metis prod.collapse)
  obtain b2 s2 where s2: "poll_until bk (not_busy bk) (nc_shutter_timeout cfg)
      (reg_write bk isp_shutter shutter_close s1) = Some (b2, s2)" "okd s2"
    using poll_until_returns [OF not_busy_ok write_ok [OF s1(2)]] by blast
  let ?acc = "nuc_start OR (push_bit log2n_shift (nc_log2_frames cfg) AND log2n_mask)"
  obtain b3 s3 where s3: "poll_until bk (acc_done bk) (nc_accumulate_timeout cfg)
      (reg_write bk isp_nuc_acc_ctrl ?acc s2) = Some (b3, s3)" "okd s3"
    using poll_until_returns [OF acc_done_ok write_ok [OF s2(2)]] by blast
  obtain tot s4 where s4: "sum_table bk (unat (nc_table_entries cfg)) 0
      (reg_write bk isp_nuc_table_addr 0 s3) = (tot, s4)" "okd s4"
    using sum_table_ok [OF write_ok [OF s3(2)]] by (metis prod.collapse)
  have o4: "okd (open_shutter bk s4)" using write_ok [OF s4(2)] by (simp add: open_shutter_def)
  obtain b5 s5 where s5: "poll_until bk (not_busy bk) (nc_shutter_timeout cfg) (open_shutter bk s4)
      = Some (b5, s5)" "okd s5"
    using poll_until_returns [OF not_busy_ok o4] by blast
  obtain t6 s6 where s6: "bk_now bk s5 = (t6, s6)" "okd s6" using now_ok [OF s5(2)] by (metis prod.collapse)
  show ?thesis
    using s0 s1 s2 s3 s4 s5 s6 write_ok [OF s2(2)] write_ok [OF s3(2)]
    by (simp add: run_nuc_def Let_def open_shutter_def)
qed

end

section \<open>Recording what is written\<close>

text \<open>A backend that also keeps the list of all register writes, to state what software commanded.\<close>

definition logged :: "'s backend \<Rightarrow> ('s \<times> (u64 \<times> u32) list) backend" where
  "logged bk = \<lparr>
     bk_read = (\<lambda>off (s, l). case bk_read bk off s of (v, s1) \<Rightarrow> (v, (s1, l))),
     bk_write = (\<lambda>off v (s, l). (bk_write bk off v s, l @ [(off, v)])),
     bk_now = (\<lambda>(s, l). case bk_now bk s of (t, s1) \<Rightarrow> (t, (s1, l)))\<rparr>"

lemma logged_simps [simp]:
  "reg_read (logged bk) r (s, l) = (case reg_read bk r s of (v, s1) \<Rightarrow> (v, (s1, l)))"
  "reg_write (logged bk) r v (s, l) = (reg_write bk r v s, l @ [(off64 r, v)])"
  "bk_now (logged bk) (s, l) = (case bk_now bk s of (t, s1) \<Rightarrow> (t, (s1, l)))"
  by (simp_all add: logged_def reg_read_def reg_write_def)

context polled_window
begin

lemma logged_window: "polled_window (logged bk) inside (\<lambda>x. okd (fst x)) c (\<lambda>x. reads (fst x))"
  by unfold_locales
    (auto simp: case_prod_beta read_outside read_ok write_ok now_ok now_reading now_reads
      read_reads write_reads)

end

lemma poll_loop_keeps_log:
  fixes bk :: "'s backend" and f :: "'s \<Rightarrow> 'l"
  assumes ret: "poll_loop bk pred deadline s = Some r"
    and keep: "\<And>s. f (snd (pred s)) = f s" "\<And>s. f (snd (bk_now bk s)) = f s"
  shows "f (snd r) = f s"
proof -
  let ?P = "\<lambda>bk pred (deadline :: int) s r. (\<forall>s. f (snd (pred s)) = f s) \<longrightarrow>
     (\<forall>s. f (snd (bk_now bk s)) = f s) \<longrightarrow> f (snd (r :: bool \<times> 's)) = f s"
  have "?P bk pred deadline s r"
  proof (rule poll_loop.raw_induct [where P = ?P, OF _ ret], intro impI)
    fix loop :: "'s backend \<Rightarrow> ('s \<Rightarrow> bool \<times> 's) \<Rightarrow> int \<Rightarrow> 's \<Rightarrow> (bool \<times> 's) option"
      and bk :: "'s backend" and pred deadline s y
    assume IH: "\<And>bk pred deadline s y. loop bk pred deadline s = Some y \<Longrightarrow> ?P bk pred deadline s y"
      and body: "(case pred s of (b, s1) \<Rightarrow> if b then Some (True, s1)
          else case bk_now bk s1 of (now, s2) \<Rightarrow>
            if deadline \<le> now then Some (False, s2) else loop bk pred deadline s2) = Some y"
      and k: "\<forall>s. f (snd (pred s)) = f s" "\<forall>s. f (snd (bk_now bk s)) = f s"
    obtain b s1 where p: "pred s = (b, s1)" by fastforce
    obtain t s2 where n: "bk_now bk s1 = (t, s2)" by fastforce
    have f: "f s1 = f s" "f s2 = f s1"
      using k(1) [rule_format, of s] k(2) [rule_format, of s1] p n by simp_all
    have "y = (True, s1) \<or> y = (False, s2) \<or> loop bk pred deadline s2 = Some y"
      using body p n by (simp split: if_splits)
    then consider "y = (True, s1)" | "y = (False, s2)" | "loop bk pred deadline s2 = Some y" by blast
    then show "f (snd y) = f s"
    proof cases
      case 3
      from IH [OF this] k f show ?thesis by simp
    qed (use f in simp_all)
  qed
  then show ?thesis using keep by blast
qed

lemma logged_now: "snd (snd (bk_now (logged bk) x)) = snd x"
  by (cases x) (simp add: case_prod_beta)

lemma poll_until_keeps_log:
  assumes "poll_until (logged bk) pred tmo (s, l) = Some (b, (s', l'))"
    and "\<And>s. snd (snd (pred s)) = snd s"
  shows "l' = l"
proof -
  obtain t s1 where n: "bk_now bk s = (t, s1)" by fastforce
  have "poll_loop (logged bk) pred (t + tmo) (s1, l) = Some (b, (s', l'))"
    using assms(1) n by (simp add: poll_until_def)
  then have "snd (snd (b, (s', l'))) = snd (s1, l)"
    by (rule poll_loop_keeps_log [where f = snd]) (rule assms(2) logged_now)+
  then show ?thesis by simp
qed

lemma logged_any_bit [simp]:
  "any_bit (logged bk) r m (s, l) = (case any_bit bk r m s of (b, s1) \<Rightarrow> (b, (s1, l)))"
  by (simp add: any_bit_def case_prod_beta)

lemma logged_preds:
  "snd (snd (not_busy (logged bk) x)) = snd x" "snd (snd (acc_done (logged bk) x)) = snd x"
  by (cases x; simp add: not_busy_def acc_done_def case_prod_beta)+

lemma logged_sum_table: "snd (snd (sum_table (logged bk) k tot x)) = snd x"
proof (induction k arbitrary: tot x)
  case 0
  then show ?case by simp
next
  case (Suc k)
  then show ?case by (cases x) (simp add: case_prod_beta)
qed

definition shutter_writes :: "(u64 \<times> u32) list \<Rightarrow> u32 list" where
  "shutter_writes ws = map snd (filter (\<lambda>(off, v). off = off64 isp_shutter) ws)"

lemma shutter_writes_simps [simp]:
  "shutter_writes [] = []" "shutter_writes (ws @ ws') = shutter_writes ws @ shutter_writes ws'"
  "shutter_writes ((off64 isp_shutter, v) # ws) = v # shutter_writes ws"
  "shutter_writes ((off64 isp_nuc_acc_ctrl, v) # ws) = shutter_writes ws"
  "shutter_writes ((off64 isp_nuc_table_addr, v) # ws) = shutter_writes ws"
  by (simp_all add: shutter_writes_def) (simp_all add: off64_def isp_regs)

lemma run_nuc_writes:
  assumes "run_nuc (logged bk) cfg (s, l) = Some (res, (s', l'))"
  shows "shutter_writes l' = shutter_writes l @
    (if res = fail hal_shutter ''nuc: shutter reports FAULT'' then [] else [shutter_close, 0])"
proof -
  obtain t0 s0 where s0: "bk_now bk s = (t0, s0)" by fastforce
  obtain b1 s1 where s1: "any_bit bk isp_shutter shutter_fault s0 = (b1, s1)" by fastforce
  show ?thesis
  proof (cases b1)
    case True
    then show ?thesis using assms s0 s1 by (simp add: run_nuc_def)
  next
    case False
    let ?l1 = "l @ [(off64 isp_shutter, shutter_close)]"
    let ?acc = "nuc_start OR (push_bit log2n_shift (nc_log2_frames cfg) AND log2n_mask)"
    obtain b2 s2 l2 where p2: "poll_until (logged bk) (not_busy (logged bk)) (nc_shutter_timeout cfg)
        (reg_write bk isp_shutter shutter_close s1, ?l1) = Some (b2, (s2, l2))"
      using assms s0 s1 False by (auto simp: run_nuc_def bind_eq_Some_conv)
    have l2: "l2 = ?l1" by (rule poll_until_keeps_log [OF p2 logged_preds(1)])
    show ?thesis
    proof (cases b2)
      case False
      then show ?thesis using assms s0 s1 \<open>\<not> b1\<close> p2 l2 by (auto simp: run_nuc_def open_shutter_def)
    next
      case True
      let ?l3 = "?l1 @ [(off64 isp_nuc_acc_ctrl, ?acc)]"
      obtain b3 s3 l3 where p3: "poll_until (logged bk) (acc_done (logged bk)) (nc_accumulate_timeout cfg)
          (reg_write bk isp_nuc_acc_ctrl ?acc s2, ?l3) = Some (b3, (s3, l3))"
        using assms s0 s1 \<open>\<not> b1\<close> p2 l2 True by (auto simp: run_nuc_def Let_def bind_eq_Some_conv)
      have l3: "l3 = ?l3" by (rule poll_until_keeps_log [OF p3 logged_preds(2)])
      show ?thesis
      proof (cases b3)
        case False
        then show ?thesis using assms s0 s1 \<open>\<not> b1\<close> p2 l2 True p3 l3
          by (auto simp: run_nuc_def Let_def open_shutter_def)
      next
        case b3: True
        obtain tot s4 l4 where p4: "sum_table (logged bk) (unat (nc_table_entries cfg)) 0
            (reg_write bk isp_nuc_table_addr 0 s3, l3 @ [(off64 isp_nuc_table_addr, 0)]) = (tot, (s4, l4))"
          by (metis prod_cases3)
        have l4: "l4 = l3 @ [(off64 isp_nuc_table_addr, 0)]"
          using logged_sum_table [of bk "unat (nc_table_entries cfg)" 0
              "(reg_write bk isp_nuc_table_addr 0 s3, l3 @ [(off64 isp_nuc_table_addr, 0)])"] p4 by simp
        obtain b5 s5 l5 where p5: "poll_until (logged bk) (not_busy (logged bk)) (nc_shutter_timeout cfg)
            (reg_write bk isp_shutter 0 s4, l4 @ [(off64 isp_shutter, 0)]) = Some (b5, (s5, l5))"
          using assms s0 s1 \<open>\<not> b1\<close> p2 l2 True p3 l3 b3 p4
          by (auto simp: run_nuc_def Let_def open_shutter_def bind_eq_Some_conv)
        have l5: "l5 = l4 @ [(off64 isp_shutter, 0)]" by (rule poll_until_keeps_log [OF p5 logged_preds(1)])
        show ?thesis using assms s0 s1 \<open>\<not> b1\<close> p2 l2 True p3 l3 b3 p4 l4 p5 l5
          by (auto simp: run_nuc_def Let_def open_shutter_def split: if_splits prod.splits)
      qed
    qed
  qed
qed

section \<open>What is left alone\<close>

text \<open>
  A backend whose control register cannot be written. The correction does the same on it, so whatever
  holds of writes to the other registers holds of the correction.
\<close>

definition ctrl_guarded :: "'s backend \<Rightarrow> 's backend" where
  "ctrl_guarded bk = bk\<lparr>bk_write := (\<lambda>off v s. if off = off64 isp_ctrl then s else bk_write bk off v s)\<rparr>"

lemma guarded_simps [simp]:
  "reg_read (ctrl_guarded bk) r s = reg_read bk r s" "bk_now (ctrl_guarded bk) = bk_now bk"
  "any_bit (ctrl_guarded bk) r m s = any_bit bk r m s"
  by (simp_all add: ctrl_guarded_def reg_read_def any_bit_def)

lemma guarded_preds [simp]: "not_busy (ctrl_guarded bk) = not_busy bk" "acc_done (ctrl_guarded bk) = acc_done bk"
  by (simp_all add: fun_eq_iff not_busy_def acc_done_def)

lemma guarded_sum [simp]: "sum_table (ctrl_guarded bk) k tot s = sum_table bk k tot s"
  by (induction k arbitrary: tot s) (simp_all split: prod.split)

lemma guarded_writes [simp]:
  "reg_write (ctrl_guarded bk) isp_shutter v s = reg_write bk isp_shutter v s"
  "reg_write (ctrl_guarded bk) isp_nuc_acc_ctrl v s = reg_write bk isp_nuc_acc_ctrl v s"
  "reg_write (ctrl_guarded bk) isp_nuc_table_addr v s = reg_write bk isp_nuc_table_addr v s"
  "open_shutter (ctrl_guarded bk) s = open_shutter bk s"
  by (simp_all add: ctrl_guarded_def reg_write_def open_shutter_def off64_def isp_regs)

lemma poll_loop_clock:
  fixes bk :: "'s backend"
  assumes "poll_loop bk pred deadline s = Some r" and "bk_now bk' = bk_now bk"
  shows "poll_loop bk' pred deadline s = Some r"
proof -
  let ?P = "\<lambda>bk pred (deadline :: int) s (r :: bool \<times> 's).
     bk_now bk' = bk_now bk \<longrightarrow> poll_loop bk' pred deadline s = Some r"
  have "?P bk pred deadline s r"
  proof (rule poll_loop.raw_induct [where P = ?P, OF _ assms(1)], intro impI)
    fix loop :: "'s backend \<Rightarrow> ('s \<Rightarrow> bool \<times> 's) \<Rightarrow> int \<Rightarrow> 's \<Rightarrow> (bool \<times> 's) option"
      and bk :: "'s backend" and pred deadline s y
    assume IH: "\<And>bk pred deadline s y. loop bk pred deadline s = Some y \<Longrightarrow> ?P bk pred deadline s y"
      and body: "(case pred s of (b, s1) \<Rightarrow> if b then Some (True, s1)
          else case bk_now bk s1 of (now, s2) \<Rightarrow>
            if deadline \<le> now then Some (False, s2) else loop bk pred deadline s2) = Some y"
      and k: "bk_now bk' = bk_now bk"
    show "poll_loop bk' pred deadline s = Some y"
    proof -
      obtain b s1 where p: "pred s = (b, s1)" by fastforce
      obtain now s2 where n: "bk_now bk s1 = (now, s2)" by fastforce
      show ?thesis
      proof (cases "b \<or> deadline \<le> now")
        case True
        then show ?thesis using body p n k by (subst poll_loop.simps) auto
      next
        case False
        then have "loop bk pred deadline s2 = Some y" using body p n by simp
        with IH k have "poll_loop bk' pred deadline s2 = Some y" by blast
        then show ?thesis using False p n k by (subst poll_loop.simps) auto
      qed
    qed
  qed
  then show ?thesis using assms(2) by blast
qed

lemma poll_until_guarded:
  "poll_until (ctrl_guarded bk) pred tmo s = Some r \<Longrightarrow> poll_until bk pred tmo s = Some r"
  by (auto simp: poll_until_def split: prod.splits intro: poll_loop_clock)

lemma run_nuc_guarded:
  assumes "run_nuc (ctrl_guarded bk) cfg s = Some r"
  shows "run_nuc bk cfg s = Some r"
proof -
  obtain t0 s0 where s0: "bk_now bk s = (t0, s0)" by fastforce
  obtain b s1 where s1: "any_bit bk isp_shutter shutter_fault s0 = (b, s1)" by fastforce
  show ?thesis
  proof (cases b)
    case True
    then show ?thesis using assms s0 s1 by (simp add: run_nuc_def)
  next
    case b: False
    obtain b2 s2 where p2: "poll_until (ctrl_guarded bk) (not_busy bk) (nc_shutter_timeout cfg)
        (reg_write bk isp_shutter shutter_close s1) = Some (b2, s2)"
      using assms s0 s1 b by (auto simp: run_nuc_def bind_eq_Some_conv)
    note q2 = poll_until_guarded [OF p2]
    show ?thesis
    proof (cases b2)
      case False
      then show ?thesis using assms s0 s1 b p2 q2 by (simp add: run_nuc_def)
    next
      case b2: True
      let ?acc = "nuc_start OR (push_bit log2n_shift (nc_log2_frames cfg) AND log2n_mask)"
      obtain b3 s3 where p3: "poll_until (ctrl_guarded bk) (acc_done bk) (nc_accumulate_timeout cfg)
          (reg_write bk isp_nuc_acc_ctrl ?acc s2) = Some (b3, s3)"
        using assms s0 s1 b p2 b2 by (auto simp: run_nuc_def Let_def bind_eq_Some_conv)
      note q3 = poll_until_guarded [OF p3]
      obtain tot s4 where s4: "sum_table bk (unat (nc_table_entries cfg)) 0 (reg_write bk isp_nuc_table_addr 0 s3) = (tot, s4)"
        by fastforce
      show ?thesis
      proof (cases b3)
        case False
        then show ?thesis using assms s0 s1 b p2 q2 b2 p3 q3 by (simp add: run_nuc_def Let_def)
      next
        case b3: True
        obtain b5 s5 where p5: "poll_until (ctrl_guarded bk) (not_busy bk) (nc_shutter_timeout cfg) (open_shutter bk s4)
            = Some (b5, s5)"
          using assms s0 s1 b p2 b2 p3 b3 s4 by (auto simp: run_nuc_def Let_def bind_eq_Some_conv)
        show ?thesis using assms s0 s1 b p2 q2 b2 p3 q3 b3 s4 p5 poll_until_guarded [OF p5]
          by (cases b5) (simp_all add: run_nuc_def Let_def split: prod.splits if_splits)
      qed
    qed
  qed
qed

context polled_window
begin

lemma run_nuc_reopens:
  assumes "okd s"
  shows "\<exists>res s' ws. run_nuc (logged bk) cfg (s, []) = Some (res, (s', ws)) \<and> okd s'
    \<and> shutter_writes ws = (if res = fail hal_shutter ''nuc: shutter reports FAULT'' then []
        else [shutter_close, 0])"
proof -
  obtain res x where r: "run_nuc (logged bk) cfg (s, []) = Some (res, x)" "okd (fst x)"
    using polled_window.run_nuc_returns [OF logged_window, of "(s, [])" cfg] assms by auto
  then show ?thesis using run_nuc_writes [of bk cfg s "[]" res "fst x" "snd x"]
    by (intro exI [of _ res] exI [of _ "fst x"] exI [of _ "snd x"]) auto
qed

end

section \<open>On the modelled block\<close>

text \<open>
  One poll of \<^verbatim>\<open>BUSY\<close> or \<^verbatim>\<open>DONE\<close> either sees the event, or finds the clock short of
  it; with clock steps no longer than \<open>gap\<close>, an event due at least \<open>gap\<close> before the deadline is seen.
\<close>

definition clock_gap :: "steady \<Rightarrow> int \<Rightarrow> bool" where
  "clock_gap c gap \<longleftrightarrow> (\<forall>n. reading c (Suc n) \<le> reading c n + gap)"

lemma clock_gapD: "clock_gap c gap \<Longrightarrow> reading c (Suc n) \<le> reading c n + gap"
  by (simp add: clock_gap_def)

lemma poll_loop_sees:
  assumes now: "\<And>n. bk_now bk (st n) = (reading c n, st (Suc n))"
    and seen: "\<And>n. due \<le> reading c n \<Longrightarrow> pred (st n) = (True, fin n)"
    and wait: "\<And>n. reading c n < due \<Longrightarrow> pred (st n) = (False, st (Suc n))"
    and gap: "clock_gap c gap" "due + gap \<le> deadline"
  shows "\<exists>k. n \<le> k \<and> poll_loop bk pred deadline (st n) = Some (True, fin k)"
proof -
  obtain N where N: "due \<le> reading c N" using reading_unbounded by blast
  show ?thesis
  proof (induction "N - n" arbitrary: n rule: less_induct)
    case less
    show ?case
    proof (cases "due \<le> reading c n")
      case True
      then show ?thesis using seen by (subst poll_loop.simps) auto
    next
      case False
      then have nN: "n < N" using N reading_mono [of N n c] by (cases "n < N") auto
      then obtain k where k: "Suc (Suc n) \<le> k" "poll_loop bk pred deadline (st (Suc (Suc n))) = Some (True, fin k)"
        using less [of "Suc (Suc n)", OF diff_less_mono2 [OF _ nN]] by auto
      have "\<not> deadline \<le> reading c (Suc n)" using False gap clock_gapD [OF gap(1), of n] by linarith
      then show ?thesis using k False wait [of n] now [of "Suc n"]
        by (subst poll_loop.simps) (auto intro!: exI [of _ k])
    qed
  qed
qed

lemma poll_loop_expires:
  assumes now: "\<And>n. bk_now bk (st n) = (reading c n, st (Suc n))"
    and wait: "\<And>n. pred (st n) = (False, st n)"
  shows "\<exists>k. n \<le> k \<and> poll_loop bk pred deadline (st n) = Some (False, st k)"
proof -
  obtain N where N: "deadline \<le> reading c N" using reading_unbounded by blast
  show ?thesis
  proof (induction "N - n" arbitrary: n rule: less_induct)
    case less
    show ?case
    proof (cases "deadline \<le> reading c n")
      case True
      then show ?thesis using wait [of n] now [of n] by (subst poll_loop.simps) (auto intro!: exI [of _ "Suc n"])
    next
      case False
      then have nN: "n < N" using N reading_mono [of N n c] by (cases "n < N") auto
      then obtain k where "Suc n \<le> k" "poll_loop bk pred deadline (st (Suc n)) = Some (False, st k)"
        using less [of "Suc n", OF diff_less_mono2 [OF _ nN]] by auto
      then show ?thesis using False wait [of n] now [of n]
        by (subst poll_loop.simps) (auto intro!: exI [of _ k])
    qed
  qed
qed

lemma isp_now: "fake_now c (isp_at c model ws cell n f) = (reading c n, isp_at c model ws cell (Suc n) f)"
  by (simp add: fake_now_def dev_now_def isp_at_def)

declare isp_now [mmio_simps]

lemma busy_cleared [simp]: "(w AND NOT shutter_busy) AND shutter_busy = 0"
  by (simp add: and.assoc)

lemma poll_not_busy:
  assumes "length ws = 1024" and "\<not> im_shutter_jams model" and "ws ! 15 AND shutter_busy \<noteq> 0"
    and "clock_gap c gap" and "ic_shutter_ready cell + gap \<le> reading c n + tmo"
  shows "\<exists>k>n. poll_until (fake_backend c) (not_busy (fake_backend c)) tmo (isp_at c model ws cell n f)
    = Some (True, isp_at c model (ws[15 := ws ! 15 AND NOT shutter_busy]) cell k f)"
proof -
  let ?fin = "\<lambda>k. isp_at c model (ws[15 := ws ! 15 AND NOT shutter_busy]) cell (Suc k) f"
  have "\<exists>k. Suc n \<le> k \<and> poll_loop (fake_backend c) (not_busy (fake_backend c)) (reading c n + tmo)
      (isp_at c model ws cell (Suc n) f) = Some (True, ?fin k)"
    by (rule poll_loop_sees [where due = "ic_shutter_ready cell" and gap = gap])
      (use assms in \<open>simp_all add: isp_exec isp_now not_busy_def any_bit_def\<close>)
  then obtain k where "Suc n \<le> k" "poll_loop (fake_backend c) (not_busy (fake_backend c)) (reading c n + tmo)
      (isp_at c model ws cell (Suc n) f) = Some (True, ?fin k)" by blast
  then show ?thesis by (intro exI [of _ "Suc k"]) (simp add: poll_until_def isp_now)
qed

lemma poll_acc_done:
  assumes "length ws = 1024" and "ws ! 16 AND nuc_start \<noteq> 0" and "ws ! 16 AND nuc_done = 0"
    and "clock_gap c gap" and "ic_accum_ready cell + gap \<le> reading c n + tmo"
  shows "\<exists>k>n. poll_until (fake_backend c) (acc_done (fake_backend c)) tmo (isp_at c model ws cell n f)
    = Some (True, isp_at c model (ws[16 := ws ! 16 OR nuc_done]) cell k f)"
proof -
  let ?fin = "\<lambda>k. isp_at c model (ws[16 := ws ! 16 OR nuc_done]) cell (Suc k) f"
  have d: "(w OR nuc_done) AND nuc_done = nuc_done" for w by (simp add: bit.conj_disj_distrib2)
  have "\<exists>k. Suc n \<le> k \<and> poll_loop (fake_backend c) (acc_done (fake_backend c)) (reading c n + tmo)
      (isp_at c model ws cell (Suc n) f) = Some (True, ?fin k)"
    by (rule poll_loop_sees [where due = "ic_accum_ready cell" and gap = gap])
      (use assms in \<open>simp_all add: isp_exec isp_now acc_done_def any_bit_def d\<close>, simp add: nuc_done_def)
  then obtain k where "Suc n \<le> k" "poll_loop (fake_backend c) (acc_done (fake_backend c)) (reading c n + tmo)
      (isp_at c model ws cell (Suc n) f) = Some (True, ?fin k)" by blast
  then show ?thesis by (intro exI [of _ "Suc k"]) (simp add: poll_until_def isp_now)
qed

lemma mask16_mod: "unat ((w :: u32) AND 0xFFFF) = unat w mod 65536"
proof -
  have "(0xFFFF :: u32) = mask 16" by (simp add: mask_eq_exp_minus_1)
  then have "w AND 0xFFFF = take_bit 16 w" by (simp only: take_bit_eq_mask)
  then have "unat (w AND 0xFFFF) = take_bit 16 (unat w)" by (simp only: unsigned_take_bit_eq)
  then show ?thesis by (simp add: take_bit_eq_mod)
qed

lemma sum_table_at:
  "length ws = 1024 \<Longrightarrow> unat (ws ! 64 AND 0xFFFF) = i mod 65536 \<Longrightarrow>
   \<exists>ws'. length ws' = 1024 \<and> ws' ! 15 = ws ! 15 \<and> ws' ! 16 = ws ! 16
     \<and> sum_table (fake_backend c) k tot (isp_at c model ws cell n f)
     = (tot + (\<Sum>j = i..<i + k. uint (table_entry cell (j mod 65536) AND 0xFFFF)), isp_at c model ws' cell n f)"
proof (induction k arbitrary: ws i tot)
  case 0
  then show ?case by auto
next
  case (Suc k)
  let ?v = "table_entry cell (i mod 65536)"
  let ?ws = "ws[65 := ?v, 64 := (ws ! 64 AND 0xFFFF) + 1]"
  have step: "reg_read (fake_backend c) isp_nuc_table_data (isp_at c model ws cell n f)
      = (?v, isp_at c model ?ws cell n f)"
    using Suc.prems by (simp add: isp_exec)
  have "unat ((ws ! 64 AND 0xFFFF) + 1) = Suc (i mod 65536)"
    using Suc.prems(2) by (simp add: unat_word_ariths)
  then have "unat (?ws ! 64 AND 0xFFFF) = Suc i mod 65536"
    using Suc.prems(1) by (simp add: mask16_mod mod_Suc_eq)
  then obtain ws' where ws': "length ws' = 1024" "ws' ! 15 = ws ! 15" "ws' ! 16 = ws ! 16"
      "sum_table (fake_backend c) k (tot + uint (?v AND 0xFFFF)) (isp_at c model ?ws cell n f)
     = (tot + uint (?v AND 0xFFFF) + (\<Sum>j = Suc i..<Suc i + k. uint (table_entry cell (j mod 65536) AND 0xFFFF)),
        isp_at c model ws' cell n f)"
    using Suc.IH [of ?ws "Suc i" "tot + uint (?v AND 0xFFFF)"] Suc.prems(1) by auto
  have "(\<Sum>j = i..<i + Suc k. uint (table_entry cell (j mod 65536) AND 0xFFFF))
      = uint (?v AND 0xFFFF) + (\<Sum>j = Suc i..<Suc i + k. uint (table_entry cell (j mod 65536) AND 0xFFFF))"
    by (subst sum.atLeast_Suc_lessThan) simp_all
  then show ?case using ws' unfolding sum_table.simps step by (intro exI [of _ ws']) simp
qed

lemma acc_word:
  "(((nuc_start OR x) AND NOT nuc_done) AND nuc_start) = nuc_start"
  "(((nuc_start OR x) AND NOT nuc_done) AND nuc_done) = 0"
proof -
  have "NOT nuc_done AND nuc_start = nuc_start" by (simp add: nuc_done_def nuc_start_def)
  then show "(((nuc_start OR x) AND NOT nuc_done) AND nuc_start) = nuc_start"
    by (simp add: and.assoc word_ao_absorbs)
qed (simp add: and.assoc)

lemma acc_start_bit: "(nuc_start OR x) AND nuc_start \<noteq> 0"
  by (simp add: word_ao_absorbs nuc_start_def)

lemma fault_read_at:
  assumes "length ws = 1024" and "ws ! 15 AND shutter_fault = 0"
  shows "\<exists>ws' k. length ws' = 1024 \<and> n \<le> k \<and>
    any_bit (fake_backend c) isp_shutter shutter_fault (isp_at c model ws cell n f)
      = (False, isp_at c model ws' cell k f)"
proof -
  have "(ws ! 15 AND NOT shutter_busy) AND shutter_fault = 0"
    using assms(2) by (metis and.assoc and.commute and_zero_eq)
  note f = this assms(2)
  consider "im_shutter_jams model"
    | "\<not> im_shutter_jams model" "ic_shutter_ready cell \<le> reading c n"
    | "\<not> im_shutter_jams model" "\<not> ic_shutter_ready cell \<le> reading c n" by blast
  then show ?thesis
  proof cases
    case 1
    then show ?thesis using assms
      by (intro exI [of _ ws] exI [of _ n]) (simp add: any_bit_def isp_exec)
  next
    case 2
    then show ?thesis using assms f
      by (intro exI [of _ "ws[15 := ws ! 15 AND NOT shutter_busy]"] exI [of _ "Suc n"])
        (simp add: any_bit_def isp_exec)
  next
    case 3
    then show ?thesis using assms
      by (intro exI [of _ ws] exI [of _ "Suc n"]) (simp add: any_bit_def isp_exec)
  qed
qed

lemma cell_simps [simp]:
  "table_entry (cell\<lparr>ic_shutter_ready := a\<rparr>) = table_entry cell"
  "table_entry (cell\<lparr>ic_accum_ready := b\<rparr>) = table_entry cell"
  by (rule ext; simp add: table_entry_def)+

lemma close_phase:
  assumes "length ws = 1024" and "\<not> im_shutter_jams model" and "clock_gap c gap"
    and "im_shutter_move model + gap \<le> tmo"
  shows "\<exists>ws' k r. length ws' = 1024 \<and> ws' ! 15 = v AND shutter_close \<and> n \<le> k
    \<and> poll_until (fake_backend c) (not_busy (fake_backend c)) tmo
        (reg_write (fake_backend c) isp_shutter v (isp_at c model ws cell n f))
      = Some (True, isp_at c model ws' (cell\<lparr>ic_shutter_ready := r\<rparr>) k f)"
proof -
  let ?w = "(v AND shutter_close) OR shutter_busy"
  let ?cell = "cell\<lparr>ic_shutter_ready := reading c n + im_shutter_move model\<rparr>"
  have w: "?w AND shutter_busy \<noteq> 0" "?w AND NOT shutter_busy = v AND shutter_close"
  proof -
    show "?w AND shutter_busy \<noteq> 0" by (simp add: word_ao_absorbs shutter_busy_def)
    have "shutter_close AND NOT shutter_busy = shutter_close"
      by (simp add: shutter_close_def shutter_busy_def)
    then show "?w AND NOT shutter_busy = v AND shutter_close"
      by (simp add: bit.conj_disj_distrib2 and.assoc)
  qed
  have "reading c n \<le> reading c (Suc n)" by (rule reading_mono) simp
  then obtain k where "Suc n < k" "poll_until (fake_backend c) (not_busy (fake_backend c)) tmo
      (isp_at c model (ws[15 := ?w]) ?cell (Suc n) f)
    = Some (True, isp_at c model (ws[15 := ?w, 15 := ?w AND NOT shutter_busy]) ?cell k f)"
    using poll_not_busy [of "ws[15 := ?w]" model c gap ?cell "Suc n" tmo f] assms w by auto
  then show ?thesis using assms(1) w
    by (intro exI [of _ "ws[15 := v AND shutter_close]"] exI [of _ k]
        exI [of _ "reading c n + im_shutter_move model"]) (simp add: isp_exec)
qed

lemma accumulate_phase:
  assumes "length ws = 1024" and "clock_gap c gap" and "im_nuc_accumulate model + gap \<le> tmo"
  shows "\<exists>ws' k r. length ws' = 1024 \<and> ws' ! 15 = ws ! 15 \<and> n \<le> k
    \<and> poll_until (fake_backend c) (acc_done (fake_backend c)) tmo
        (reg_write (fake_backend c) isp_nuc_acc_ctrl (nuc_start OR x) (isp_at c model ws cell n f))
      = Some (True, isp_at c model ws' (cell\<lparr>ic_accum_ready := r\<rparr>) k f)"
proof -
  let ?w = "(nuc_start OR x) AND NOT nuc_done"
  let ?cell = "cell\<lparr>ic_accum_ready := reading c n + im_nuc_accumulate model\<rparr>"
  have "reading c n \<le> reading c (Suc n)" by (rule reading_mono) simp
  moreover have "?w AND nuc_start \<noteq> 0" by (simp add: acc_word) (simp add: nuc_start_def)
  ultimately obtain k where "Suc n < k" "poll_until (fake_backend c) (acc_done (fake_backend c)) tmo
      (isp_at c model (ws[16 := ?w]) ?cell (Suc n) f)
    = Some (True, isp_at c model (ws[16 := ?w, 16 := ?w OR nuc_done]) ?cell k f)"
    using poll_acc_done [of "ws[16 := ?w]" c gap ?cell "Suc n" tmo model f] assms acc_word by auto
  then show ?thesis using assms(1) acc_start_bit [of x]
    by (intro exI [of _ "ws[16 := ?w OR nuc_done]"] exI [of _ k]
        exI [of _ "reading c n + im_nuc_accumulate model"]) (simp add: isp_exec)
qed

lemma table_phase:
  assumes "length ws = 1024"
  shows "\<exists>ws'. length ws' = 1024 \<and>
    sum_table (fake_backend c) (unat N) 0 (reg_write (fake_backend c) isp_nuc_table_addr 0 (isp_at c model ws cell n f))
      = ((\<Sum>j<unat (N :: u32). uint (table_entry cell (j mod 65536) AND 0xFFFF)), isp_at c model ws' cell n f)"
proof -
  have "reg_write (fake_backend c) isp_nuc_table_addr 0 (isp_at c model ws cell n f)
      = isp_at c model (ws[64 := 0]) cell n f"
    using assms by (simp add: isp_exec)
  then show ?thesis
    using sum_table_at [of "ws[64 := 0]" 0 c "unat N" 0 model cell n f] assms
    by (auto simp: lessThan_atLeast0)
qed

lemma mean_div: "(if (N :: u32) > 0 then s div uint N else 0) = s div int (unat N)"
  by (cases "N = 0") (simp_all add: word_gt_0)

section \<open>Properties\<close>

text \<open>
  C17. Whatever the device does (any valid \<^verbatim>\<open>FakeMmio\<close> with any hooks, any clock, any
  configuration), \<^verbatim>\<open>run_nuc\<close> returns, and the shutter commands it gave are exactly none when
  it refused to start on \<^verbatim>\<open>FAULT\<close>, and close followed by open in every other outcome, success
  or failure: no path leaves the unit blind.
\<close>

theorem nuc_reopens:
  assumes "fake_ok m"
  shows "\<exists>res m' ws. run_nuc (logged (fake_backend c)) cfg (m, []) = Some (res, (m', ws)) \<and> fake_ok m'
    \<and> shutter_writes ws = (if res = fail hal_shutter ''nuc: shutter reports FAULT'' then []
        else [shutter_close, 0])"
  by (rule fake.run_nuc_reopens [OF assms])

theorem nuc_reopens_witness:
  "\<exists>res m' ws. run_nuc (logged (fake_backend (steady_every 0))) nuc_config_default (fake_ctor (), []) = Some (res, (m', ws))
    \<and> shutter_writes ws \<noteq> [shutter_close]"
  using nuc_reopens [OF fresh_fake_ok [of "()"], of "steady_every 0" nuc_config_default] by (auto split: if_splits)

text \<open>
  C23. On the modelled block, when the shutter is not faulty and does not jam and the timeouts allow
  for the device's delays and the time between two readings of the clock, the correction succeeds: it
  reports as many entries as it was asked for and their exact (truncated) mean over the block's table,
  whose index wraps at 65536, and it leaves the shutter register open and idle.
\<close>

theorem nuc_success:
  assumes "length ws = 1024" and "\<not> im_shutter_jams model" and "ws ! 15 AND shutter_fault = 0"
    and "clock_gap c gap" and "im_shutter_move model + gap \<le> nc_shutter_timeout cfg"
    and "im_nuc_accumulate model + gap \<le> nc_accumulate_timeout cfg"
  shows "\<exists>d ws' cell' n'. run_nuc (fake_backend c) cfg (isp_at c model ws cell n f)
    = Some (Inr \<lparr>nr_duration = d, nr_entries = nc_table_entries cfg,
        nr_mean_offset = (\<Sum>j<unat (nc_table_entries cfg). uint (table_entry cell (j mod 65536) AND 0xFFFF))
          div int (unat (nc_table_entries cfg))\<rparr>, isp_at c model ws' cell' n' f)
    \<and> 0 \<le> d \<and> ws' ! 15 = 0 \<and> n < n'"
proof -
  let ?bk = "fake_backend c"
  obtain ws1 n1 where r1: "length ws1 = 1024" "Suc n \<le> n1"
    "any_bit ?bk isp_shutter shutter_fault (isp_at c model ws cell (Suc n) f) = (False, isp_at c model ws1 cell n1 f)"
    using fault_read_at [OF assms(1,3)] by blast
  obtain ws2 n2 t2 where r2: "length ws2 = 1024" "n1 \<le> n2"
    "poll_until ?bk (not_busy ?bk) (nc_shutter_timeout cfg)
      (reg_write ?bk isp_shutter shutter_close (isp_at c model ws1 cell n1 f))
     = Some (True, isp_at c model ws2 (cell\<lparr>ic_shutter_ready := t2\<rparr>) n2 f)"
    using close_phase [OF r1(1) assms(2,4,5)] by blast
  let ?acc = "nuc_start OR (push_bit log2n_shift (nc_log2_frames cfg) AND log2n_mask)"
  obtain ws3 n3 t3 where r3: "length ws3 = 1024" "n2 \<le> n3"
    "poll_until ?bk (acc_done ?bk) (nc_accumulate_timeout cfg)
      (reg_write ?bk isp_nuc_acc_ctrl ?acc (isp_at c model ws2 (cell\<lparr>ic_shutter_ready := t2\<rparr>) n2 f))
     = Some (True, isp_at c model ws3 (cell\<lparr>ic_shutter_ready := t2, ic_accum_ready := t3\<rparr>) n3 f)"
    using accumulate_phase [OF r2(1) assms(4,6)] by blast
  let ?cell = "cell\<lparr>ic_shutter_ready := t2, ic_accum_ready := t3\<rparr>"
  let ?s = "\<Sum>j<unat (nc_table_entries cfg). uint (table_entry ?cell (j mod 65536) AND 0xFFFF)"
  obtain ws4 where r4: "length ws4 = 1024"
    "sum_table ?bk (unat (nc_table_entries cfg)) 0 (reg_write ?bk isp_nuc_table_addr 0 (isp_at c model ws3 ?cell n3 f))
     = (?s, isp_at c model ws4 ?cell n3 f)"
    using table_phase [OF r3(1)] by blast
  obtain ws5 n5 t5 where r5: "length ws5 = 1024" "ws5 ! 15 = 0 AND shutter_close" "n3 \<le> n5"
    "poll_until ?bk (not_busy ?bk) (nc_shutter_timeout cfg)
      (reg_write ?bk isp_shutter 0 (isp_at c model ws4 ?cell n3 f))
     = Some (True, isp_at c model ws5 (?cell\<lparr>ic_shutter_ready := t5\<rparr>) n5 f)"
    using close_phase [OF r4(1) assms(2,4,5)] by blast
  have d: "0 \<le> (reading c n5 - reading c n) div 1000000"
    using reading_mono [of n n5 c] r1(2) r2(2) r3(2) r5(3) by (simp add: pos_imp_zdiv_nonneg_iff)
  have "run_nuc ?bk cfg (isp_at c model ws cell n f)
    = Some (Inr \<lparr>nr_duration = (reading c n5 - reading c n) div 1000000, nr_entries = nc_table_entries cfg,
        nr_mean_offset = ?s div int (unat (nc_table_entries cfg))\<rparr>,
        isp_at c model ws5 (?cell\<lparr>ic_shutter_ready := t5\<rparr>) (Suc n5) f)"
    unfolding run_nuc_def Let_def open_shutter_def
    by (simp only: fake_reg_simps(3) isp_now prod.case r1(3) r2(3) r3(3) r4(2) r5(4) bind.bind_lunit
        if_False if_True not_True_eq_False mean_div)
  then show ?thesis using d r5(2) r1(2) r2(2) r3(2) r5(3)
    by (intro exI [of _ "(reading c n5 - reading c n) div 1000000"] exI [of _ ws5]
        exI [of _ "?cell\<lparr>ic_shutter_ready := t5\<rparr>"] exI [of _ "Suc n5"]) auto
qed

theorem nuc_success_witness:
  "\<exists>d m'. run_nuc (fake_backend (steady_every 999)) nuc_config_default
      (isp_device (steady_every 999) isp_model_default)
    = Some (Inr \<lparr>nr_duration = d, nr_entries = 256, nr_mean_offset = 0\<rparr>, m') \<and> 0 \<le> d"
proof -
  have g: "clock_gap (steady_every 999) 1000" by (simp add: clock_gap_def reading_steady_every)
  have t: "table_entry isp_reset_cell j = 0" for j by (simp add: table_entry_def isp_reset_cell_def)
  show ?thesis unfolding isp_device_at
    using nuc_success [of isp_reset_words isp_model_default "steady_every 999" 1000 nuc_config_default
        isp_reset_cell 0 0] g t
    by (auto simp: isp_model_default_def nuc_config_default_def isp_reset_words_def)
qed

text \<open>
  C38. When the shutter jams (\<^verbatim>\<open>BUSY\<close> never clears) the correction reports that the shutter
  did not close, whatever the clock and the timeouts, and the last thing it did was to command the
  shutter open.
\<close>

theorem nuc_jam:
  assumes "length ws = 1024" and "im_shutter_jams model" and "ws ! 15 AND shutter_fault = 0"
  shows "\<exists>ws' cell' n'. run_nuc (fake_backend c) cfg (isp_at c model ws cell n f)
    = Some (fail hal_shutter ''nuc: shutter did not close'', isp_at c model ws' cell' n' f)
    \<and> ws' ! 15 AND shutter_close = 0"
proof -
  let ?bk = "fake_backend c"
  let ?ws = "ws[15 := (shutter_close AND shutter_close) OR shutter_busy]"
  let ?cell = "cell\<lparr>ic_shutter_ready := reading c (Suc n) + im_shutter_move model\<rparr>"
  have r1: "any_bit ?bk isp_shutter shutter_fault (isp_at c model ws cell (Suc n) f)
      = (False, isp_at c model ws cell (Suc n) f)"
    using assms by (simp add: any_bit_def isp_exec)
  have r2: "reg_write ?bk isp_shutter shutter_close (isp_at c model ws cell (Suc n) f)
      = isp_at c model ?ws ?cell (Suc (Suc n)) f"
    using assms by (simp add: isp_exec)
  have b: "((shutter_close AND shutter_close) OR shutter_busy) AND shutter_busy \<noteq> 0"
    by (simp add: word_ao_absorbs shutter_busy_def)
  have "\<exists>k. Suc (Suc (Suc n)) \<le> k \<and> poll_loop ?bk (not_busy ?bk) (reading c (Suc (Suc n)) + nc_shutter_timeout cfg)
      (isp_at c model ?ws ?cell (Suc (Suc (Suc n))) f) = Some (False, isp_at c model ?ws ?cell k f)"
    by (rule poll_loop_expires) (use assms b in \<open>simp_all add: isp_exec isp_now not_busy_def any_bit_def\<close>)
  then obtain k where p: "poll_until ?bk (not_busy ?bk) (nc_shutter_timeout cfg)
      (isp_at c model ?ws ?cell (Suc (Suc n)) f) = Some (False, isp_at c model ?ws ?cell k f)"
    by (auto simp: poll_until_def isp_now)
  let ?fin = "isp_at c model (?ws[15 := (0 AND shutter_close) OR shutter_busy])
        (?cell\<lparr>ic_shutter_ready := reading c k + im_shutter_move model\<rparr>) (Suc k) f"
  have "run_nuc ?bk cfg (isp_at c model ws cell n f)
      = Some (fail hal_shutter ''nuc: shutter did not close'', open_shutter ?bk (isp_at c model ?ws ?cell k f))"
    unfolding run_nuc_def Let_def
    by (simp only: fake_reg_simps(3) isp_now prod.case r1 r2 p bind.bind_lunit if_False if_True not_False_eq_True)
  moreover have "open_shutter ?bk (isp_at c model ?ws ?cell k f) = ?fin"
    using assms(1) by (simp add: open_shutter_def isp_exec)
  ultimately show ?thesis using assms(1)
    by (intro exI [of _ "?ws[15 := (0 AND shutter_close) OR shutter_busy]"]
        exI [of _ "?cell\<lparr>ic_shutter_ready := reading c k + im_shutter_move model\<rparr>"] exI [of _ "Suc k"])
      (simp add: shutter_busy_def shutter_close_def)
qed

theorem nuc_jam_witness:
  "\<exists>m'. run_nuc (fake_backend (steady_every 0)) nuc_config_default (isp_device (steady_every 0) (isp_model_default\<lparr>im_shutter_jams := True\<rparr>))
    = Some (fail hal_shutter ''nuc: shutter did not close'', m')"
  unfolding isp_device_at
  using nuc_jam [of isp_reset_words "isp_model_default\<lparr>im_shutter_jams := True\<rparr>" "steady_every 0" nuc_config_default
      isp_reset_cell 0 0]
  by (auto simp: isp_reset_words_def)

end
