(* ===== verification/Hal_Uio.thy ===== *)
theory Hal_Uio
  imports Sensor_Nuc "HOL-Library.Multiset"
begin

text \<open>
  \<^verbatim>\<open>framework/hal/include/optronic/hal/uio.hpp\<close> and \<^verbatim>\<open>framework/hal/src/uio.cpp\<close>: the
  backend on a mapped \<^verbatim>\<open>/dev/uioN\<close>. The kernel is a parameter: what \<^verbatim>\<open>open\<close> and
  \<^verbatim>\<open>mmap\<close> return is given with each call, and a ledger of open descriptors and live mappings
  records what the class asks for. The device behind the mapping is a parameter too: any functions
  that answer a read and absorb a write.
\<close>

section \<open>The region and the kernel's ledger\<close>

record uio_region =
  ur_fd :: int
  ur_base :: "u64 option"
  ur_length :: u64

record os_ledger =
  os_fds :: "int list"
  os_maps :: "(u64 \<times> u64) list"
  os_bad :: bool

definition os_open :: "int \<Rightarrow> os_ledger \<Rightarrow> os_ledger" where
  "os_open fd k = (if fd < 0 then k else k\<lparr>os_fds := fd # os_fds k\<rparr>)"

definition os_close :: "int \<Rightarrow> os_ledger \<Rightarrow> os_ledger" where
  "os_close fd k = (if fd \<in> set (os_fds k) then k\<lparr>os_fds := remove1 fd (os_fds k)\<rparr>
     else k\<lparr>os_bad := True\<rparr>)"

definition os_mmap :: "u64 option \<Rightarrow> u64 \<Rightarrow> os_ledger \<Rightarrow> os_ledger" where
  "os_mmap b len k = (case b of None \<Rightarrow> k | Some a \<Rightarrow> k\<lparr>os_maps := (a, len) # os_maps k\<rparr>)"

definition os_munmap :: "u64 \<Rightarrow> u64 \<Rightarrow> os_ledger \<Rightarrow> os_ledger" where
  "os_munmap a len k = (if (a, len) \<in> set (os_maps k) then k\<lparr>os_maps := remove1 (a, len) (os_maps k)\<rparr>
     else k\<lparr>os_bad := True\<rparr>)"

text \<open>\<^verbatim>\<open>UioRegion::open\<close>; \<open>fd\<close> and \<open>map_result\<close> (\<open>None\<close> for \<^verbatim>\<open>MAP_FAILED\<close>) are the kernel's answers.\<close>

definition uio_open :: "int \<Rightarrow> u64 option \<Rightarrow> u64 \<Rightarrow> os_ledger \<Rightarrow> uio_region expected \<times> os_ledger" where
  "uio_open fd map_result len k =
     (let k1 = os_open fd k
      in if fd < 0 then (fail hal_open ''UioRegion::open'', k1)
         else let k2 = os_mmap map_result len k1
         in case map_result of
              None \<Rightarrow> (fail hal_map ''UioRegion::mmap'', os_close fd k2)
            | Some base \<Rightarrow> (Inr \<lparr>ur_fd = fd, ur_base = Some base, ur_length = len\<rparr>, k2))"

definition moved_from :: uio_region where
  "moved_from = \<lparr>ur_fd = - 1, ur_base = None, ur_length = 0\<rparr>"

text \<open>The move constructor: the new object, and what is left of the old one.\<close>

definition uio_move :: "uio_region \<Rightarrow> uio_region \<times> uio_region" where
  "uio_move other = (other, moved_from)"

definition uio_dtor :: "uio_region \<Rightarrow> os_ledger \<Rightarrow> uio_region \<times> os_ledger" where
  "uio_dtor r k =
     (let k1 = (case ur_base r of None \<Rightarrow> k | Some b \<Rightarrow> os_munmap b (ur_length r) k);
          k2 = (if ur_fd r \<ge> 0 then os_close (ur_fd r) k1 else k1)
      in (r\<lparr>ur_base := None, ur_fd := - 1\<rparr>, k2))"

text \<open>Move assignment of slot \<open>j\<close> to slot \<open>i\<close> of a pool of objects; the self-assignment test compares addresses.\<close>

definition uio_assign :: "nat \<Rightarrow> nat \<Rightarrow> uio_region list \<times> os_ledger \<Rightarrow> uio_region list \<times> os_ledger" where
  "uio_assign i j st =
     (if i = j then st
      else case st of (rs, k) \<Rightarrow>
        case uio_dtor (rs ! i) k of (r, k1) \<Rightarrow> (rs[i := rs ! j, j := moved_from], k1))"

datatype uio_op =
    Uio_open int "u64 option" u64
  | Uio_move_construct nat
  | Uio_move_assign nat nat
  | Uio_destroy nat

fun uio_step :: "uio_op \<Rightarrow> uio_region list \<times> os_ledger \<Rightarrow> uio_region list \<times> os_ledger" where
  "uio_step (Uio_open fd m len) (rs, k) =
     (case uio_open fd m len k of
        (Inl e, k1) \<Rightarrow> (rs, k1)
      | (Inr r, k1) \<Rightarrow> (rs @ [r], k1))"
| "uio_step (Uio_move_construct j) (rs, k) =
     (if j < length rs then case uio_move (rs ! j) of (r, old) \<Rightarrow> (rs[j := old] @ [r], k) else (rs, k))"
| "uio_step (Uio_move_assign i j) (rs, k) =
     (if i < length rs \<and> j < length rs then uio_assign i j (rs, k) else (rs, k))"
| "uio_step (Uio_destroy i) (rs, k) =
     (if i < length rs then case uio_dtor (rs ! i) k of (r, k1) \<Rightarrow> (rs[i := r], k1) else (rs, k))"

fun uio_run :: "uio_op list \<Rightarrow> uio_region list \<times> os_ledger \<Rightarrow> uio_region list \<times> os_ledger" where
  "uio_run [] st = st"
| "uio_run (x # xs) st = uio_run xs (uio_step x st)"

fun destroy_all :: "uio_region list \<Rightarrow> os_ledger \<Rightarrow> os_ledger" where
  "destroy_all [] k = k"
| "destroy_all (r # rs) k = destroy_all rs (snd (uio_dtor r k))"

section \<open>Register access\<close>

record 'd uio =
  uio_reg :: uio_region
  uio_dev :: 'd
  uio_wild :: bool
  uio_reads :: nat

definition uio_rejects :: "uio_region \<Rightarrow> u64 \<Rightarrow> bool" where
  "uio_rejects r off \<longleftrightarrow> ur_base r = None \<or> off mod 4 \<noteq> 0 \<or> off + 4 > ur_length r"

text \<open>\<open>uio_wild\<close> is set by an access that leaves the mapping.\<close>

definition touch :: "u64 \<Rightarrow> 'd uio \<Rightarrow> 'd uio" where
  "touch off u = (if unat off + 4 > unat (ur_length (uio_reg u)) then u\<lparr>uio_wild := True\<rparr> else u)"

definition uio_read32 :: "(u64 \<Rightarrow> 'd \<Rightarrow> u32 \<times> 'd) \<Rightarrow> u64 \<Rightarrow> 'd uio \<Rightarrow> u32 \<times> 'd uio" where
  "uio_read32 rd off u =
     (if uio_rejects (uio_reg u) off then (0, u)
      else case rd off (uio_dev u) of (v, d) \<Rightarrow> (v, touch off (u\<lparr>uio_dev := d\<rparr>)))"

definition uio_write32 :: "(u64 \<Rightarrow> u32 \<Rightarrow> 'd \<Rightarrow> 'd) \<Rightarrow> u64 \<Rightarrow> u32 \<Rightarrow> 'd uio \<Rightarrow> 'd uio" where
  "uio_write32 wr off v u =
     (if uio_rejects (uio_reg u) off then u else touch off (u\<lparr>uio_dev := wr off v (uio_dev u)\<rparr>))"

definition uio_now :: "steady \<Rightarrow> 'd uio \<Rightarrow> int \<times> 'd uio" where
  "uio_now c u = (reading c (uio_reads u), u\<lparr>uio_reads := uio_reads u + 1\<rparr>)"

definition uio_backend ::
  "steady \<Rightarrow> (u64 \<Rightarrow> 'd \<Rightarrow> u32 \<times> 'd) \<Rightarrow> (u64 \<Rightarrow> u32 \<Rightarrow> 'd \<Rightarrow> 'd) \<Rightarrow> 'd uio backend" where
  "uio_backend c rd wr = \<lparr>bk_read = uio_read32 rd, bk_write = uio_write32 wr, bk_now = uio_now c\<rparr>"

section \<open>Interrupts\<close>

text \<open>
  \<^verbatim>\<open>poll\<close>, \<^verbatim>\<open>read\<close> and \<^verbatim>\<open>write\<close> are parameters; the timeout in milliseconds
  is narrowed to a 32-bit \<^verbatim>\<open>int\<close> before it is handed to \<^verbatim>\<open>poll\<close>.
\<close>

definition wait_irq ::
  "(int \<Rightarrow> int \<Rightarrow> int) \<Rightarrow> (int \<Rightarrow> int \<times> u32) \<Rightarrow> uio_region \<Rightarrow> int \<Rightarrow> u32 expected" where
  "wait_irq os_poll os_read r timeout_ms =
     (if ur_fd r < 0 then fail hal_open ''UioRegion::wait_irq''
      else let n = os_poll (ur_fd r) (sint (word_of_int timeout_ms :: u32))
      in if n = 0 then fail hal_irq_timeout ''UioRegion::wait_irq''
         else if n < 0 then fail io ''UioRegion::poll''
         else case os_read (ur_fd r) of (len, cnt) \<Rightarrow>
           if len \<noteq> 4 then fail io ''UioRegion::read'' else Inr cnt)"

definition enable_irq :: "(int \<Rightarrow> u32 \<Rightarrow> int) \<Rightarrow> uio_region \<Rightarrow> status" where
  "enable_irq os_write r =
     (if ur_fd r < 0 then fail hal_open ''UioRegion::enable_irq''
      else if os_write (ur_fd r) 1 \<noteq> 4 then fail io ''UioRegion::enable_irq''
      else Inr ())"

section \<open>No descriptor or mapping is lost or released twice\<close>

definition own_fds :: "uio_region \<Rightarrow> int multiset" where
  "own_fds r = (if ur_fd r \<ge> 0 then {#ur_fd r#} else {#})"

definition own_maps :: "uio_region \<Rightarrow> (u64 \<times> u64) multiset" where
  "own_maps r = (case ur_base r of None \<Rightarrow> {#} | Some b \<Rightarrow> {#(b, ur_length r)#})"

definition ledger_ok :: "uio_region list \<times> os_ledger \<Rightarrow> bool" where
  "ledger_ok st \<longleftrightarrow> \<not> os_bad (snd st)
     \<and> mset (os_fds (snd st)) = sum_list (map own_fds (fst st))
     \<and> mset (os_maps (snd st)) = sum_list (map own_maps (fst st))"

lemma own_moved [simp]: "own_fds moved_from = {#}" "own_maps moved_from = {#}"
  by (simp_all add: own_fds_def own_maps_def moved_from_def)

lemma sum_list_split:
  fixes f :: "'a \<Rightarrow> 'b multiset"
  shows "i < length xs \<Longrightarrow> sum_list (map f xs) = f (xs ! i) + (sum_list (map f xs) - f (xs ! i))
    \<and> sum_list (map f (xs[i := v])) = f v + (sum_list (map f xs) - f (xs ! i))"
proof -
  assume i: "i < length xs"
  let ?R = "sum_list (map f (take i xs)) + sum_list (map f (drop (Suc i) xs))"
  have "sum_list (map f xs) = sum_list (map f (take i xs @ xs ! i # drop (Suc i) xs))"
    using id_take_nth_drop [OF i] by simp
  then have 1: "sum_list (map f xs) = f (xs ! i) + ?R" by (simp add: ac_simps)
  have 2: "sum_list (map f (xs[i := v])) = f v + ?R"
    by (simp add: upd_conv_take_nth_drop [OF i] ac_simps)
  show ?thesis unfolding 1 2 by simp
qed

lemma dtor_ledger:
  assumes "mset (os_fds k) = own_fds r + F" and "mset (os_maps k) = own_maps r + M" and "\<not> os_bad k"
  shows "mset (os_fds (snd (uio_dtor r k))) = F \<and> mset (os_maps (snd (uio_dtor r k))) = M
    \<and> \<not> os_bad (snd (uio_dtor r k))
    \<and> own_fds (fst (uio_dtor r k)) = {#} \<and> own_maps (fst (uio_dtor r k)) = {#}"
proof -
  have "ur_fd r \<in> set (os_fds k)" if "0 \<le> ur_fd r"
    using that assms(1) by (metis own_fds_def set_mset_mset union_iff union_single_eq_member add_mset_add_single)
  moreover have "(b, ur_length r) \<in> set (os_maps k)" if "ur_base r = Some b" for b
    using that assms(2) by (simp add: own_maps_def flip: set_mset_mset)
  ultimately show ?thesis using assms
    by (auto simp: uio_dtor_def Let_def os_close_def os_munmap_def own_fds_def own_maps_def
        split: option.splits)
qed

lemma uio_step_ledger: "ledger_ok st \<Longrightarrow> ledger_ok (uio_step x st)"
proof (induction x st rule: uio_step.induct)
  case (1 fd m len rs k)
  then show ?case
    by (auto simp: ledger_ok_def uio_open_def Let_def os_open_def os_mmap_def os_close_def own_fds_def
        own_maps_def fail_def split: option.splits)
next
  case (2 j rs k)
  then show ?case
    using sum_list_split [of j rs own_fds moved_from] sum_list_split [of j rs own_maps moved_from]
    by (auto simp: ledger_ok_def uio_move_def add.commute)
next
  case (3 i j rs k)
  show ?case
  proof (cases "i < length rs \<and> j < length rs \<and> i \<noteq> j")
    case True
    let ?F = "sum_list (map own_fds rs) - own_fds (rs ! i)"
    let ?M = "sum_list (map own_maps rs) - own_maps (rs ! i)"
    have d: "mset (os_fds (snd (uio_dtor (rs ! i) k))) = ?F \<and> mset (os_maps (snd (uio_dtor (rs ! i) k))) = ?M
      \<and> \<not> os_bad (snd (uio_dtor (rs ! i) k))"
      using dtor_ledger [of k "rs ! i" ?F ?M] 3 True sum_list_split [of i rs own_fds]
        sum_list_split [of i rs own_maps] by (simp add: ledger_ok_def)
    let ?rs = "rs[i := rs ! j]"
    have s: "sum_list (map f (?rs[j := moved_from])) = sum_list (map f rs) - f (rs ! i)"
      if f: "f moved_from = {#}" for f :: "uio_region \<Rightarrow> 'x multiset"
      using sum_list_split [of i rs f "rs ! j"] sum_list_split [of j ?rs f moved_from] True f
      by (metis add_diff_cancel_left' empty_neutral(1) length_list_update nth_list_update_eq nth_list_update_neq)
    show ?thesis using d True s [of own_fds] s [of own_maps]
      by (simp add: uio_assign_def ledger_ok_def case_prod_beta)
  next
    case False
    then show ?thesis using 3 by (auto simp: uio_assign_def)
  qed
next
  case (4 i rs k)
  show ?case
  proof (cases "i < length rs")
    case True
    let ?F = "sum_list (map own_fds rs) - own_fds (rs ! i)"
    let ?M = "sum_list (map own_maps rs) - own_maps (rs ! i)"
    note d = dtor_ledger [of k "rs ! i" ?F ?M]
    show ?thesis
      using d 4 True sum_list_split [of i rs own_fds "fst (uio_dtor (rs ! i) k)"]
        sum_list_split [of i rs own_maps "fst (uio_dtor (rs ! i) k)"]
      by (simp add: ledger_ok_def case_prod_beta)
  next
    case False
    then show ?thesis using 4 by simp
  qed
qed

lemma uio_run_ledger: "ledger_ok st \<Longrightarrow> ledger_ok (uio_run xs st)"
  by (induction xs arbitrary: st) (simp_all add: uio_step_ledger)

lemma destroy_all_ledger:
  "mset (os_fds k) = sum_list (map own_fds rs) \<Longrightarrow> mset (os_maps k) = sum_list (map own_maps rs) \<Longrightarrow>
   \<not> os_bad k \<Longrightarrow> destroy_all rs k = k\<lparr>os_fds := [], os_maps := []\<rparr>"
proof (induction rs arbitrary: k)
  case Nil
  then show ?case by simp
next
  case (Cons r rs)
  have d: "mset (os_fds (snd (uio_dtor r k))) = sum_list (map own_fds rs)
      \<and> mset (os_maps (snd (uio_dtor r k))) = sum_list (map own_maps rs) \<and> \<not> os_bad (snd (uio_dtor r k))"
    using dtor_ledger [of k r "sum_list (map own_fds rs)" "sum_list (map own_maps rs)"] Cons.prems by simp
  have "(snd (uio_dtor r k))\<lparr>os_fds := [], os_maps := []\<rparr> = k\<lparr>os_fds := [], os_maps := []\<rparr>"
    using d Cons.prems(3)
    by (auto simp: uio_dtor_def Let_def os_close_def os_munmap_def split: option.splits if_splits)
  then show ?case using Cons.IH [of "snd (uio_dtor r k)"] d by simp
qed

section \<open>The mapped device behaves as a window\<close>

definition uio_ok :: "'d uio \<Rightarrow> bool" where
  "uio_ok u \<longleftrightarrow> \<not> uio_wild u \<and> ur_length (uio_reg u) \<le> mmio_size"

lemma touch_ok: "\<not> uio_rejects (uio_reg u) (off64 r) \<Longrightarrow> touch (off64 r) u = u"
proof -
  assume "\<not> uio_rejects (uio_reg u) (off64 r)"
  then have le: "off64 r + 4 \<le> ur_length (uio_reg u)" by (simp add: uio_rejects_def not_less)
  have "unat (off64 r) + 4 < 2 ^ 64"
    using off64_small [of r] by (simp add: word_less_nat_alt)
  then have "unat (off64 r + 4) = unat (off64 r) + 4" by (simp add: unat_word_ariths)
  with le show ?thesis by (simp add: touch_def word_le_nat_alt)
qed

lemma uio_reg_simps [simp]:
  "reg_read (uio_backend c rd wr) r u = uio_read32 rd (off64 r) u"
  "reg_write (uio_backend c rd wr) r v u = uio_write32 wr (off64 r) v u"
  "bk_now (uio_backend c rd wr) u = uio_now c u"
  by (simp_all add: reg_read_def reg_write_def uio_backend_def)

interpretation uio: polled_window "uio_backend c rd wr" aligned_and_inside uio_ok c uio_reads
  for c rd wr
proof unfold_locales
  fix u :: "'a uio" and r v
  assume u: "uio_ok u"
  have t: "touch (off64 r) (u\<lparr>uio_dev := d\<rparr>) = u\<lparr>uio_dev := d\<rparr>" if "\<not> uio_rejects (uio_reg u) (off64 r)" for d
    using touch_ok [of "u\<lparr>uio_dev := d\<rparr>" r] that by simp
  show "fst (reg_read (uio_backend c rd wr) r u) = 0" if "\<not> aligned_and_inside (off64 r)"
    using that u by (auto simp: uio_read32_def uio_ok_def uio_rejects_def aligned_and_inside_def)
  show "uio_ok (snd (reg_read (uio_backend c rd wr) r u))"
    "uio_reads u \<le> uio_reads (snd (reg_read (uio_backend c rd wr) r u))"
    using u t by (simp_all add: uio_read32_def uio_ok_def case_prod_beta)
  show "uio_ok (reg_write (uio_backend c rd wr) r v u)"
    "uio_reads u \<le> uio_reads (reg_write (uio_backend c rd wr) r v u)"
    using u t by (simp_all add: uio_write32_def uio_ok_def)
qed (simp_all add: uio_now_def uio_ok_def)

section \<open>Properties\<close>

text \<open>
  C20. Resources: whatever sequence of opens (successful or failing at either system call), move
  constructions, move assignments (self-assignment included) and destructions a program performs,
  nothing is closed or unmapped twice, and once every object has been destroyed no descriptor and no
  mapping is left.
\<close>

theorem uio_resources:
  "case uio_run xs ([], \<lparr>os_fds = [], os_maps = [], os_bad = False\<rparr>) of
     (rs, k) \<Rightarrow> \<not> os_bad k \<and> destroy_all rs k = \<lparr>os_fds = [], os_maps = [], os_bad = False\<rparr>"
proof -
  have "ledger_ok (uio_run xs ([], \<lparr>os_fds = [], os_maps = [], os_bad = False\<rparr>))"
    by (rule uio_run_ledger) (simp add: ledger_ok_def)
  then show ?thesis by (auto simp: ledger_ok_def destroy_all_ledger split: prod.splits)
qed

text \<open>
  On the real backend, with any device behind a mapping of at most the window's size: the
  correction returns, never touches memory outside the mapping, and commands the shutter open after
  closing it on every path.
\<close>

lemma uio_nuc_reopens:
  assumes "\<not> uio_wild u" and "ur_length (uio_reg u) \<le> mmio_size"
  shows "\<exists>res u' ws. run_nuc (logged (uio_backend c rd wr)) cfg (u, []) = Some (res, (u', ws))
    \<and> \<not> uio_wild u'
    \<and> shutter_writes ws = (if res = fail hal_shutter ''nuc: shutter reports FAULT'' then []
        else [shutter_close, 0])"
  using uio.run_nuc_reopens [of u c rd wr cfg] assms by (auto simp: uio_ok_def)

lemma uio_nuc_reopens_witness:
  "\<exists>res u' ws. run_nuc (logged (uio_backend (steady_every 0) (\<lambda>off d. (0, d)) (\<lambda>off v d. d)))
      nuc_config_default
      (\<lparr>uio_reg = \<lparr>ur_fd = 3, ur_base = Some 0x7F000000, ur_length = 0x1000\<rparr>, uio_dev = (),
        uio_wild = False, uio_reads = 0\<rparr>, []) = Some (res, (u', ws)) \<and> \<not> uio_wild u'"
  using uio_nuc_reopens [of "\<lparr>uio_reg = \<lparr>ur_fd = 3, ur_base = Some 0x7F000000, ur_length = 0x1000\<rparr>,
      uio_dev = (), uio_wild = False, uio_reads = 0\<rparr>" "steady_every 0" "\<lambda>off d. (0, d)" "\<lambda>off v d. d"
      nuc_config_default]
  by (auto simp: mmio_size_def)

end
