(* ===== verification/Sensor_Shared.thy ===== *)
theory Sensor_Shared
  imports Sensor_Nuc
begin

text \<open>
  The register block between threads. \<^verbatim>\<open>SensorService::run_nuc\<close> runs on the timer's thread while the
  telemetry worker samples the gain and the temperature and the main thread may stop the sensor, all
  through one \<^verbatim>\<open>RegisterFile\<close> and without a lock. Here the accesses of the others happen between any
  two accesses of the correction.
\<close>

section \<open>Accesses of the other threads\<close>

datatype reg_access = Acc_read reg | Acc_write reg u32

text \<open>The registers the others use: those of the sampler, of \<^verbatim>\<open>stop\<close> and of the configuration.\<close>

definition other_regs :: "reg list" where
  "other_regs = [isp_ctrl, isp_status, isp_gain, isp_frame_w, isp_frame_h, isp_frame_cnt, isp_temp_mc]"

definition nuc_regs :: "reg list" where
  "nuc_regs = [isp_shutter, isp_nuc_acc_ctrl, isp_nuc_table_addr, isp_nuc_table_data]"

primrec access_reg :: "reg_access \<Rightarrow> reg" where
  "access_reg (Acc_read r) = r" | "access_reg (Acc_write r v) = r"

fun accessed :: "steady \<Rightarrow> reg_access \<Rightarrow> isp_fake \<Rightarrow> u32 list \<times> isp_fake" where
  "accessed c (Acc_read r) m = (case reg_read (fake_backend c) r m of (v, m1) \<Rightarrow> ([v], m1))"
| "accessed c (Acc_write r v) m = ([], reg_write (fake_backend c) r v m)"

text \<open>A sequence of accesses: the values read and the device after it.\<close>

fun accesses :: "steady \<Rightarrow> reg_access list \<Rightarrow> isp_fake \<Rightarrow> u32 list \<times> isp_fake" where
  "accesses c [] m = ([], m)"
| "accesses c (a # as) m =
     (case accessed c a m of (vs, m1) \<Rightarrow> case accesses c as m1 of (ws, m2) \<Rightarrow> (vs @ ws, m2))"

definition isp_state :: "steady \<Rightarrow> isp_model \<Rightarrow> isp_fake \<Rightarrow> bool" where
  "isp_state c model m \<longleftrightarrow> (\<exists>ws cell n f. length ws = 1024 \<and> m = isp_at c model ws cell n f)"

section \<open>They commute with the correction's accesses\<close>

text \<open>\<open>g\<close> and \<open>h\<close> do not see each other: each returns what it would have returned alone, and the order does not matter.\<close>

definition independent :: "('m \<Rightarrow> 'a \<times> 'm) \<Rightarrow> ('m \<Rightarrow> 'b \<times> 'm) \<Rightarrow> 'm \<Rightarrow> bool" where
  "independent g h m \<longleftrightarrow> fst (g (snd (h m))) = fst (g m) \<and> fst (h (snd (g m))) = fst (h m)
     \<and> snd (g (snd (h m))) = snd (h (snd (g m)))"

lemma off64_table_addr: "off64 isp_nuc_table_addr = 0x100" "idx 0x100 = 64" "aligned_and_inside 0x100"
  using isp_idx isp_inside by (simp_all add: off64_def isp_regs)

lemma nuc_read_independent:
  assumes "isp_state c model m" and "r \<in> set nuc_regs" and "access_reg a \<in> set other_regs"
  shows "independent (fake_read32 (off64 r)) (accessed c a) m"
proof -
  obtain ws cell n f where m: "length ws = 1024" "m = isp_at c model ws cell n f"
    using assms(1) by (auto simp: isp_state_def)
  show ?thesis
    using assms(2,3) m(1) unfolding m(2) independent_def
    by (cases a) (auto simp: nuc_regs_def other_regs_def isp_exec list_update_swap)
qed

lemma nuc_write_independent:
  assumes "isp_state c model m" and "r \<in> set nuc_regs" and "access_reg a \<in> set other_regs"
  shows "independent (\<lambda>m. ((), fake_write32 (off64 r) v m)) (accessed c a) m"
proof -
  obtain ws cell n f where m: "length ws = 1024" "m = isp_at c model ws cell n f"
    using assms(1) by (auto simp: isp_state_def)
  show ?thesis
    using assms(2,3) m(1) unfolding m(2) independent_def
    by (cases a) (auto simp: nuc_regs_def other_regs_def isp_exec list_update_swap)
qed

lemma now_independent:
  assumes "isp_state c model m" and "access_reg a \<in> set other_regs"
  shows "independent (fake_now c) (accessed c a) m"
proof -
  obtain ws cell n f where m: "length ws = 1024" "m = isp_at c model ws cell n f"
    using assms(1) by (auto simp: isp_state_def)
  show ?thesis
    using assms(2) m(1) unfolding m(2) independent_def
    by (cases a) (auto simp: other_regs_def isp_exec isp_now)
qed

lemma isp_stateI: "length ws = 1024 \<Longrightarrow> isp_state c model (isp_at c model ws cell n f)"
  by (auto simp: isp_state_def)

lemma nuc_keeps_state:
  assumes "isp_state c model m" and "r \<in> set nuc_regs"
  shows "isp_state c model (snd (fake_read32 (off64 r) m))" and "isp_state c model (fake_write32 (off64 r) v m)"
proof -
  obtain ws cell n f where m: "length ws = 1024" "m = isp_at c model ws cell n f"
    using assms(1) by (auto simp: isp_state_def)
  show "isp_state c model (snd (fake_read32 (off64 r) m))" "isp_state c model (fake_write32 (off64 r) v m)"
    using assms(2) m(1) unfolding m(2) by (auto simp: nuc_regs_def isp_exec intro!: isp_stateI)
qed

lemma now_keeps_state: "isp_state c model m \<Longrightarrow> isp_state c model (snd (fake_now c m))"
  by (auto simp: isp_now isp_state_def [of _ _ m] intro!: isp_stateI)

lemma accessed_keeps_state:
  assumes "isp_state c model m" and "access_reg a \<in> set other_regs"
  shows "isp_state c model (snd (accessed c a m))"
proof -
  obtain ws cell n f where m: "length ws = 1024" "m = isp_at c model ws cell n f"
    using assms(1) by (auto simp: isp_state_def)
  show ?thesis
    using assms(2) m(1) unfolding m(2) by (cases a) (auto simp: other_regs_def isp_exec intro!: isp_stateI)
qed

definition others_only :: "reg_access list \<Rightarrow> bool" where
  "others_only as \<longleftrightarrow> (\<forall>a \<in> set as. access_reg a \<in> set other_regs)"

lemma accesses_keep_state: "isp_state c model m \<Longrightarrow> others_only as \<Longrightarrow> isp_state c model (snd (accesses c as m))"
  by (induction as arbitrary: m) (auto simp: others_only_def case_prod_beta accessed_keeps_state)

lemma accesses_append: "accesses c (as @ bs) m =
    (case accesses c as m of (vs, m1) \<Rightarrow> case accesses c bs m1 of (ws, m2) \<Rightarrow> (vs @ ws, m2))"
  by (induction as arbitrary: m) (simp_all add: case_prod_beta)

text \<open>From one access to sequences.\<close>

lemma independent_accesses:
  assumes one: "\<And>m a. isp_state c model m \<Longrightarrow> access_reg a \<in> set other_regs \<Longrightarrow> independent g (accessed c a) m"
    and keep: "\<And>m. isp_state c model m \<Longrightarrow> isp_state c model (snd (g m))"
  shows "isp_state c model m \<Longrightarrow> others_only as \<Longrightarrow> independent g (accesses c as) m"
proof (induction as arbitrary: m)
  case Nil
  then show ?case by (simp add: independent_def)
next
  case (Cons a as)
  have a: "access_reg a \<in> set other_regs" and as: "others_only as" using Cons.prems by (simp_all add: others_only_def)
  have i: "independent g (accessed c a) m" by (rule one [OF Cons.prems(1) a])
  have "independent g (accesses c as) (snd (accessed c a m))"
    by (rule Cons.IH [OF accessed_keeps_state [OF Cons.prems(1) a] as])
  with i show ?case by (simp add: independent_def case_prod_beta)
qed

lemma nuc_read_alone: "isp_state c model m \<Longrightarrow> r \<in> set nuc_regs \<Longrightarrow> others_only as \<Longrightarrow>
    independent (fake_read32 (off64 r)) (accesses c as) m"
  by (rule independent_accesses) (auto intro: nuc_read_independent nuc_keeps_state)

lemma nuc_write_alone: "isp_state c model m \<Longrightarrow> r \<in> set nuc_regs \<Longrightarrow> others_only as \<Longrightarrow>
    independent (\<lambda>m. ((), fake_write32 (off64 r) v m)) (accesses c as) m"
  by (rule independent_accesses) (auto intro: nuc_write_independent nuc_keeps_state)

lemma now_alone: "isp_state c model m \<Longrightarrow> others_only as \<Longrightarrow> independent (fake_now c) (accesses c as) m"
  by (rule independent_accesses) (auto intro: now_independent now_keeps_state)

section \<open>Backends that answer alike\<close>

text \<open>
  Two backends whose answers to the correction's accesses agree along a relation of their states: then
  \<open>run_nuc\<close> does the same on both.
\<close>

text \<open>The last part of \<open>run_nuc\<close>, from a finished accumulation on.\<close>

definition nuc_finish :: "'s backend \<Rightarrow> nuc_config \<Rightarrow> int \<Rightarrow> 's \<Rightarrow> (nuc_result expected \<times> 's) option" where
  "nuc_finish bk cfg started s3 =
     (case sum_table bk (unat (nc_table_entries cfg)) 0 (reg_write bk isp_nuc_table_addr 0 s3) of (tot, s4) \<Rightarrow>
      Option.bind (poll_until bk (not_busy bk) (nc_shutter_timeout cfg) (open_shutter bk s4)) (\<lambda>(opened, s5).
      if \<not> opened then Some (fail hal_shutter ''nuc: shutter did not reopen'', s5)
      else case bk_now bk s5 of (now, s6) \<Rightarrow>
        Some (Inr \<lparr>nr_duration = (now - started) div 1000000, nr_entries = nc_table_entries cfg,
                   nr_mean_offset = (if nc_table_entries cfg > 0
                                     then tot div uint (nc_table_entries cfg) else 0)\<rparr>, s6)))"

locale same_answers =
  fixes bk :: "'s backend" and bk' :: "'t backend" and rel :: "'s \<Rightarrow> 't \<Rightarrow> bool"
  assumes read_same: "rel s t \<Longrightarrow> r \<in> set nuc_regs \<Longrightarrow>
      fst (bk_read bk' (off64 r) t) = fst (bk_read bk (off64 r) s)
      \<and> rel (snd (bk_read bk (off64 r) s)) (snd (bk_read bk' (off64 r) t))"
    and write_same: "rel s t \<Longrightarrow> r \<in> set nuc_regs \<Longrightarrow>
      rel (bk_write bk (off64 r) v s) (bk_write bk' (off64 r) v t)"
    and now_same: "rel s t \<Longrightarrow> fst (bk_now bk' t) = fst (bk_now bk s) \<and> rel (snd (bk_now bk s)) (snd (bk_now bk' t))"
begin

definition agree :: "'a \<times> 's \<Rightarrow> 'a \<times> 't \<Rightarrow> bool" where
  "agree x y \<longleftrightarrow> fst y = fst x \<and> rel (snd x) (snd y)"

lemma reg_read_same: "rel s t \<Longrightarrow> r \<in> set nuc_regs \<Longrightarrow> agree (reg_read bk r s) (reg_read bk' r t)"
  using read_same by (simp add: agree_def reg_read_def)

lemma any_bit_same: "rel s t \<Longrightarrow> r \<in> set nuc_regs \<Longrightarrow> agree (any_bit bk r k s) (any_bit bk' r k t)"
  using reg_read_same [of s t r] by (simp add: agree_def any_bit_def case_prod_beta)

lemma not_busy_same: "rel s t \<Longrightarrow> agree (not_busy bk s) (not_busy bk' t)"
  using any_bit_same [of s t isp_shutter shutter_busy]
  by (simp add: agree_def not_busy_def case_prod_beta nuc_regs_def)

lemma acc_done_same: "rel s t \<Longrightarrow> agree (acc_done bk s) (acc_done bk' t)"
  using any_bit_same [of s t isp_nuc_acc_ctrl nuc_done] by (simp add: acc_done_def nuc_regs_def)

lemma reg_write_same: "rel s t \<Longrightarrow> r \<in> set nuc_regs \<Longrightarrow> rel (reg_write bk r v s) (reg_write bk' r v t)"
  using write_same by (simp add: reg_write_def)

lemma sum_table_same: "rel s t \<Longrightarrow> agree (sum_table bk k tot s) (sum_table bk' k tot t)"
proof (induction k arbitrary: tot s t)
  case 0
  then show ?case by (simp add: agree_def)
next
  case (Suc k)
  have a: "agree (reg_read bk isp_nuc_table_data s) (reg_read bk' isp_nuc_table_data t)"
    by (rule reg_read_same [OF Suc.prems]) (simp add: nuc_regs_def)
  then show ?case using Suc.IH [of "snd (reg_read bk isp_nuc_table_data s)" "snd (reg_read bk' isp_nuc_table_data t)"]
    by (simp add: agree_def case_prod_beta)
qed

lemma poll_loop_same:
  assumes ret: "poll_loop bk pred deadline s = Some y"
    and preds: "\<And>s t. rel s t \<Longrightarrow> agree (pred s) (pred' t)" and st: "rel s t"
  shows "\<exists>z. poll_loop bk' pred' deadline t = Some z \<and> agree y z"
proof -
  let ?P = "\<lambda>bb pred (deadline :: int) s y. bb = bk \<longrightarrow> (\<forall>s t. rel s t \<longrightarrow> agree (pred s) (pred' t)) \<longrightarrow>
     (\<forall>t. rel s t \<longrightarrow> (\<exists>z. poll_loop bk' pred' deadline t = Some z \<and> agree y z))"
  have "?P bk pred deadline s y"
  proof (rule poll_loop.raw_induct [where P = ?P, OF _ ret], intro impI allI)
    fix loop :: "'s backend \<Rightarrow> ('s \<Rightarrow> bool \<times> 's) \<Rightarrow> int \<Rightarrow> 's \<Rightarrow> (bool \<times> 's) option"
      and bb :: "'s backend" and pred deadline s y t
    assume IH: "\<And>bb pred deadline s y. loop bb pred deadline s = Some y \<Longrightarrow> ?P bb pred deadline s y"
      and body: "(case pred s of (b, s1) \<Rightarrow> if b then Some (True, s1)
          else case bk_now bb s1 of (now, s2) \<Rightarrow>
            if deadline \<le> now then Some (False, s2) else loop bb pred deadline s2) = Some y"
      and bb: "bb = bk" and k: "\<forall>s t. rel s t \<longrightarrow> agree (pred s) (pred' t)" and st: "rel s t"
    obtain d s1 t1 where p: "pred s = (d, s1)" "pred' t = (d, t1)" "rel s1 t1"
      using k st by (metis agree_def prod.collapse)
    obtain now s2 t2 where n: "bk_now bk s1 = (now, s2)" "bk_now bk' t1 = (now, t2)" "rel s2 t2"
      using now_same [OF p(3)] by (metis prod.collapse)
    show "\<exists>z. poll_loop bk' pred' deadline t = Some z \<and> agree y z"
    proof (cases "d \<or> deadline \<le> now")
      case True
      then have "y = (if d then (True, s1) else (False, s2))" using body p n bb by auto
      moreover have "poll_loop bk' pred' deadline t = Some (if d then (True, t1) else (False, t2))"
        using True p n by (subst poll_loop.simps) auto
      ultimately show ?thesis using p(3) n(3) by (simp add: agree_def)
    next
      case False
      then have "loop bk pred deadline s2 = Some y" using body p n bb by simp
      from IH [OF this] k n(3) obtain z where "poll_loop bk' pred' deadline t2 = Some z" "agree y z" by blast
      then show ?thesis using False p n by (subst poll_loop.simps) simp
    qed
  qed
  then show ?thesis using preds st by blast
qed

lemma poll_until_same:
  assumes "poll_until bk pred tmo s = Some (b, s')" and "\<And>s t. rel s t \<Longrightarrow> agree (pred s) (pred' t)" and "rel s t"
  shows "\<exists>t'. poll_until bk' pred' tmo t = Some (b, t') \<and> rel s' t'"
proof -
  obtain now s1 t1 where n: "bk_now bk s = (now, s1)" "bk_now bk' t = (now, t1)" "rel s1 t1"
    using now_same [OF assms(3)] by (metis prod.collapse)
  then have "poll_loop bk pred (now + tmo) s1 = Some (b, s')" using assms(1) by (simp add: poll_until_def)
  from poll_loop_same [OF this assms(2) n(3)] show ?thesis using n by (auto simp: poll_until_def agree_def)
qed

lemma poll_not_busy_same: "poll_until bk (not_busy bk) tmo s = Some (b, s') \<Longrightarrow> rel s t \<Longrightarrow>
    \<exists>t'. poll_until bk' (not_busy bk') tmo t = Some (b, t') \<and> rel s' t'"
  by (erule poll_until_same) (simp_all add: not_busy_same)

lemma poll_acc_done_same: "poll_until bk (acc_done bk) tmo s = Some (b, s') \<Longrightarrow> rel s t \<Longrightarrow>
    \<exists>t'. poll_until bk' (acc_done bk') tmo t = Some (b, t') \<and> rel s' t'"
  by (erule poll_until_same) (simp_all add: acc_done_same)

lemma opens_same: "rel s t \<Longrightarrow> rel (open_shutter bk s) (open_shutter bk' t)"
  by (simp add: open_shutter_def reg_write_same nuc_regs_def)

lemma nuc_finish_same:
  assumes ret: "nuc_finish bk cfg started s = Some (r, s')" and st: "rel s t"
  shows "\<exists>t'. nuc_finish bk' cfg started t = Some (r, t') \<and> rel s' t'"
proof -
  have "rel (reg_write bk isp_nuc_table_addr 0 s) (reg_write bk' isp_nuc_table_addr 0 t)"
    by (rule reg_write_same [OF st]) (simp add: nuc_regs_def)
  from sum_table_same [OF this, of "unat (nc_table_entries cfg)" 0] obtain tot s4 t4 where
    n4: "sum_table bk (unat (nc_table_entries cfg)) 0 (reg_write bk isp_nuc_table_addr 0 s) = (tot, s4)"
      "sum_table bk' (unat (nc_table_entries cfg)) 0 (reg_write bk' isp_nuc_table_addr 0 t) = (tot, t4)" "rel s4 t4"
    by (metis agree_def prod.collapse)
  from ret n4 obtain opened s5 where p5: "poll_until bk (not_busy bk) (nc_shutter_timeout cfg) (open_shutter bk s4)
      = Some (opened, s5)"
    by (auto simp: nuc_finish_def bind_eq_Some_conv)
  obtain t5 where q5: "poll_until bk' (not_busy bk') (nc_shutter_timeout cfg) (open_shutter bk' t4) = Some (opened, t5)"
    "rel s5 t5"
    using poll_not_busy_same [OF p5 opens_same [OF n4(3)]] by blast
  obtain now s6 t6 where n6: "bk_now bk s5 = (now, s6)" "bk_now bk' t5 = (now, t6)" "rel s6 t6"
    using now_same [OF q5(2)] by (metis prod.collapse)
  show ?thesis using ret n4 p5 q5 n6 by (auto simp: nuc_finish_def split: if_splits)
qed

lemma run_nuc_same:
  assumes ret: "run_nuc bk cfg s = Some (r, s')" and st: "rel s t"
  shows "\<exists>t'. run_nuc bk' cfg t = Some (r, t') \<and> rel s' t'"
proof -
  have regs: "isp_shutter \<in> set nuc_regs" "isp_nuc_acc_ctrl \<in> set nuc_regs" "isp_nuc_table_addr \<in> set nuc_regs"
    by (simp_all add: nuc_regs_def)
  obtain started s0 t0 where n0: "bk_now bk s = (started, s0)" "bk_now bk' t = (started, t0)" "rel s0 t0"
    using now_same [OF st] by (metis prod.collapse)
  obtain faulty s1 t1 where n1: "any_bit bk isp_shutter shutter_fault s0 = (faulty, s1)"
    "any_bit bk' isp_shutter shutter_fault t0 = (faulty, t1)" "rel s1 t1"
    using any_bit_same [OF n0(3) regs(1), of shutter_fault] by (metis agree_def prod.collapse)
  show ?thesis
  proof (cases faulty)
    case True
    then show ?thesis using ret n0 n1 by (simp add: run_nuc_def)
  next
    case False
    let ?acc = "nuc_start OR (push_bit log2n_shift (nc_log2_frames cfg) AND log2n_mask)"
    from ret False n0 n1 obtain closed s2 where p2: "poll_until bk (not_busy bk) (nc_shutter_timeout cfg)
        (reg_write bk isp_shutter shutter_close s1) = Some (closed, s2)"
      by (auto simp: run_nuc_def bind_eq_Some_conv)
    obtain t2 where q2: "poll_until bk' (not_busy bk') (nc_shutter_timeout cfg)
        (reg_write bk' isp_shutter shutter_close t1) = Some (closed, t2)" "rel s2 t2"
      using poll_not_busy_same [OF p2 reg_write_same [OF n1(3) regs(1)]] by blast
    show ?thesis
    proof (cases closed)
      case False
      then show ?thesis using ret n0 n1 \<open>\<not> faulty\<close> p2 q2 opens_same by (auto simp: run_nuc_def)
    next
      case closed: True
      from ret False n0 n1 p2 closed obtain ready s3 where p3: "poll_until bk (acc_done bk) (nc_accumulate_timeout cfg)
          (reg_write bk isp_nuc_acc_ctrl ?acc s2) = Some (ready, s3)"
        by (auto simp: run_nuc_def bind_eq_Some_conv Let_def)
      obtain t3 where q3: "poll_until bk' (acc_done bk') (nc_accumulate_timeout cfg)
          (reg_write bk' isp_nuc_acc_ctrl ?acc t2) = Some (ready, t3)" "rel s3 t3"
        using poll_acc_done_same [OF p3 reg_write_same [OF q2(2) regs(2)]] by blast
      have "\<exists>t'. run_nuc bk' cfg t = Some (r, t') \<and> rel s' t'" if "\<not> ready"
        using ret n0 n1 False p2 q2 closed p3 q3 opens_same that by (auto simp: run_nuc_def Let_def)
      moreover have "\<exists>t'. run_nuc bk' cfg t = Some (r, t') \<and> rel s' t'" if "ready"
        using nuc_finish_same [OF _ q3(2), of cfg started r s'] ret n0 n1 False p2 q2 closed p3 q3 that
        by (simp add: run_nuc_def Let_def nuc_finish_def)
      ultimately show ?thesis by blast
    qed
  qed
qed

end

section \<open>The correction among the other threads\<close>

text \<open>
  The shared block: the device, the accesses the others will make (one batch before every access of the
  correction, possibly empty) and the values they have read so far.
\<close>

type_synonym shared = "isp_fake \<times> reg_access list list \<times> u32 list"

fun others_turn :: "steady \<Rightarrow> shared \<Rightarrow> shared" where
  "others_turn c (m, [], seen) = (m, [], seen)"
| "others_turn c (m, b # bs, seen) = (case accesses c b m of (vs, m1) \<Rightarrow> (m1, bs, seen @ vs))"

definition shared_backend :: "steady \<Rightarrow> shared backend" where
  "shared_backend c =
     \<lparr>bk_read = (\<lambda>off sh. case others_turn c sh of (m, bs, seen) \<Rightarrow> case fake_read32 off m of (v, m1) \<Rightarrow> (v, m1, bs, seen)),
      bk_write = (\<lambda>off v sh. case others_turn c sh of (m, bs, seen) \<Rightarrow> (fake_write32 off v m, bs, seen)),
      bk_now = (\<lambda>sh. case others_turn c sh of (m, bs, seen) \<Rightarrow> case fake_now c m of (t, m1) \<Rightarrow> (t, m1, bs, seen))\<rparr>"

text \<open>
  The correction alone at \<open>m\<close>, and the shared block: \<open>k\<close> batches are done, the device is that of the
  correction alone with them on top, and they have read what they would have read at \<open>m0\<close>.
\<close>

definition overlaid :: "steady \<Rightarrow> isp_model \<Rightarrow> isp_fake \<Rightarrow> reg_access list list \<Rightarrow> isp_fake \<Rightarrow> shared \<Rightarrow> bool" where
  "overlaid c model m0 bs0 m sh \<longleftrightarrow> isp_state c model m \<and> (\<forall>b \<in> set bs0. others_only b)
     \<and> (\<forall>as. others_only as \<longrightarrow> fst (accesses c as m) = fst (accesses c as m0))
     \<and> (\<exists>k. sh = (snd (accesses c (concat (take k bs0)) m), drop k bs0, fst (accesses c (concat (take k bs0)) m0)))"

lemma others_only_take: "\<forall>b \<in> set bs. others_only b \<Longrightarrow> others_only (concat (take k bs))"
  by (auto simp: others_only_def dest: in_set_takeD)

lemma overlaid_turn:
  assumes "overlaid c model m0 bs0 m sh"
  shows "overlaid c model m0 bs0 m (others_turn c sh)"
proof -
  obtain k where sh: "sh = (snd (accesses c (concat (take k bs0)) m), drop k bs0, fst (accesses c (concat (take k bs0)) m0))"
    using assms by (auto simp: overlaid_def)
  have oth: "\<forall>b \<in> set bs0. others_only b" and alike: "\<And>as. others_only as \<Longrightarrow> fst (accesses c as m) = fst (accesses c as m0)"
    using assms by (simp_all add: overlaid_def)
  show ?thesis
  proof (cases "drop k bs0")
    case Nil
    then show ?thesis using assms sh by simp
  next
    case (Cons b rest)
    then have "take (Suc k) bs0 = take k bs0 @ [b]" "drop (Suc k) bs0 = rest"
      by (metis drop_eq_Nil leI list.distinct(1) list.sel(1) hd_drop_conv_nth take_Suc_conv_app_nth)
        (metis Cons drop_Suc list.sel(3) tl_drop)
    moreover have "fst (accesses c b (snd (accesses c (concat (take k bs0)) m)))
        = fst (accesses c b (snd (accesses c (concat (take k bs0)) m0)))"
    proof -
      have "fst (accesses c (concat (take k bs0) @ b) m) = fst (accesses c (concat (take k bs0) @ b) m0)"
        using alike others_only_take [OF oth, of "Suc k"] \<open>take (Suc k) bs0 = take k bs0 @ [b]\<close> by simp
      then show ?thesis using alike [OF others_only_take [OF oth, of k]]
        by (simp add: accesses_append case_prod_beta)
    qed
    ultimately have "others_turn c sh = (snd (accesses c (concat (take (Suc k) bs0)) m), drop (Suc k) bs0,
        fst (accesses c (concat (take (Suc k) bs0)) m0))"
      using sh Cons by (simp add: accesses_append case_prod_beta)
    then show ?thesis using assms unfolding overlaid_def by blast
  qed
qed

lemma overlaid_step:
  assumes "overlaid c model m0 bs0 m (md, rest)" and "isp_state c model (snd (g m))"
    and alone: "\<And>as. others_only as \<Longrightarrow> independent g (accesses c as) m"
  shows "fst (g md) = fst (g m) \<and> overlaid c model m0 bs0 (snd (g m)) (snd (g md), rest)"
proof -
  obtain k where md: "md = snd (accesses c (concat (take k bs0)) m)"
    and rest: "rest = (drop k bs0, fst (accesses c (concat (take k bs0)) m0))"
    using assms(1) by (auto simp: overlaid_def)
  have oth: "\<forall>b \<in> set bs0. others_only b" and alike: "\<And>as. others_only as \<Longrightarrow> fst (accesses c as m) = fst (accesses c as m0)"
    using assms(1) by (simp_all add: overlaid_def)
  have "fst (g md) = fst (g m)" "snd (g md) = snd (accesses c (concat (take k bs0)) (snd (g m)))"
    using alone [OF others_only_take [OF oth, of k]] md by (simp_all add: independent_def)
  moreover have "fst (accesses c as (snd (g m))) = fst (accesses c as m0)" if "others_only as" for as
    using alone [OF that] alike [OF that] by (simp add: independent_def)
  ultimately show ?thesis using assms(2) oth rest by (auto simp: overlaid_def)
qed

interpretation shared: same_answers "fake_backend c" "shared_backend c" "overlaid c model m0 bs0"
  for c model m0 bs0
proof unfold_locales
  fix m :: isp_fake and sh :: shared and r v
  assume rel: "overlaid c model m0 bs0 m sh"
  obtain md bs seen where sh: "others_turn c sh = (md, bs, seen)" by (metis prod.collapse)
  have rel1: "overlaid c model m0 bs0 m (md, bs, seen)" using overlaid_turn [OF rel] sh by simp
  have st: "isp_state c model m" using rel by (simp add: overlaid_def)
  show "fst (bk_now (shared_backend c) sh) = fst (bk_now (fake_backend c) m)
      \<and> overlaid c model m0 bs0 (snd (bk_now (fake_backend c) m)) (snd (bk_now (shared_backend c) sh))"
    using overlaid_step [OF rel1 now_keeps_state [OF st] now_alone [OF st]]
    by (simp add: shared_backend_def fake_backend_def sh case_prod_beta)
  assume r: "r \<in> set nuc_regs"
  show "fst (bk_read (shared_backend c) (off64 r) sh) = fst (bk_read (fake_backend c) (off64 r) m)
      \<and> overlaid c model m0 bs0 (snd (bk_read (fake_backend c) (off64 r) m)) (snd (bk_read (shared_backend c) (off64 r) sh))"
    using overlaid_step [OF rel1 nuc_keeps_state(1) [OF st r] nuc_read_alone [OF st r]]
    by (simp add: shared_backend_def fake_backend_def sh case_prod_beta)
  show "overlaid c model m0 bs0 (bk_write (fake_backend c) (off64 r) v m) (bk_write (shared_backend c) (off64 r) v sh)"
    using overlaid_step [OF rel1, of "\<lambda>m. ((), fake_write32 (off64 r) v m)"] nuc_keeps_state(2) [OF st r]
      nuc_write_alone [OF st r]
    by (simp add: shared_backend_def fake_backend_def sh case_prod_beta)
qed

lemma poke_reg_kept [simp]: "dev_ok d \<Longrightarrow> aligned_and_inside (off64 r) \<Longrightarrow> dev_ok (poke_reg r v d)"
  "dv_reads (poke_reg r v d) = dv_reads d"
  by (simp_all add: poke_reg_eq) (simp_all add: dev_ok_def poke_reg_def poke_def store_word_def)

lemma dev_ok_fields [simp]: "dev_ok (d\<lparr>dv_reads := n\<rparr>) = dev_ok d" "dev_ok (d\<lparr>dv_env := e\<rparr>) = dev_ok d"
  "dev_ok (d\<lparr>dv_reads := n, dv_env := e\<rparr>) = dev_ok d"
  by (simp_all add: dev_ok_def)

lemma model_hooks_ok:
  "hook_ok (ctrl_hook v)" "hook_ok (irq_clr_hook v)" "hook_ok (shutter_write_hook c model k v)"
  "hook_ok (shutter_read_hook c model k)" "hook_ok (acc_write_hook c model k v)"
  "hook_ok (acc_read_hook c k)" "hook_ok (table_write_hook k v)" "hook_ok (table_read_hook k)"
  by (auto simp: hook_ok_def ctrl_hook_def irq_clr_hook_def shutter_write_hook_def shutter_read_hook_def
      acc_write_hook_def acc_read_hook_def table_write_hook_def table_read_hook_def Let_def dev_now_def cell_upd_def
      split: if_splits)

lemma isp_state_fake_ok: "isp_state c model m \<Longrightarrow> fake_ok m"
  using model_hooks_ok isp_at_ok by (auto simp: isp_state_def fake_ok_def) (auto simp: isp_at_def)

text \<open>
  C16. A correction among the other threads: whatever the telemetry worker and the main thread do to the
  registers they use (the sampled gain, temperature and frame counter, the control and status words, the
  configuration) between any two accesses of a correction, the correction goes through the same polls,
  takes the same decisions and returns the same result, duration included, as alone; the others read what
  they would have read without it; and the device ends as if their accesses had come after it. So the
  unlocked sharing of the register file has no effect, and a sample or a stop may be taken as one step.
\<close>

theorem nuc_shared:
  assumes "isp_state c model m" and "\<forall>b \<in> set bs. others_only b"
  shows "\<exists>r m' k. run_nuc (fake_backend c) cfg m = Some (r, m')
    \<and> run_nuc (shared_backend c) cfg (m, bs, [])
       = Some (r, snd (accesses c (concat (take k bs)) m'), drop k bs, fst (accesses c (concat (take k bs)) m))"
proof -
  obtain r m' where run: "run_nuc (fake_backend c) cfg m = Some (r, m')"
    using fake.run_nuc_returns [OF isp_state_fake_ok [OF assms(1)]] by blast
  have "overlaid c model m bs m (m, bs, [])"
    using assms unfolding overlaid_def by (auto intro: exI [of _ 0])
  from shared.run_nuc_same [OF run this] run show ?thesis by (auto simp: overlaid_def)
qed

definition sampling :: "reg_access list" where
  "sampling = [Acc_read isp_gain, Acc_read isp_temp_mc]"

theorem nuc_shared_witness:
  "\<exists>r m' sh. run_nuc (fake_backend (steady_every 0)) nuc_config_default (isp_device (steady_every 0) isp_model_default) = Some (r, m')
     \<and> run_nuc (shared_backend (steady_every 0)) nuc_config_default
         (isp_device (steady_every 0) isp_model_default, [sampling, [], [Acc_write isp_ctrl 0], sampling], []) = Some (r, sh)"
proof -
  have "isp_state (steady_every 0) isp_model_default (isp_device (steady_every 0) isp_model_default)"
    unfolding isp_device_at by (rule isp_stateI) simp
  moreover have "\<forall>b \<in> set [sampling, [], [Acc_write isp_ctrl 0], sampling]. others_only b"
    by (simp add: others_only_def sampling_def other_regs_def)
  ultimately show ?thesis
    using nuc_shared [of "steady_every 0" isp_model_default "isp_device (steady_every 0) isp_model_default"
        "[sampling, [], [Acc_write isp_ctrl 0], sampling]" nuc_config_default] by blast
qed

end
