(* ===== verification/Telemetry.thy ===== *)
theory Telemetry
  imports Log_Record
begin

text \<open>
  \<^verbatim>\<open>modules/telemetry\<close>: the MQTT publisher (\<^verbatim>\<open>publisher.hpp\<close>, \<^verbatim>\<open>publisher.cpp\<close>). The
  mosquitto library is a record of operations over its own client state, a parameter of every
  definition that calls it. Log lines the publisher emits are collected in \<open>p_logs\<close>. A payload is the
  view \<^verbatim>\<open>{buf, n}\<close> given to the library: the bytes it finds in the buffer, and by how many bytes
  the view goes past the buffer's end. String views are shorter than \<open>2 ^ 31\<close>.
\<close>

section \<open>Library use count\<close>

record mosq_lib =
  lib_users :: int
  lib_ready :: bool

definition lib_ref :: "mosq_lib \<Rightarrow> mosq_lib" where
  "lib_ref l = (let l1 = l\<lparr>lib_users := lib_users l + 1\<rparr>
     in if lib_users l = 0 then l1\<lparr>lib_ready := True\<rparr> else l1)"

definition lib_unref :: "mosq_lib \<Rightarrow> mosq_lib" where
  "lib_unref l = (let l1 = l\<lparr>lib_users := lib_users l - 1\<rparr>
     in if lib_users l1 = 0 then l1\<lparr>lib_ready := False\<rparr> else l1)"

section \<open>Payloads\<close>

record payload =
  pl_bytes :: string
  pl_over :: nat

definition view :: "string \<Rightarrow> int \<Rightarrow> payload" where
  "view buf n = \<lparr>pl_bytes = take (nat n) buf, pl_over = nat n - length buf\<rparr>"

definition literal :: "string \<Rightarrow> payload" where
  "literal s = view s (int (length s))"

text \<open>
  \<^verbatim>\<open>snprintf\<close> into \<open>buf\<close> from \<open>off\<close> with the given size, of a text already formatted: what the
  buffer holds afterwards, and the length the whole text has (negative when an \<^verbatim>\<open>int\<close> cannot
  hold it).
\<close>

definition snprintf_at :: "nat \<Rightarrow> nat \<Rightarrow> string \<Rightarrow> string \<Rightarrow> string \<times> int" where
  "snprintf_at off sz body buf =
     (if sz = 0 then buf
      else take off buf @ take (sz - 1) body @ [NUL] @ drop (off + min (length body) (sz - 1) + 1) buf,
      if length body \<le> 2147483647 then int (length body) else - 1)"

definition qt :: "string \<Rightarrow> string" where
  "qt s = CHR 0x22 # s @ [CHR 0x22]"

definition kQosPeriodic :: nat where "kQosPeriodic = 0"
definition kQosEvent :: nat where "kQosEvent = 1"

definition offline :: string where
  "offline = ''{'' @ qt ''v'' @ '':1,'' @ qt ''state'' @ '':'' @ qt ''OFFLINE'' @ ''}''"

record health_sample =
  hs_state :: string
  hs_uptime_s :: u64
  hs_faults :: u32

record sensor_sample =
  ss_gain :: u64
  ss_nuc :: bool
  ss_temp_mc :: u64
  ss_frame_cnt :: u64

record latency_sample =
  ls_cap :: u64
  ls_proc :: u64
  ls_enc :: u64
  ls_fps :: u64
  ls_dropped :: u64

record detected_object =
  do_label :: string
  do_confidence :: u32
  do_x :: u32
  do_y :: u32
  do_w :: u32
  do_h :: u32

text \<open>A fixed buffer formatted once; \<open>None\<close> when nothing is published.\<close>

definition formatted :: "nat \<Rightarrow> string \<Rightarrow> payload option" where
  "formatted sz body =
     (case snprintf_at 0 sz body (zeros sz) of
        (buf, n) \<Rightarrow> if n > 0 then Some (view buf n) else None)"

definition health_text :: "health_sample \<Rightarrow> string" where
  "health_text s = ''{'' @ qt ''v'' @ '':1,'' @ qt ''state'' @ '':'' @ qt (c_str (hs_state s)) @ '','' @
     qt ''uptime_s'' @ '':'' @ dec (unat (hs_uptime_s s)) @ '','' @ qt ''faults'' @ '':'' @
     dec (unat (hs_faults s)) @ ''}''"

definition sensor_text :: "sensor_sample \<Rightarrow> string" where
  "sensor_text s = ''{'' @ qt ''v'' @ '':1,'' @ qt ''gain'' @ '':'' @ dec_int (sint (ss_gain s)) @ '','' @
     qt ''nuc'' @ '':'' @ (if ss_nuc s then ''true'' else ''false'') @ '','' @
     qt ''temp_mc'' @ '':'' @ dec_int (sint (ss_temp_mc s)) @ '','' @
     qt ''frame_cnt'' @ '':'' @ dec (unat (ss_frame_cnt s)) @ ''}''"

definition latency_text :: "latency_sample \<Rightarrow> string" where
  "latency_text s = ''{'' @ qt ''v'' @ '':1,'' @ qt ''cap_p95_us'' @ '':'' @ dec (unat (ls_cap s)) @ '','' @
     qt ''proc_p95_us'' @ '':'' @ dec (unat (ls_proc s)) @ '','' @
     qt ''enc_p95_us'' @ '':'' @ dec (unat (ls_enc s)) @ '','' @
     qt ''fps'' @ '':'' @ fmt_fixed 2 (decode_double (ls_fps s)) @ '','' @
     qt ''dropped'' @ '':'' @ dec (unat (ls_dropped s)) @ ''}''"

definition event_text :: "string \<Rightarrow> u16 \<Rightarrow> string \<Rightarrow> string" where
  "event_text id' cd body = ''{'' @ qt ''v'' @ '':1,'' @ qt ''id'' @ '':'' @ qt (c_str id') @ '','' @
     qt ''code'' @ '':'' @ dec (unat cd) @ '','' @
     qt ''text'' @ '':'' @ qt (c_str (take (min (length body) 120) body)) @ ''}''"

definition detections_head :: "u64 \<Rightarrow> u64 \<Rightarrow> string" where
  "detections_head sq cnt = ''{'' @ qt ''v'' @ '':1,'' @ qt ''seq'' @ '':'' @ dec (unat sq) @ '','' @
     qt ''count'' @ '':'' @ dec (unat cnt) @ '','' @ qt ''objects'' @ '':[''"

definition object_text :: "bool \<Rightarrow> detected_object \<Rightarrow> string" where
  "object_text comma ob = (if comma then '','' else '''') @ ''{'' @ qt ''label'' @ '':'' @
     qt (c_str (do_label ob)) @ '','' @ qt ''conf'' @ '':'' @ fmt_fixed 2 (decode_float (do_confidence ob)) @
     '','' @ qt ''x'' @ '':'' @ dec_int (sint (do_x ob)) @ '','' @ qt ''y'' @ '':'' @ dec_int (sint (do_y ob)) @
     '','' @ qt ''w'' @ '':'' @ dec_int (sint (do_w ob)) @ '','' @ qt ''h'' @ '':'' @ dec_int (sint (do_h ob)) @ ''}''"

definition detections_tail :: "bool \<Rightarrow> string" where
  "detections_tail truncated = ''],'' @ qt ''truncated'' @ '':'' @ (if truncated then ''true'' else ''false'') @ ''}''"

fun detections_loop :: "detected_object list \<Rightarrow> string \<times> int \<times> nat \<Rightarrow> string \<times> int \<times> nat" where
  "detections_loop [] st = st"
| "detections_loop (ob # obs) (buf, n, written) =
     (let room = 2048 - n - 16
      in if room \<le> 0 then (buf, n, written)
         else case snprintf_at (nat n) (nat room) (object_text (written > 0) ob) buf of
           (buf1, k) \<Rightarrow> if k \<le> 0 \<or> k \<ge> room then (buf1, n, written)
                         else detections_loop obs (buf1, n + k, written + 1))"

definition detections_payload :: "u64 \<Rightarrow> detected_object list \<Rightarrow> payload option" where
  "detections_payload sq objects =
     (case snprintf_at 0 2048 (detections_head sq (of_nat (length objects))) (zeros 2048) of
        (buf, n) \<Rightarrow> if n \<le> 0 then None
        else case detections_loop objects (buf, n, 0) of
          (buf1, n1, written) \<Rightarrow>
            case snprintf_at (nat n1) (2048 - nat n1) (detections_tail (written < length objects)) buf1 of
              (buf2, tail) \<Rightarrow> if tail \<le> 0 then None else Some (view buf2 (n1 + tail)))"

section \<open>The publisher\<close>

type_synonym log_line = "level \<times> string \<times> string \<times> key_value list"

record 'c mosq =
  mq_new :: "string \<Rightarrow> 'c option"
  mq_will_set :: "string \<Rightarrow> string \<Rightarrow> nat \<Rightarrow> bool \<Rightarrow> 'c \<Rightarrow> int \<times> 'c"
  mq_reconnect_delay_set :: "nat \<Rightarrow> nat \<Rightarrow> bool \<Rightarrow> 'c \<Rightarrow> 'c"
  mq_connect_async :: "string \<Rightarrow> int \<Rightarrow> nat \<Rightarrow> 'c \<Rightarrow> int \<times> 'c"
  mq_loop_start :: "'c \<Rightarrow> int \<times> 'c"
  mq_publish :: "string \<Rightarrow> payload \<Rightarrow> nat \<Rightarrow> bool \<Rightarrow> 'c \<Rightarrow> int \<times> 'c"
  mq_disconnect :: "'c \<Rightarrow> 'c"
  mq_loop_stop :: "bool \<Rightarrow> 'c \<Rightarrow> 'c"

definition MOSQ_ERR_SUCCESS :: int where "MOSQ_ERR_SUCCESS = 0"
definition MOSQ_ERR_ERRNO :: int where "MOSQ_ERR_ERRNO = 14"

record telemetry_config =
  tc_name :: string
  tc_host :: string
  tc_port :: u16
  tc_period_ms :: int

definition telemetry_config_default :: telemetry_config where
  "telemetry_config_default = \<lparr>tc_name = ''node1'', tc_host = ''127.0.0.1'', tc_port = 1883, tc_period_ms = 1000\<rparr>"

record 'c publisher =
  p_cfg :: telemetry_config
  p_client :: "'c option"
  p_running :: bool
  p_connected :: bool
  p_warned :: bool
  p_published :: u64
  p_failed :: u64
  p_logs :: "log_line list"

record telemetry_stats =
  ts_published :: u64
  ts_failed :: u64
  ts_connected :: bool

definition topic :: "'c publisher \<Rightarrow> string \<Rightarrow> string" where
  "topic p leaf = ''optronic/'' @ tc_name (p_cfg p) @ ''/'' @ leaf"

definition plog :: "level \<Rightarrow> string \<Rightarrow> key_value list \<Rightarrow> 'c publisher \<Rightarrow> 'c publisher" where
  "plog l msg kvs p = p\<lparr>p_logs := p_logs p @ [(l, ''telemetry'', msg, kvs)]\<rparr>"

definition impl_ctor :: "telemetry_config \<Rightarrow> mosq_lib \<Rightarrow> 'c publisher \<times> mosq_lib" where
  "impl_ctor cfg l = (\<lparr>p_cfg = cfg, p_client = None, p_running = False, p_connected = False,
     p_warned = False, p_published = 0, p_failed = 0, p_logs = []\<rparr>, lib_ref l)"

definition construct :: "'c mosq \<Rightarrow> 'c publisher \<Rightarrow> status \<times> 'c publisher" where
  "construct mq p =
     (case mq_new mq (c_str (tc_name (p_cfg p))) of
        None \<Rightarrow> (fail mqtt_connect ''mosquitto_new'', p\<lparr>p_client := None\<rparr>)
      | Some c \<Rightarrow>
          (case mq_will_set mq (c_str (topic p ''health'')) offline kQosPeriodic True c of
             (rc, c1) \<Rightarrow>
               if rc \<noteq> MOSQ_ERR_SUCCESS
               then (fail mqtt_connect ''mosquitto_will_set'', p\<lparr>p_client := Some c1\<rparr>)
               else (Inr (), p\<lparr>p_client := Some (mq_reconnect_delay_set mq 1 30 True c1)\<rparr>)))"

definition publisher_start :: "'c mosq \<Rightarrow> 'c publisher \<Rightarrow> status \<times> 'c publisher" where
  "publisher_start mq p =
     (case p_client p of
        None \<Rightarrow> (fail mqtt_connect ''mosquitto_loop_start'',
                  plog L_warn ''connect refused, will retry'' [] p)
      | Some c \<Rightarrow>
          (case mq_connect_async mq (c_str (tc_host (p_cfg p))) (uint (tc_port (p_cfg p))) 60 c of
             (rc, c1) \<Rightarrow>
               let p1 = (if rc \<noteq> MOSQ_ERR_SUCCESS \<and> rc \<noteq> MOSQ_ERR_ERRNO
                         then plog L_warn ''connect refused, will retry'' [] p else p)
               in case mq_loop_start mq c1 of
                    (rc2, c2) \<Rightarrow>
                      if rc2 \<noteq> MOSQ_ERR_SUCCESS
                      then (fail mqtt_connect ''mosquitto_loop_start'', p1\<lparr>p_client := Some c2\<rparr>)
                      else (Inr (), p1\<lparr>p_client := Some c2, p_running := True\<rparr>)))"

definition publish :: "'c mosq \<Rightarrow> string \<Rightarrow> payload \<Rightarrow> nat \<Rightarrow> bool \<Rightarrow> 'c publisher \<Rightarrow> 'c publisher" where
  "publish mq leaf pl qos retain p =
     (case p_client p of
        None \<Rightarrow> p
      | Some c \<Rightarrow>
          (case mq_publish mq (c_str (topic p leaf)) pl qos retain c of
             (rc, c1) \<Rightarrow>
               let p1 = p\<lparr>p_client := Some c1\<rparr>
               in if rc = MOSQ_ERR_SUCCESS then p1\<lparr>p_published := p_published p1 + 1\<rparr>
                  else let p2 = p1\<lparr>p_failed := p_failed p1 + 1\<rparr>
                  in if p_warned p2 then p2
                     else plog L_warn ''publish failed - broker unreachable''
                            [kv_of_int ''rc'' (word_of_int rc)] (p2\<lparr>p_warned := True\<rparr>)))"

definition publisher_stop :: "'c mosq \<Rightarrow> 'c publisher \<Rightarrow> 'c publisher" where
  "publisher_stop mq p =
     (if \<not> p_running p then p
      else let p1 = publish mq ''health'' (literal offline) kQosPeriodic True (p\<lparr>p_running := False\<rparr>)
      in p1\<lparr>p_client := map_option (\<lambda>c. mq_loop_stop mq False (mq_disconnect mq c)) (p_client p1)\<rparr>)"

definition impl_dtor :: "'c mosq \<Rightarrow> 'c publisher \<times> mosq_lib \<Rightarrow> 'c publisher \<times> mosq_lib" where
  "impl_dtor mq st = (case st of (p, l) \<Rightarrow> ((publisher_stop mq p)\<lparr>p_client := None\<rparr>, lib_unref l))"

definition publisher_create ::
  "'c mosq \<Rightarrow> telemetry_config \<Rightarrow> mosq_lib \<Rightarrow> 'c publisher expected \<times> mosq_lib" where
  "publisher_create mq cfg l =
     (case impl_ctor cfg l of
        (p, l1) \<Rightarrow>
          (case construct mq p of
             (Inl e, p1) \<Rightarrow> (Inl e, snd (impl_dtor mq (p1, l1)))
           | (Inr _, p1) \<Rightarrow> (Inr p1, l1)))"

definition on_connect :: "int \<Rightarrow> 'c publisher \<Rightarrow> 'c publisher" where
  "on_connect rc p =
     (let p1 = p\<lparr>p_connected := (rc = 0)\<rparr>
      in if rc = 0 then plog L_info ''connected to broker'' [] (p1\<lparr>p_warned := False\<rparr>) else p1)"

definition on_disconnect :: "'c publisher \<Rightarrow> 'c publisher" where
  "on_disconnect p = p\<lparr>p_connected := False\<rparr>"

definition publisher_stats :: "'c publisher \<Rightarrow> telemetry_stats" where
  "publisher_stats p = \<lparr>ts_published = p_published p, ts_failed = p_failed p, ts_connected = p_connected p\<rparr>"

definition publish_opt :: "'c mosq \<Rightarrow> string \<Rightarrow> payload option \<Rightarrow> nat \<Rightarrow> bool \<Rightarrow> 'c publisher \<Rightarrow> 'c publisher" where
  "publish_opt mq leaf pl qos retain p = (case pl of None \<Rightarrow> p | Some x \<Rightarrow> publish mq leaf x qos retain p)"

definition publish_health :: "'c mosq \<Rightarrow> health_sample \<Rightarrow> 'c publisher \<Rightarrow> 'c publisher" where
  "publish_health mq s p = publish_opt mq ''health'' (formatted 160 (health_text s)) kQosPeriodic True p"

definition publish_sensor :: "'c mosq \<Rightarrow> sensor_sample \<Rightarrow> 'c publisher \<Rightarrow> 'c publisher" where
  "publish_sensor mq s p = publish_opt mq ''sensor'' (formatted 200 (sensor_text s)) kQosPeriodic False p"

definition publish_latency :: "'c mosq \<Rightarrow> latency_sample \<Rightarrow> 'c publisher \<Rightarrow> 'c publisher" where
  "publish_latency mq s p = publish_opt mq ''latency'' (formatted 220 (latency_text s)) kQosPeriodic False p"

definition publish_detections :: "'c mosq \<Rightarrow> u64 \<Rightarrow> detected_object list \<Rightarrow> 'c publisher \<Rightarrow> 'c publisher" where
  "publish_detections mq sq objects p =
     publish_opt mq ''detections'' (detections_payload sq objects) kQosPeriodic False p"

definition publish_event :: "'c mosq \<Rightarrow> string \<Rightarrow> u16 \<Rightarrow> string \<Rightarrow> 'c publisher \<Rightarrow> 'c publisher" where
  "publish_event mq id' cd body p =
     publish_opt mq ''event'' (formatted 256 (event_text id' cd body)) kQosEvent False p"

section \<open>What fits in a buffer\<close>

lemma length_qt [fmt_simps]: "length (qt s) = length s + 2"
  by (simp add: qt_def)

lemma length_c_str: "length (c_str s) \<le> length s"
  by (simp add: c_str_def length_takeWhile_le)

lemma length_dec_u16: "length (dec (unat (w :: u16))) \<le> 5"
  using unsigned_less [of w, where 'a = nat] by (intro length_dec_le) simp_all

lemma length_dec_u32: "length (dec (unat (w :: u32))) \<le> 10"
  by (intro length_dec_le less_trans [OF unat_u32_bound]) simp_all

lemma length_dec_u64: "length (dec (unat (w :: u64))) \<le> 20"
  by (intro length_dec_le less_trans [OF unat_u64_bound]) simp_all

lemma length_dec_sint32: "length (dec_int (sint (w :: u32))) \<le> 11"
proof -
  have "- (2 ^ 31) \<le> sint w" "sint w < 2 ^ 31"
    using sint_ge [of w] sint_lt [of w] by simp_all
  then show ?thesis using length_dec_int_le [of 10 "sint w"] by (simp add: abs_if)
qed

lemma length_dec_sint64: "length (dec_int (sint (w :: u64))) \<le> 20"
proof -
  have "- (2 ^ 63) \<le> sint w" "sint w < 2 ^ 63"
    using sint_ge [of w] sint_lt [of w] by simp_all
  then show ?thesis using length_dec_int_le [of 19 "sint w"] by (simp add: abs_if)
qed

lemma formatted_fits:
  assumes "length body < sz" and "body \<noteq> ''''" and "length body \<le> 2147483647"
  shows "formatted sz body = Some \<lparr>pl_bytes = body, pl_over = 0\<rparr>"
  using assms by (simp add: formatted_def snprintf_at_def view_def zeros_def)

lemma formatted_over:
  assumes "0 < sz" and "length body \<ge> sz" and "length body \<le> 2147483647"
  shows "formatted sz body = Some \<lparr>pl_bytes = take (sz - 1) body @ [NUL], pl_over = length body - sz\<rparr>"
  using assms by (auto simp: formatted_def snprintf_at_def view_def zeros_def)

lemma length_health_text:
  "length (health_text s) \<le> length (hs_state s) + 71"
  using length_c_str [of "hs_state s"] length_dec_u64 [of "hs_uptime_s s"] length_dec_u32 [of "hs_faults s"]
  by (simp add: health_text_def length_qt)

lemma length_sensor_text: "length (sensor_text s) \<le> 113"
  using length_dec_sint64 [of "ss_gain s"] length_dec_sint64 [of "ss_temp_mc s"] length_dec_u64 [of "ss_frame_cnt s"]
  by (simp add: sensor_text_def length_qt)

lemma length_event_text:
  "length (event_text id' cd body) \<le> length id' + min (length body) 120 + 38"
proof -
  have "length (c_str (take (min (length body) 120) body)) \<le> min (length body) 120"
    using length_c_str [of "take (min (length body) 120) body"] by (simp add: min.commute)
  then show ?thesis using length_c_str [of id'] length_dec_u16 [of cd]
    by (auto simp: event_text_def length_qt min_def)
qed

lemma length_latency_text:
  "length (latency_text s) \<le> length (fmt_fixed 2 (decode_double (ls_fps s))) + 155"
  using length_dec_u64 [of "ls_cap s"] length_dec_u64 [of "ls_proc s"] length_dec_u64 [of "ls_enc s"]
    length_dec_u64 [of "ls_dropped s"]
  by (simp add: latency_text_def length_qt)

text \<open>
  Health, sensor and event payloads: the sensor payload always fits its buffer, the health payload
  for every state name of at most 88 characters, the event payload for every identifier of at most 97
  characters, whatever the text; the payload published is then the complete JSON text and no byte
  outside the buffer is read.
\<close>

lemma payloads_fit:
  "formatted 200 (sensor_text ss) = Some \<lparr>pl_bytes = sensor_text ss, pl_over = 0\<rparr>
   \<and> (length (hs_state hs) \<le> 88 \<longrightarrow>
        formatted 160 (health_text hs) = Some \<lparr>pl_bytes = health_text hs, pl_over = 0\<rparr>)
   \<and> (length id' \<le> 97 \<longrightarrow>
        formatted 256 (event_text id' cd body) = Some \<lparr>pl_bytes = event_text id' cd body, pl_over = 0\<rparr>)"
proof (intro conjI impI)
  show "formatted 200 (sensor_text ss) = Some \<lparr>pl_bytes = sensor_text ss, pl_over = 0\<rparr>"
    using length_sensor_text [of ss] by (intro formatted_fits) (simp_all add: sensor_text_def)
  show "formatted 160 (health_text hs) = Some \<lparr>pl_bytes = health_text hs, pl_over = 0\<rparr>"
    if "length (hs_state hs) \<le> 88"
    using length_health_text [of hs] that by (intro formatted_fits) (simp_all add: health_text_def)
  show "formatted 256 (event_text id' cd body) = Some \<lparr>pl_bytes = event_text id' cd body, pl_over = 0\<rparr>"
    if "length id' \<le> 97"
    using length_event_text [of id' cd body] that by (intro formatted_fits) (simp_all add: event_text_def)
qed

section \<open>The detections payload\<close>

fun objects_json :: "nat \<Rightarrow> detected_object list \<Rightarrow> string" where
  "objects_json w [] = ''''"
| "objects_json w (ob # obs) = object_text (w > 0) ob @ objects_json (w + 1) obs"

lemma length_detections_head: "length (detections_head sq cnt) \<le> 85"
  using length_dec_u64 [of sq] length_dec_u64 [of cnt] by (simp add: detections_head_def length_qt)

lemma length_detections_tail: "length (detections_tail b) = (if b then 19 else 20)"
  by (simp add: detections_tail_def length_qt)

lemma object_text_nonempty [simp]: "object_text b ob \<noteq> ''''"
  by (simp add: object_text_def)

lemma snprintf_room:
  assumes "snprintf_at off room body buf = (buf1, k)" and "0 < room" and "off + room \<le> length buf"
  shows "length buf1 = length buf" and "take off buf1 = take off buf"
    and "k < int room \<Longrightarrow> 0 \<le> k \<Longrightarrow> take (off + length body) buf1 = take off buf @ body \<and> k = int (length body)"
  using assms by (auto simp: snprintf_at_def min_def split: if_splits)

lemma detections_loop_spec:
  "length buf = 2048 \<Longrightarrow> 0 \<le> n \<Longrightarrow> n \<le> 2031 \<Longrightarrow>
   \<exists>m buf1 n1. detections_loop obs (buf, n, w) = (buf1, n1, w + m) \<and> m \<le> length obs
     \<and> length buf1 = 2048 \<and> n1 = n + int (length (objects_json w (take m obs))) \<and> n1 \<le> 2031
     \<and> take (nat n1) buf1 = take (nat n) buf @ objects_json w (take m obs)
     \<and> (n + int (length (objects_json w obs)) \<le> 2031 \<longrightarrow> m = length obs)"
proof (induction obs arbitrary: buf n w)
  case Nil
  then show ?case by simp
next
  case (Cons ob obs)
  obtain buf1 k where s: "snprintf_at (nat n) (nat (2048 - n - 16)) (object_text (w > 0) ob) buf = (buf1, k)"
    by fastforce
  have room: "0 < nat (2048 - n - 16)" "nat n + nat (2048 - n - 16) \<le> length buf"
    using Cons.prems by simp_all
  note r = snprintf_room [OF s room]
  show ?case
  proof (cases "k \<le> 0 \<or> k \<ge> 2048 - n - 16")
    case True
    have "n + int (length (objects_json w (ob # obs))) > 2031"
    proof (rule ccontr)
      assume "\<not> ?thesis"
      then have l: "int (length (object_text (w > 0) ob)) < 2048 - n - 16" using Cons.prems by simp
      then have "k = int (length (object_text (w > 0) ob))"
        using s Cons.prems by (auto simp: snprintf_at_def split: if_splits)
      moreover have "0 < length (object_text (w > 0) ob)" by simp
      ultimately show False using l True by linarith
    qed
    then show ?thesis using True s r(1,2) Cons.prems
      by (intro exI [of _ 0] exI [of _ buf1] exI [of _ n]) (auto simp: Let_def)
  next
    case False
    have k: "take (nat n + length (object_text (w > 0) ob)) buf1 = take (nat n) buf @ object_text (w > 0) ob"
      "k = int (length (object_text (w > 0) ob))"
      using r(3) False Cons.prems by auto
    have "length buf1 = 2048" "0 \<le> n + k" "n + k \<le> 2031" using r(1) Cons.prems False by auto
    from Cons.IH [OF this, of "w + 1"] obtain m buf2 n2 where IH:
      "detections_loop obs (buf1, n + k, w + 1) = (buf2, n2, w + 1 + m)" "m \<le> length obs"
      "length buf2 = 2048" "n2 = n + k + int (length (objects_json (w + 1) (take m obs)))" "n2 \<le> 2031"
      "take (nat n2) buf2 = take (nat (n + k)) buf1 @ objects_json (w + 1) (take m obs)"
      "n + k + int (length (objects_json (w + 1) obs)) \<le> 2031 \<longrightarrow> m = length obs"
      by blast
    have "nat (n + k) = nat n + length (object_text (w > 0) ob)" using k(2) Cons.prems by simp
    then show ?thesis using IH k s False Cons.prems(2)
      by (intro exI [of _ "Suc m"] exI [of _ buf2] exI [of _ n2]) (auto simp: Let_def)
  qed
qed

lemma detections_payload_spec:
  "\<exists>m pl. detections_payload sq obs = Some pl \<and> m \<le> length obs
     \<and> (let full = detections_head sq (of_nat (length obs)) @ objects_json 0 (take m obs)
                     @ detections_tail (m < length obs)
        in (if length full < 2048 then pl = \<lparr>pl_bytes = full, pl_over = 0\<rparr>
            else pl_over pl = length full - 2048 \<and> length full \<le> 2051 \<and> length (pl_bytes pl) = 2048))
     \<and> (length (detections_head sq (of_nat (length obs))) + length (objects_json 0 obs) \<le> 2031
          \<longrightarrow> m = length obs)"
proof -
  let ?head = "detections_head sq (of_nat (length obs))"
  obtain buf n where s: "snprintf_at 0 2048 ?head (zeros 2048) = (buf, n)" by fastforce
  have h: "length ?head \<le> 85" "?head \<noteq> ''''"
    by (rule length_detections_head) (simp add: detections_head_def)
  then have n: "n = int (length ?head)" "length buf = 2048" "take (length ?head) buf = ?head"
    using s by (auto simp: snprintf_at_def zeros_def)
  obtain m buf1 n1 where l: "detections_loop obs (buf, n, 0) = (buf1, n1, 0 + m)" "m \<le> length obs"
      "length buf1 = 2048" "n1 = n + int (length (objects_json 0 (take m obs)))" "n1 \<le> 2031"
      "take (nat n1) buf1 = take (nat n) buf @ objects_json 0 (take m obs)"
      "n + int (length (objects_json 0 obs)) \<le> 2031 \<longrightarrow> m = length obs"
    using detections_loop_spec [of buf n obs 0] n h by auto
  let ?tail = "detections_tail (m < length obs)"
  obtain buf2 t where t: "snprintf_at (nat n1) (2048 - nat n1) ?tail buf1 = (buf2, t)" by fastforce
  have tl: "length ?tail \<le> 20" "0 < length ?tail" by (simp_all add: length_detections_tail)
  have tv: "t = int (length ?tail)" using t tl by (auto simp: snprintf_at_def)
  have room: "0 < 2048 - nat n1" "nat n1 + (2048 - nat n1) \<le> length buf1" using l(3,5) by simp_all
  note r = snprintf_room [OF t room]
  let ?full = "?head @ objects_json 0 (take m obs) @ ?tail"
  have len: "nat (n1 + t) = length ?full" using l(4) n(1) tv by simp
  have "detections_payload sq obs = Some (view buf2 (n1 + t))"
    using s n h l(1) t tv tl by (simp add: detections_payload_def)
  moreover have "view buf2 (n1 + t) = \<lparr>pl_bytes = ?full, pl_over = 0\<rparr>" if "length ?full < 2048"
  proof -
    have "t < int (2048 - nat n1)" using that len l(4) n(1) tv by simp
    from r(3) [OF this] have "take (nat n1 + length ?tail) buf2 = take (nat n1) buf1 @ ?tail"
      using tv by simp
    moreover have "nat n1 + length ?tail = length ?full" using l(4) n(1) by simp
    moreover have "take (nat n1) buf1 = ?head @ objects_json 0 (take m obs)" using l(6) n by simp
    ultimately show ?thesis using len that r(1) l(3) by (simp add: view_def)
  qed
  moreover have "pl_over (view buf2 (n1 + t)) = length ?full - 2048"
    using len r(1) l(3) by (simp add: view_def)
  moreover have "length ?full \<le> 2051" using l(4,5) n(1) tl by simp
  moreover have "length (pl_bytes (view buf2 (n1 + t))) = min (length ?full) 2048"
    using len r(1) l(3) by (simp add: view_def min.commute)
  ultimately show ?thesis using l(2,7) n(1)
    by (intro exI [of _ m] exI [of _ "view buf2 (n1 + t)"]) (auto simp: Let_def)
qed

definition long_object :: detected_object where
  "long_object = \<lparr>do_label = replicate 1947 (CHR ''a''), do_confidence = 0, do_x = 0, do_y = 0, do_w = 0, do_h = 0\<rparr>"

lemma long_object_length: "length (objects_json 0 [long_object]) = 1995"
proof -
  have "c_str (replicate n (CHR ''a'')) = replicate n (CHR ''a'')" for n
    by (induction n) (simp_all add: c_str_def)
  then show ?thesis
    by (simp add: object_text_def long_object_def length_qt fp_eval dec_int_def)
qed

lemma short_head_length: "length (detections_head 0 1) = 36"
  by (simp add: detections_head_def length_qt dec_eval)

text \<open>
  The reserve of 16 bytes is smaller than the closing text of 19 or 20: a frame whose objects end
  just inside the reserve makes the publisher hand the broker 2051 bytes of a 2048-byte buffer, with
  the closing brackets cut off.
\<close>

lemma detections_overrun:
  "\<exists>pl. detections_payload 0 [long_object] = Some pl \<and> pl_over pl = 3 \<and> length (pl_bytes pl) = 2048"
proof -
  obtain m pl where d: "detections_payload 0 [long_object] = Some pl" "m \<le> 1"
     "let full = detections_head 0 1 @ objects_json 0 (take m [long_object]) @ detections_tail (m < 1)
        in (if length full < 2048 then pl = \<lparr>pl_bytes = full, pl_over = 0\<rparr>
            else pl_over pl = length full - 2048 \<and> length full \<le> 2051 \<and> length (pl_bytes pl) = 2048)"
     "m = 1"
    using detections_payload_spec [of 0 "[long_object]"] short_head_length long_object_length
    by (auto simp del: objects_json.simps)
  then have "pl_over pl = 3 \<and> length (pl_bytes pl) = 2048"
    using short_head_length long_object_length by (simp add: Let_def length_detections_tail del: objects_json.simps)
  then show ?thesis using d(1) by auto
qed

section \<open>Counting and warning\<close>

text \<open>What can happen to a running publisher, in any order.\<close>

datatype pub_event =
    Pub_health health_sample
  | Pub_sensor sensor_sample
  | Pub_latency latency_sample
  | Pub_detections u64 "detected_object list"
  | Pub_event string u16 string
  | Pub_connect int
  | Pub_disconnect

fun pub_step :: "'c mosq \<Rightarrow> pub_event \<Rightarrow> 'c publisher \<Rightarrow> 'c publisher" where
  "pub_step mq (Pub_health s) p = publish_health mq s p"
| "pub_step mq (Pub_sensor s) p = publish_sensor mq s p"
| "pub_step mq (Pub_latency s) p = publish_latency mq s p"
| "pub_step mq (Pub_detections sq obs) p = publish_detections mq sq obs p"
| "pub_step mq (Pub_event i cd body) p = publish_event mq i cd body p"
| "pub_step mq (Pub_connect rc) p = on_connect rc p"
| "pub_step mq Pub_disconnect p = on_disconnect p"

definition warnings :: "'c publisher \<Rightarrow> nat" where
  "warnings p = length (filter (\<lambda>(l, c, m, kvs). l = L_warn) (p_logs p))"

fun is_connect :: "pub_event \<Rightarrow> bool" where
  "is_connect (Pub_connect rc) = (rc = 0)"
| "is_connect _ = False"

definition payload_of :: "pub_event \<Rightarrow> payload option" where
  "payload_of e = (case e of
      Pub_health s \<Rightarrow> formatted 160 (health_text s)
    | Pub_sensor s \<Rightarrow> formatted 200 (sensor_text s)
    | Pub_latency s \<Rightarrow> formatted 220 (latency_text s)
    | Pub_detections sq obs \<Rightarrow> detections_payload sq obs
    | Pub_event i cd body \<Rightarrow> formatted 256 (event_text i cd body)
    | _ \<Rightarrow> None)"

definition attempts :: "pub_event list \<Rightarrow> nat" where
  "attempts es = length (filter (\<lambda>e. payload_of e \<noteq> None) es)"

definition connects :: "pub_event list \<Rightarrow> nat" where
  "connects es = length (filter is_connect es)"

lemma publish_step:
  assumes "p_client p \<noteq> None"
  shows "p_client (publish mq leaf pl qos retain p) \<noteq> None
    \<and> p_published (publish mq leaf pl qos retain p) + p_failed (publish mq leaf pl qos retain p)
        = p_published p + p_failed p + 1
    \<and> warnings (publish mq leaf pl qos retain p) + of_bool (\<not> p_warned (publish mq leaf pl qos retain p))
        = warnings p + of_bool (\<not> p_warned p)"
  using assms
  by (auto simp: publish_def plog_def warnings_def Let_def split: option.splits prod.splits)

lemma publish_opt_step:
  assumes "p_client p \<noteq> None"
  shows "p_client (publish_opt mq leaf pl qos retain p) \<noteq> None
    \<and> p_published (publish_opt mq leaf pl qos retain p) + p_failed (publish_opt mq leaf pl qos retain p)
        = p_published p + p_failed p + (if pl \<noteq> None then 1 else 0)
    \<and> warnings (publish_opt mq leaf pl qos retain p) + of_bool (\<not> p_warned (publish_opt mq leaf pl qos retain p))
        = warnings p + of_bool (\<not> p_warned p)"
proof (cases pl)
  case None
  then show ?thesis using assms by (simp add: publish_opt_def)
next
  case (Some x)
  then show ?thesis using publish_step [OF assms, of mq leaf x qos retain] by (simp add: publish_opt_def)
qed

lemma pub_step_step:
  assumes "p_client p \<noteq> None"
  shows "p_client (pub_step mq e p) \<noteq> None
    \<and> p_published (pub_step mq e p) + p_failed (pub_step mq e p)
        = p_published p + p_failed p + (if payload_of e \<noteq> None then 1 else 0)
    \<and> warnings (pub_step mq e p) + of_bool (\<not> p_warned (pub_step mq e p))
        \<le> warnings p + of_bool (\<not> p_warned p) + of_bool (is_connect e)"
proof (cases e)
  case (Pub_connect rc)
  then show ?thesis using assms
    by (auto simp: on_connect_def Let_def plog_def warnings_def payload_of_def)
qed (use assms publish_opt_step [OF assms] in \<open>simp_all add: publish_health_def publish_sensor_def
      publish_latency_def publish_detections_def publish_event_def on_disconnect_def payload_of_def
      warnings_def del: not_None_eq\<close>)

lemma pub_run:
  "p_client p \<noteq> None \<Longrightarrow>
   p_client (fold (pub_step mq) es p) \<noteq> None
   \<and> p_published (fold (pub_step mq) es p) + p_failed (fold (pub_step mq) es p)
       = p_published p + p_failed p + of_nat (attempts es)
   \<and> warnings (fold (pub_step mq) es p) + of_bool (\<not> p_warned (fold (pub_step mq) es p))
       \<le> warnings p + of_bool (\<not> p_warned p) + connects es"
proof (induction es arbitrary: p)
  case Nil
  then show ?case by (simp add: attempts_def connects_def)
next
  case (Cons e es)
  note s = pub_step_step [OF Cons.prems, of mq e]
  note IH = Cons.IH [of "pub_step mq e p"]
  have a: "of_nat (attempts (e # es)) = (if payload_of e \<noteq> None then 1 else 0) + (of_nat (attempts es) :: u64)"
    "connects (e # es) = of_bool (is_connect e) + connects es"
    by (simp_all add: attempts_def connects_def)
  show ?case using s IH unfolding a by (auto simp: ac_simps)
qed

text \<open>
  C22. Telemetry only observes: for any library behaviour and any sequence of samples, events, connects
  and disconnects after a successful creation, every sample is either counted as published or counted
  as failed, and the number of warnings is at most one more than the number of times the broker
  connected.
\<close>

theorem telemetry_counts:
  assumes "publisher_create mq cfg l = (Inr p, l')"
  shows "let p' = fold (pub_step mq) es p
    in ts_published (publisher_stats p') + ts_failed (publisher_stats p') = of_nat (attempts es)
     \<and> warnings p' \<le> connects es + 1"
proof -
  have p: "p_client p \<noteq> None" "p_published p = 0" "p_failed p = 0" "warnings p = 0"
    using assms
    by (auto simp: publisher_create_def impl_ctor_def construct_def warnings_def fail_def
        split: option.splits prod.splits if_splits)
  note r = pub_run [OF p(1), of mq es]
  have "warnings (fold (pub_step mq) es p) \<le> of_bool (\<not> p_warned p) + connects es"
    using r p(4) by linarith
  also have "\<dots> \<le> connects es + 1" by simp
  finally show ?thesis using r p by (simp add: Let_def publisher_stats_def)
qed

definition refusing_mosq :: "unit mosq" where
  "refusing_mosq = \<lparr>mq_new = (\<lambda>_. Some ()), mq_will_set = (\<lambda>_ _ _ _ c. (0, c)),
     mq_reconnect_delay_set = (\<lambda>_ _ _ c. c), mq_connect_async = (\<lambda>_ _ _ c. (14, c)),
     mq_loop_start = (\<lambda>c. (0, c)), mq_publish = (\<lambda>_ _ _ _ c. (4, c)), mq_disconnect = (\<lambda>c. c),
     mq_loop_stop = (\<lambda>_ c. c)\<rparr>"

definition demo_sample :: sensor_sample where
  "demo_sample = \<lparr>ss_gain = 256, ss_nuc = False, ss_temp_mc = 41250, ss_frame_cnt = 0\<rparr>"

theorem telemetry_counts_witness:
  "\<exists>p l'. publisher_create refusing_mosq telemetry_config_default \<lparr>lib_users = 0, lib_ready = False\<rparr> = (Inr p, l')
     \<and> warnings (fold (pub_step refusing_mosq) [Pub_sensor demo_sample, Pub_sensor demo_sample] p) \<le> 1"
proof -
  let ?l = "\<lparr>lib_users = 0, lib_ready = False\<rparr>"
  obtain p l' where c: "publisher_create refusing_mosq telemetry_config_default ?l = (Inr p, l')"
    by (auto simp: publisher_create_def impl_ctor_def construct_def refusing_mosq_def MOSQ_ERR_SUCCESS_def)
  from telemetry_counts [OF this, of "[Pub_sensor demo_sample, Pub_sensor demo_sample]"] c show ?thesis
    by (auto simp: Let_def connects_def)
qed

text \<open>
  Creation and shutdown are clean: a creation that fails gives the library use back; a created
  publisher holds exactly one; stopping publishes the retained OFFLINE state only when the publisher
  was started, leaves it stopped and is idempotent; and destroying a publisher, started or not, gives
  the use back.
\<close>

lemma publisher_lifecycle:
  "(case publisher_create mq cfg l of
      (Inl e, l') \<Rightarrow> lib_users l' = lib_users l \<and> err_code e = mqtt_connect
    | (Inr p, l') \<Rightarrow> lib_users l' = lib_users l + 1 \<and> \<not> p_running p
        \<and> (let p1 = snd (publisher_start mq p); p2 = publisher_stop mq p1
           in \<not> p_running p2 \<and> publisher_stop mq p2 = p2
            \<and> publisher_stop mq p = p
            \<and> p_published p2 + p_failed p2 = p_published p1 + p_failed p1 + (if p_running p1 then 1 else 0)
            \<and> lib_users (snd (impl_dtor mq (p1, l'))) = lib_users l))"
proof (cases "publisher_create mq cfg l")
  case (Pair r l')
  show ?thesis
  proof (cases r)
    case (Inl e)
    then show ?thesis using Pair
      by (auto simp: publisher_create_def impl_ctor_def construct_def fail_def impl_dtor_def lib_ref_def
          lib_unref_def Let_def split: option.splits prod.splits if_splits sum.splits)
  next
    case (Inr p)
    have p: "p_client p \<noteq> None" "\<not> p_running p" "lib_users l' = lib_users l + 1"
      using Pair Inr
      by (auto simp: publisher_create_def impl_ctor_def construct_def fail_def lib_ref_def Let_def
          split: option.splits prod.splits if_splits)
    let ?p1 = "snd (publisher_start mq p)"
    have c1: "p_client ?p1 \<noteq> None"
      using p(1) by (auto simp: publisher_start_def plog_def Let_def split: option.splits prod.splits)
    have run: "p_running (publish mq lf pl q b x) = p_running x" for lf pl q b x
      by (auto simp: publish_def plog_def Let_def split: option.splits prod.splits)
    have stop: "\<not> p_running (publisher_stop mq x)" for x
      by (simp add: publisher_stop_def run Let_def)
    have "publisher_stop mq (publisher_stop mq ?p1) = publisher_stop mq ?p1"
      using stop [of ?p1] by (subst publisher_stop_def) simp
    moreover have "p_published (publisher_stop mq ?p1) + p_failed (publisher_stop mq ?p1)
        = p_published ?p1 + p_failed ?p1 + (if p_running ?p1 then 1 else 0)"
      using publish_step [of "?p1\<lparr>p_running := False\<rparr>" mq "''health''" "literal offline" kQosPeriodic True] c1
      by (simp add: publisher_stop_def Let_def)
    ultimately show ?thesis using Pair Inr p stop
      by (simp add: Let_def publisher_stop_def [of mq p] impl_dtor_def lib_unref_def)
  qed
qed

end
