(* ===== verification/Telemetry_Json.thy ===== *)
theory Telemetry_Json
  imports Telemetry
begin

text \<open>
  The payloads of the publisher are written with \<^verbatim>\<open>snprintf\<close> and no JSON library
  (\<^verbatim>\<open>publisher.cpp\<close>). This theory reads them back: a reader for the part of JSON (RFC 8259)
  without white space between tokens, escapes in strings and exponents in numbers, and the proof that
  it finds in every payload the values of the sample, with the names of
  \<^verbatim>\<open>docs/07_LOGGING_TELEMETRY.md\<close>. What the reader refuses on strings that need an escape and on
  values that are not finite, JSON refuses too.
\<close>

section \<open>A reader of JSON\<close>

datatype json =
    J_null
  | J_bool bool
  | J_num int nat  \<comment> \<open>\<open>J_num i k\<close> is the number i / 10 ^ k, with k decimals\<close>
  | J_str string
  | J_list "json list"
  | J_obj "(string \<times> json) list"

datatype tok =
    T_lbrace | T_rbrace | T_lbrack | T_rbrack | T_colon | T_comma
  | T_str string
  | T_num int nat
  | T_bool bool
  | T_null

definition plain_char :: "char \<Rightarrow> bool" where
  "plain_char c \<longleftrightarrow> c \<noteq> CHR 0x22 \<and> c \<noteq> CHR 0x5C \<and> 32 \<le> (of_char c :: nat)"

definition plain :: "string \<Rightarrow> bool" where
  "plain s \<longleftrightarrow> (\<forall>c \<in> set s. plain_char c)"

text \<open>The rest of a string after its opening quote.\<close>

definition read_str :: "string \<Rightarrow> (string \<times> string) option" where
  "read_str cs =
     (case dropWhile plain_char cs of
        [] \<Rightarrow> None
      | q # r \<Rightarrow> if q = CHR 0x22 then Some (takeWhile plain_char cs, r) else None)"

text \<open>A number: no leading zero, and digits on both sides of the point.\<close>

definition read_decimals :: "string \<Rightarrow> string \<Rightarrow> ((nat \<times> nat) \<times> string) option" where
  "read_decimals ds r =
     (case r of
        c # r1 \<Rightarrow> if c \<noteq> CHR ''.'' then Some ((digits_val ds, 0), r)
                  else let fs = takeWhile is_digit r1
                  in if fs = '''' then None
                     else Some ((digits_val (ds @ fs), length fs), dropWhile is_digit r1)
      | [] \<Rightarrow> Some ((digits_val ds, 0), r))"

definition read_unsigned :: "string \<Rightarrow> ((nat \<times> nat) \<times> string) option" where
  "read_unsigned cs =
     (let ds = takeWhile is_digit cs
      in if ds = '''' \<or> (hd ds = CHR ''0'' \<and> tl ds \<noteq> '''') then None
         else read_decimals ds (dropWhile is_digit cs))"

definition read_num :: "string \<Rightarrow> (tok \<times> string) option" where
  "read_num cs =
     (case cs of
        [] \<Rightarrow> None
      | c # r \<Rightarrow>
          if c = CHR ''-'' then map_option (\<lambda>((n, k), r1). (T_num (- int n) k, r1)) (read_unsigned r)
          else map_option (\<lambda>((n, k), r1). (T_num (int n) k, r1)) (read_unsigned cs))"

definition is_lower :: "char \<Rightarrow> bool" where
  "is_lower c \<longleftrightarrow> 97 \<le> (of_char c :: nat) \<and> (of_char c :: nat) \<le> 122"

definition read_word :: "string \<Rightarrow> (tok \<times> string) option" where
  "read_word cs =
     (let w = takeWhile is_lower cs; r = dropWhile is_lower cs
      in if w = ''true'' then Some (T_bool True, r)
         else if w = ''false'' then Some (T_bool False, r)
         else if w = ''null'' then Some (T_null, r) else None)"

definition punctuation :: "char \<Rightarrow> tok option" where
  "punctuation c =
     (if c = CHR ''{'' then Some T_lbrace else if c = CHR ''}'' then Some T_rbrace
      else if c = CHR ''['' then Some T_lbrack else if c = CHR '']'' then Some T_rbrack
      else if c = CHR '':'' then Some T_colon else if c = CHR '','' then Some T_comma else None)"

definition read_tok :: "char \<Rightarrow> string \<Rightarrow> (tok \<times> string) option" where
  "read_tok c cs =
     (case punctuation c of
        Some t \<Rightarrow> Some (t, cs)
      | None \<Rightarrow>
          if c = CHR 0x22 then map_option (\<lambda>(s, r). (T_str s, r)) (read_str cs)
          else if is_lower c then read_word (c # cs)
          else read_num (c # cs))"

lemma dropWhile_rest: "dropWhile P xs = y # ys \<Longrightarrow> length ys < length xs"
  using length_dropWhile_le [of P xs] by simp

lemma read_str_shorter: "read_str cs = Some (s, r) \<Longrightarrow> length r < length cs"
  by (auto simp: read_str_def dest: dropWhile_rest split: list.splits if_splits)

lemma read_decimals_shorter: "read_decimals ds r = Some (x, r') \<Longrightarrow> length r' \<le> length r"
  by (auto simp: read_decimals_def Let_def length_dropWhile_le le_SucI split: list.splits if_splits)

lemma read_unsigned_shorter: "read_unsigned cs = Some (x, r) \<Longrightarrow> length r < length cs"
proof -
  assume r: "read_unsigned cs = Some (x, r)"
  then have "takeWhile is_digit cs \<noteq> ''''" and d: "read_decimals (takeWhile is_digit cs) (dropWhile is_digit cs) = Some (x, r)"
    by (auto simp: read_unsigned_def Let_def split: if_splits)
  then have "length (dropWhile is_digit cs) < length cs"
    by (metis append_self_conv2 length_dropWhile_le nat_less_le append_eq_conv_conj
        takeWhile_dropWhile_id length_0_conv length_append add_cancel_left_left)
  with read_decimals_shorter [OF d] show ?thesis by linarith
qed

lemma read_num_shorter: "read_num cs = Some (t, r) \<Longrightarrow> length r < length cs"
  by (cases cs) (auto simp: read_num_def dest!: read_unsigned_shorter split: if_splits)

lemma read_word_shorter: "is_lower c \<Longrightarrow> read_word (c # cs) = Some (t, r) \<Longrightarrow> length r < length (c # cs)"
  using length_dropWhile_le [of is_lower cs] by (auto simp: read_word_def Let_def split: if_splits)

lemma read_tok_shorter: "read_tok c cs = Some (t, r) \<Longrightarrow> length r \<le> length cs"
  by (auto simp: read_tok_def dest!: read_str_shorter read_num_shorter read_word_shorter
      split: option.splits if_splits)

function lex :: "string \<Rightarrow> tok list option" where
  "lex [] = Some []"
| "lex (c # cs) =
     (case read_tok c cs of None \<Rightarrow> None | Some (t, r) \<Rightarrow> map_option ((#) t) (lex r))"
  by pat_completeness auto

termination lex
  by (relation "measure length") (auto dest: read_tok_shorter)

text \<open>A value from tokens; fuel \<open>2 * length\<close> is enough for the tokens of any value (below).\<close>

fun rd :: "nat \<Rightarrow> tok list \<Rightarrow> (json \<times> tok list) option"
  and rd_items :: "nat \<Rightarrow> tok list \<Rightarrow> (json list \<times> tok list) option"
  and rd_members :: "nat \<Rightarrow> tok list \<Rightarrow> ((string \<times> json) list \<times> tok list) option" where
  "rd 0 ts = None"
| "rd (Suc k) ts =
     (case ts of
        T_null # r \<Rightarrow> Some (J_null, r)
      | T_bool b # r \<Rightarrow> Some (J_bool b, r)
      | T_num i n # r \<Rightarrow> Some (J_num i n, r)
      | T_str s # r \<Rightarrow> Some (J_str s, r)
      | T_lbrack # T_rbrack # r \<Rightarrow> Some (J_list [], r)
      | T_lbrack # r \<Rightarrow> map_option (\<lambda>(js, r'). (J_list js, r')) (rd_items k r)
      | T_lbrace # T_rbrace # r \<Rightarrow> Some (J_obj [], r)
      | T_lbrace # r \<Rightarrow> map_option (\<lambda>(ms, r'). (J_obj ms, r')) (rd_members k r)
      | _ \<Rightarrow> None)"
| "rd_items 0 ts = None"
| "rd_items (Suc k) ts =
     (case rd k ts of
        Some (j, T_comma # r) \<Rightarrow> map_option (\<lambda>(js, r'). (j # js, r')) (rd_items k r)
      | Some (j, T_rbrack # r) \<Rightarrow> Some ([j], r)
      | _ \<Rightarrow> None)"
| "rd_members 0 ts = None"
| "rd_members (Suc k) ts =
     (case ts of
        T_str s # T_colon # r0 \<Rightarrow>
          (case rd k r0 of
             Some (j, T_comma # r) \<Rightarrow> map_option (\<lambda>(ms, r'). ((s, j) # ms, r')) (rd_members k r)
           | Some (j, T_rbrace # r) \<Rightarrow> Some ([(s, j)], r)
           | _ \<Rightarrow> None)
      | _ \<Rightarrow> None)"

definition json_read :: "string \<Rightarrow> json option" where
  "json_read s =
     (case lex s of
        None \<Rightarrow> None
      | Some ts \<Rightarrow> (case rd (2 * length ts) ts of Some (j, []) \<Rightarrow> Some j | _ \<Rightarrow> None))"

section \<open>The tokens of a value are read back\<close>

fun toks :: "json \<Rightarrow> tok list"
  and toks_items :: "json list \<Rightarrow> tok list"
  and toks_members :: "(string \<times> json) list \<Rightarrow> tok list" where
  "toks J_null = [T_null]"
| "toks (J_bool b) = [T_bool b]"
| "toks (J_num i k) = [T_num i k]"
| "toks (J_str s) = [T_str s]"
| "toks (J_list js) = T_lbrack # toks_items js"
| "toks (J_obj ms) = T_lbrace # toks_members ms"
| "toks_items [] = [T_rbrack]"
| "toks_items (j # js) = toks j @ (if js = [] then [T_rbrack] else T_comma # toks_items js)"
| "toks_members [] = [T_rbrace]"
| "toks_members ((s, j) # ms) =
     T_str s # T_colon # toks j @ (if ms = [] then [T_rbrace] else T_comma # toks_members ms)"

lemma toks_starts: "\<exists>t u. toks j = t # u \<and> t \<noteq> T_rbrack"
  by (cases j) simp_all

lemma toks_nonempty [simp]: "toks j \<noteq> []"
  by (cases j) simp_all

lemma rd_list:
  "js \<noteq> [] \<Longrightarrow> rd (Suc k) (T_lbrack # toks_items js @ r) =
     map_option (\<lambda>(js, r'). (J_list js, r')) (rd_items k (toks_items js @ r))"
proof (cases js)
  case (Cons j js')
  obtain t u where "toks j = t # u" "t \<noteq> T_rbrack" using toks_starts by blast
  then show ?thesis using Cons by (cases t) simp_all
qed simp

lemma rd_obj:
  "ms \<noteq> [] \<Longrightarrow> rd (Suc k) (T_lbrace # toks_members ms @ r) =
     map_option (\<lambda>(ms, r'). (J_obj ms, r')) (rd_members k (toks_members ms @ r))"
  by (cases ms) (auto)

lemma rd_scalar:
  assumes "Suc 0 < k"
  shows "rd k (T_null # r) = Some (J_null, r)" "rd k (T_bool b # r) = Some (J_bool b, r)"
    "rd k (T_num i n # r) = Some (J_num i n, r)" "rd k (T_str s # r) = Some (J_str s, r)"
  using assms by (cases k; simp)+

lemma rd_toks:
  "2 * length (toks j) \<le> k \<Longrightarrow> rd k (toks j @ r) = Some (j, r)"
  "js \<noteq> [] \<Longrightarrow> 2 * length (toks_items js) + 1 \<le> k \<Longrightarrow> rd_items k (toks_items js @ r) = Some (js, r)"
  "ms \<noteq> [] \<Longrightarrow> 2 * length (toks_members ms) + 1 \<le> k \<Longrightarrow> rd_members k (toks_members ms @ r) = Some (ms, r)"
proof (induction j and js and ms arbitrary: k r and k r and k r rule: toks_toks_items_toks_members.induct)
  case (5 js)
  then obtain k' where k: "k = Suc k'" by (cases k) simp_all
  show ?case
  proof (cases "js = []")
    case False
    then show ?thesis using 5 k by (simp add: rd_list del: rd.simps)
  qed (simp add: k)
next
  case (6 ms)
  then obtain k' where k: "k = Suc k'" by (cases k) simp_all
  show ?case
  proof (cases "ms = []")
    case False
    then show ?thesis using 6 k by (simp add: rd_obj del: rd.simps)
  qed (simp add: k)
next
  case (8 j js)
  then obtain k' where k: "k = Suc k'" by (cases k) simp_all
  show ?case
  proof (cases "js = []")
    case True
    then show ?thesis using 8 k by simp
  next
    case False
    then show ?thesis using 8 k by simp
  qed
next
  case (10 s j ms)
  then obtain k' where k: "k = Suc k'" by (cases k) simp_all
  show ?case
  proof (cases "ms = []")
    case True
    then show ?thesis using 10 k by simp
  next
    case False
    then show ?thesis using 10 k by simp
  qed
qed (simp_all add: rd_scalar)

lemma json_read_toks: "lex s = Some (toks j) \<Longrightarrow> json_read s = Some j"
  using rd_toks(1) [of j "2 * length (toks j)" "[]"] by (simp add: json_read_def)

lemma json_read_refused: "lex s = None \<Longrightarrow> json_read s = None"
  by (simp add: json_read_def)

section \<open>The tokens of what the code prints\<close>

declare lex.simps [simp del]

lemma lex_empty [simp]: "lex '''' = Some []"
  by (simp add: lex.simps)

lemma lex_punctuation [simp]:
  "lex (CHR ''{'' # r) = map_option ((#) T_lbrace) (lex r)"
  "lex (CHR ''}'' # r) = map_option ((#) T_rbrace) (lex r)"
  "lex (CHR ''['' # r) = map_option ((#) T_lbrack) (lex r)"
  "lex (CHR '']'' # r) = map_option ((#) T_rbrack) (lex r)"
  "lex (CHR '':'' # r) = map_option ((#) T_colon) (lex r)"
  "lex (CHR '','' # r) = map_option ((#) T_comma) (lex r)"
  by (simp_all add: lex.simps read_tok_def punctuation_def)

lemma lex_qt:
  assumes "plain s"
  shows "lex (qt s @ r) = map_option ((#) (T_str s)) (lex r)"
proof -
  have "takeWhile plain_char (s @ CHR 0x22 # r) = s" "dropWhile plain_char (s @ CHR 0x22 # r) = CHR 0x22 # r"
    using assms by (simp_all add: plain_def plain_char_def takeWhile_append dropWhile_append)
  then show ?thesis
    by (simp add: qt_def lex.simps read_tok_def punctuation_def read_str_def)
qed

definition ends_number :: "string \<Rightarrow> bool" where
  "ends_number r \<longleftrightarrow> r \<noteq> '''' \<and> \<not> is_digit (hd r) \<and> hd r \<noteq> CHR ''.''"

lemma ends_number_sep [simp]: "ends_number (CHR '','' # r)" "ends_number (CHR ''}'' # r)"
  by (simp_all add: ends_number_def is_digit_def)

lemma digit_zero: "d < 10 \<Longrightarrow> digit d = CHR ''0'' \<longleftrightarrow> d = 0"
  using digit_val_digit [of d] by (auto simp: digit_val_def digit_def)

lemma dec_leading_zero: "hd (dec n) = CHR ''0'' \<Longrightarrow> dec n = ''0''"
proof (induction n rule: dec.induct)
  case (1 n)
  show ?case
  proof (cases "n < 10")
    case True
    then show ?thesis using 1 by (auto simp: dec_small digit_zero)
  next
    case False
    then have "hd (dec (n div 10)) = CHR ''0''" using 1 by (simp add: dec_big)
    then have "dec (n div 10) = dec 0" using 1 False by (simp add: dec_small digit_def)
    then have "n div 10 = 0" by (simp only: dec_inject)
    then show ?thesis using False by simp
  qed
qed

lemma take_digits:
  assumes "\<forall>c \<in> set ds. is_digit c" and "r = '''' \<or> \<not> is_digit (hd r)"
  shows "takeWhile is_digit (ds @ r) = ds" "dropWhile is_digit (ds @ r) = r"
  using assms by (cases r; simp add: takeWhile_append dropWhile_append)+

lemma read_dec:
  assumes "ends_number r"
  shows "read_unsigned (dec n @ r) = Some ((n, 0), r)"
proof -
  have "takeWhile is_digit (dec n @ r) = dec n" "dropWhile is_digit (dec n @ r) = r"
    using assms by (intro take_digits; simp add: ends_number_def dec_digits)+
  then show ?thesis using assms dec_leading_zero [of n]
    by (auto simp: read_unsigned_def Let_def read_decimals_def ends_number_def split: list.splits)
qed

lemma digits_val_append: "digits_val (xs @ ys) = digits_val xs * 10 ^ length ys + digits_val ys"
  by (induction ys rule: rev_induct) (simp_all add: digits_val_def algebra_simps)

lemma two_digits:
  assumes "n < 100"
  shows "length (pad_left 2 (CHR ''0'') (dec n)) = 2" "digits_val (pad_left 2 (CHR ''0'') (dec n)) = n"
    "\<forall>c \<in> set (pad_left 2 (CHR ''0'') (dec n)). is_digit c"
proof -
  have "length (dec n) \<le> 2" using assms by (intro length_dec_le) simp_all
  then show "length (pad_left 2 (CHR ''0'') (dec n)) = 2" by (simp add: length_pad_left)
  have "digits_val (replicate k (CHR ''0'')) = 0" for k
    by (induction k) (simp_all add: digits_val_def digit_val_def)
  then show "digits_val (pad_left 2 (CHR ''0'') (dec n)) = n"
    by (simp add: pad_left_def digits_val_append)
  show "\<forall>c \<in> set (pad_left 2 (CHR ''0'') (dec n)). is_digit c"
    by (auto simp: pad_left_def is_digit_def [of "CHR ''0''"] dec_digits)
qed

lemma read_hundredths:
  assumes "ends_number r"
  shows "read_unsigned (dec (n div 100) @ CHR ''.'' # pad_left 2 (CHR ''0'') (dec (n mod 100)) @ r)
    = Some ((n, 2), r)"
proof -
  let ?p = "pad_left 2 (CHR ''0'') (dec (n mod 100))"
  have p: "length ?p = 2" "digits_val ?p = n mod 100" "\<forall>c \<in> set ?p. is_digit c"
    using two_digits [of "n mod 100"] by simp_all
  have t: "takeWhile is_digit (dec (n div 100) @ CHR ''.'' # ?p @ r) = dec (n div 100)"
    "dropWhile is_digit (dec (n div 100) @ CHR ''.'' # ?p @ r) = CHR ''.'' # ?p @ r"
    by (intro take_digits; simp add: dec_digits is_digit_def [of "CHR ''.''"])+
  have u: "takeWhile is_digit (?p @ r) = ?p" "dropWhile is_digit (?p @ r) = r"
    using assms p(3) by (intro take_digits; simp add: ends_number_def)+
  have "?p \<noteq> ''''" using p(1) by auto
  then show ?thesis using dec_leading_zero [of "n div 100"] t u p(1,2)
    by (auto simp: read_unsigned_def Let_def read_decimals_def digits_val_append)
qed

text \<open>A digit or a minus sign starts a number.\<close>

lemma digit_not_other:
  assumes "is_digit c"
  shows "punctuation c = None" "c \<noteq> CHR 0x22" "\<not> is_lower c" "c \<noteq> CHR ''-''"
  using assms by (auto simp: is_digit_def punctuation_def is_lower_def)

lemma lex_unsigned:
  assumes "read_unsigned (dec n @ r) = Some ((m, k), r')"
  shows "lex (dec n @ r) = map_option ((#) (T_num (int m) k)) (lex r')"
    and "lex (CHR ''-'' # dec n @ r) = map_option ((#) (T_num (- int m) k)) (lex r')"
proof -
  obtain c cs where d: "dec n = c # cs" by (cases "dec n") simp_all
  note o = digit_not_other [OF dec_digits [of c n, unfolded d, simplified]]
  show "lex (dec n @ r) = map_option ((#) (T_num (int m) k)) (lex r')"
    using assms o by (simp add: d lex.simps read_tok_def read_num_def)
  show "lex (CHR ''-'' # dec n @ r) = map_option ((#) (T_num (- int m) k)) (lex r')"
    using assms by (simp add: lex.simps read_tok_def read_num_def punctuation_def is_lower_def)
qed

lemma lex_dec: "ends_number r \<Longrightarrow> lex (dec n @ r) = map_option ((#) (T_num (int n) 0)) (lex r)"
  by (rule lex_unsigned(1) [OF read_dec])

lemma lex_dec_int: "ends_number r \<Longrightarrow> lex (dec_int i @ r) = map_option ((#) (T_num i 0)) (lex r)"
  using lex_unsigned [OF read_dec, of r "nat i"] lex_unsigned [OF read_dec, of r "nat (- i)"]
  by (auto simp: dec_int_def)

text \<open>A finite value printed with two decimals, in hundredths.\<close>

definition hundredths :: "fp \<Rightarrow> int" where
  "hundredths v =
     (case v of Fin s m e \<Rightarrow> (if s then - 1 else 1) * int (scaled 2 m e) | _ \<Rightarrow> 0)"

definition finite_fp :: "fp \<Rightarrow> bool" where
  "finite_fp v \<longleftrightarrow> (case v of Fin s m e \<Rightarrow> True | _ \<Rightarrow> False)"

lemma lex_fixed:
  assumes "finite_fp v" and "ends_number r"
  shows "lex (fmt_fixed 2 v @ r) = map_option ((#) (T_num (hundredths v) 2)) (lex r)"
proof (cases v)
  case (Fin s m e)
  note u = lex_unsigned [OF read_hundredths [OF assms(2), of "scaled 2 m e"]]
  show ?thesis using u by (simp add: Fin fmt_fixed_def Let_def hundredths_def)
qed (use assms(1) in \<open>simp_all add: finite_fp_def\<close>)

lemma word_letters:
  "is_lower (CHR ''t'')" "is_lower (CHR ''r'')" "is_lower (CHR ''u'')" "is_lower (CHR ''e'')"
  "is_lower (CHR ''f'')" "is_lower (CHR ''a'')" "is_lower (CHR ''l'')" "is_lower (CHR ''s'')"
  "punctuation (CHR ''t'') = None" "punctuation (CHR ''f'') = None"
  by (simp_all add: is_lower_def punctuation_def)

lemma lex_bool:
  assumes "\<not> is_lower (hd r)"
  shows "lex (CHR ''t'' # CHR ''r'' # CHR ''u'' # CHR ''e'' # r) = map_option ((#) (T_bool True)) (lex r)"
    "lex (CHR ''f'' # CHR ''a'' # CHR ''l'' # CHR ''s'' # CHR ''e'' # r) = map_option ((#) (T_bool False)) (lex r)"
proof -
  have "takeWhile is_lower r = ''''" "dropWhile is_lower r = r" using assms by (cases r; simp)+
  then show "lex (CHR ''t'' # CHR ''r'' # CHR ''u'' # CHR ''e'' # r) = map_option ((#) (T_bool True)) (lex r)"
    "lex (CHR ''f'' # CHR ''a'' # CHR ''l'' # CHR ''s'' # CHR ''e'' # r) = map_option ((#) (T_bool False)) (lex r)"
    by (simp_all add: lex.simps(2) [of "CHR ''t''"] lex.simps(2) [of "CHR ''f''"] read_tok_def word_letters read_word_def)
qed

lemma lower_separator: "\<not> is_lower (CHR '','')" "\<not> is_lower (CHR ''}'')"
  by (simp_all add: is_lower_def)

lemma lex_version: "lex (CHR ''1'' # CHR '','' # r) = map_option ((#) (T_num 1 0)) (lex (CHR '','' # r))"
  using lex_dec [of "CHR '','' # r" 1] by (simp add: dec_eval)

lemma plain_rules: "plain ''''" "plain (c # s) \<longleftrightarrow> plain_char c \<and> plain s"
  by (simp_all add: plain_def)

lemma plain_names:
  "plain ''v''" "plain ''state''" "plain ''uptime_s''" "plain ''faults''" "plain ''gain''" "plain ''nuc''"
  "plain ''temp_mc''" "plain ''frame_cnt''" "plain ''cap_p95_us''" "plain ''proc_p95_us''" "plain ''enc_p95_us''"
  "plain ''fps''" "plain ''dropped''" "plain ''id''" "plain ''code''" "plain ''text''" "plain ''seq''"
  "plain ''count''" "plain ''objects''" "plain ''truncated''" "plain ''label''" "plain ''conf''"
  "plain ''x''" "plain ''y''" "plain ''w''" "plain ''h''"
  by (simp_all add: plain_rules plain_char_def)

lemma plain_c_str:
  assumes "plain s"
  shows "c_str s = s"
proof (rule c_str_id)
  have "\<not> plain_char NUL" by (simp add: plain_char_def)
  then show "NUL \<notin> set s" using assms unfolding plain_def by blast
qed

lemma plain_take: "plain s \<Longrightarrow> plain (take n s)"
  by (auto simp: plain_def dest: in_set_takeD)

lemmas lex_rules = lex_qt lex_dec lex_dec_int lex_fixed lex_bool lower_separator lex_version plain_names
  option.map_comp comp_def

section \<open>The payloads\<close>

definition health_json :: "health_sample \<Rightarrow> json" where
  "health_json s = J_obj [(''v'', J_num 1 0), (''state'', J_str (hs_state s)),
     (''uptime_s'', J_num (uint (hs_uptime_s s)) 0), (''faults'', J_num (uint (hs_faults s)) 0)]"

definition sensor_json :: "sensor_sample \<Rightarrow> json" where
  "sensor_json s = J_obj [(''v'', J_num 1 0), (''gain'', J_num (sint (ss_gain s)) 0),
     (''nuc'', J_bool (ss_nuc s)), (''temp_mc'', J_num (sint (ss_temp_mc s)) 0),
     (''frame_cnt'', J_num (uint (ss_frame_cnt s)) 0)]"

definition latency_json :: "latency_sample \<Rightarrow> json" where
  "latency_json s = J_obj [(''v'', J_num 1 0), (''cap_p95_us'', J_num (uint (ls_cap s)) 0),
     (''proc_p95_us'', J_num (uint (ls_proc s)) 0), (''enc_p95_us'', J_num (uint (ls_enc s)) 0),
     (''fps'', J_num (hundredths (decode_double (ls_fps s))) 2), (''dropped'', J_num (uint (ls_dropped s)) 0)]"

definition event_json :: "string \<Rightarrow> u16 \<Rightarrow> string \<Rightarrow> json" where
  "event_json id' cd body = J_obj [(''v'', J_num 1 0), (''id'', J_str id'), (''code'', J_num (uint cd) 0),
     (''text'', J_str (take 120 body))]"

definition object_json :: "detected_object \<Rightarrow> json" where
  "object_json ob = J_obj [(''label'', J_str (do_label ob)),
     (''conf'', J_num (hundredths (decode_float (do_confidence ob))) 2),
     (''x'', J_num (sint (do_x ob)) 0), (''y'', J_num (sint (do_y ob)) 0),
     (''w'', J_num (sint (do_w ob)) 0), (''h'', J_num (sint (do_h ob)) 0)]"

definition detections_json :: "u64 \<Rightarrow> nat \<Rightarrow> bool \<Rightarrow> detected_object list \<Rightarrow> json" where
  "detections_json sq cnt trunc obs = J_obj [(''v'', J_num 1 0), (''seq'', J_num (uint sq) 0),
     (''count'', J_num (int cnt) 0), (''objects'', J_list (map object_json obs)),
     (''truncated'', J_bool trunc)]"

lemma uint_of_unat: "int (unat w) = uint w"
  by simp

lemma read_health: "plain (hs_state s) \<Longrightarrow> json_read (health_text s) = Some (health_json s)"
  by (rule json_read_toks) (simp add: health_text_def health_json_def lex_rules plain_c_str)

lemma read_sensor: "json_read (sensor_text s) = Some (sensor_json s)"
  by (rule json_read_toks) (simp add: sensor_text_def sensor_json_def lex_rules)

lemma read_latency:
  "finite_fp (decode_double (ls_fps s)) \<Longrightarrow> json_read (latency_text s) = Some (latency_json s)"
  by (rule json_read_toks) (simp add: latency_text_def latency_json_def lex_rules)

lemma read_event: "plain id' \<Longrightarrow> plain body \<Longrightarrow> json_read (event_text id' cd body) = Some (event_json id' cd body)"
  by (rule json_read_toks)
    (simp add: event_text_def event_json_def lex_rules plain_c_str plain_take min_def)

section \<open>Detections\<close>

definition printable :: "detected_object \<Rightarrow> bool" where
  "printable ob \<longleftrightarrow> plain (do_label ob) \<and> finite_fp (decode_float (do_confidence ob))"

definition no_quote :: "detected_object \<Rightarrow> bool" where
  "no_quote ob \<longleftrightarrow> CHR 0x22 \<notin> set (do_label ob) \<and> NUL \<notin> set (do_label ob)"

text \<open>A string with a control character or a backslash, and a number that is not finite, are refused.\<close>

lemma lex_qt_refused:
  assumes "\<not> plain s" and "CHR 0x22 \<notin> set s"
  shows "lex (qt s @ r) = None"
proof -
  obtain c where c: "c \<in> set s" "\<not> plain_char c" using assms(1) by (auto simp: plain_def)
  then have "dropWhile plain_char s \<noteq> ''''" unfolding dropWhile_eq_Nil_conv by blast
  then obtain d ds where d: "dropWhile plain_char s = d # ds" unfolding neq_Nil_conv by blast
  then have "d \<in> set s" using set_dropWhileD [of d plain_char s] by simp
  then have "d \<noteq> CHR 0x22" using assms(2) by blast
  moreover have "dropWhile plain_char (s @ CHR 0x22 # r) = d # ds @ CHR 0x22 # r"
    using dropWhile_append1 [of c s plain_char] c d by simp
  ultimately show ?thesis by (simp add: qt_def lex.simps read_tok_def punctuation_def read_str_def)
qed

lemma lex_nan_refused:
  "lex (''nan'' @ CHR '','' # r) = None" "lex (''-nan'' @ CHR '','' # r) = None"
  "lex (''inf'' @ CHR '','' # r) = None" "lex (''-inf'' @ CHR '','' # r) = None"
proof -
  have l: "is_lower (CHR ''n'')" "is_lower (CHR ''a'')" "is_lower (CHR ''i'')" "is_lower (CHR ''f'')"
    "\<not> is_lower (CHR ''-'')" "\<not> is_digit (CHR ''n'')" "\<not> is_digit (CHR ''i'')"
    "punctuation (CHR ''n'') = None" "punctuation (CHR ''i'') = None" "punctuation (CHR ''-'') = None"
    by (simp_all add: is_lower_def is_digit_def punctuation_def)
  have w: "read_word (''nan'' @ CHR '','' # r) = None" "read_word (''inf'' @ CHR '','' # r) = None"
    by (simp_all add: read_word_def l lower_separator)
  have n: "read_num (CHR ''-'' # ''nan'' @ CHR '','' # r) = None" "read_num (CHR ''-'' # ''inf'' @ CHR '','' # r) = None"
    by (simp_all add: read_num_def read_unsigned_def l)
  show "lex (''nan'' @ CHR '','' # r) = None" "lex (''inf'' @ CHR '','' # r) = None"
    using w by (simp_all add: lex.simps(2) [of "CHR ''n''"] lex.simps(2) [of "CHR ''i''"] read_tok_def l)
  show "lex (''-nan'' @ CHR '','' # r) = None" "lex (''-inf'' @ CHR '','' # r) = None"
    using n by (simp_all add: lex.simps(2) [of "CHR ''-''"] read_tok_def l)
qed

lemma lex_fixed_refused: "\<not> finite_fp v \<Longrightarrow> lex (fmt_fixed 2 v @ CHR '','' # r) = None"
  by (cases v) (simp_all only: finite_fp_def fmt_fixed_def fp.case lex_nan_refused not_True_eq_False simp_thms split: if_split)

definition object_tokens :: "detected_object \<Rightarrow> tok list" where
  "object_tokens ob = toks (object_json ob)"

lemma lex_object:
  assumes "no_quote ob"
  shows "lex (object_text c ob @ r) =
    (if printable ob then map_option ((@) ((if c then [T_comma] else []) @ object_tokens ob)) (lex r) else None)"
proof -
  have n: "c_str (do_label ob) = do_label ob" using assms by (intro c_str_id) (simp add: no_quote_def)
  show ?thesis
  proof (cases "plain (do_label ob)")
    case False
    with assms have "lex (qt (do_label ob) @ r) = None" for r
      by (intro lex_qt_refused) (simp_all add: no_quote_def)
    then show ?thesis using False
      by (simp add: object_text_def n printable_def lex_qt plain_names)
  next
    case True
    show ?thesis
    proof (cases "finite_fp (decode_float (do_confidence ob))")
      case False
      with True show ?thesis
        by (simp add: object_text_def n printable_def lex_qt plain_names lex_fixed_refused)
    next
      case fin: True
      with True show ?thesis
        by (cases "lex r") (simp_all add: object_text_def n printable_def object_tokens_def object_json_def lex_rules)
    qed
  qed
qed

lemma lex_more_objects:
  "\<forall>ob \<in> set obs. no_quote ob \<Longrightarrow> 0 < w \<Longrightarrow> lex (objects_json w obs @ r) =
    (if \<forall>ob \<in> set obs. printable ob
     then map_option ((@) (concat (map (\<lambda>ob. T_comma # object_tokens ob) obs))) (lex r) else None)"
proof (induction obs arbitrary: w)
  case (Cons ob obs)
  then show ?case by (simp add: lex_object option.map_comp comp_def)
qed (cases "lex r"; simp)

lemma toks_items_objects:
  "toks_items (object_json ob # map object_json obs) =
     object_tokens ob @ concat (map (\<lambda>ob. T_comma # object_tokens ob) obs) @ [T_rbrack]"
  by (induction obs arbitrary: ob) (simp_all add: object_tokens_def)

lemma lex_objects:
  assumes "\<forall>ob \<in> set obs. no_quote ob"
  shows "lex (objects_json 0 obs @ CHR '']'' # r) =
    (if \<forall>ob \<in> set obs. printable ob
     then map_option ((@) (toks_items (map object_json obs))) (lex r) else None)"
proof (cases obs)
  case (Cons ob obs')
  have "toks_items (map object_json obs) =
      object_tokens ob @ concat (map (\<lambda>ob. T_comma # object_tokens ob) obs') @ [T_rbrack]"
    using toks_items_objects Cons by simp
  then show ?thesis using assms
    by (cases "lex r") (simp_all add: Cons lex_object lex_more_objects del: toks_items.simps)
qed (cases "lex r"; simp)

lemma read_detections:
  assumes "\<forall>ob \<in> set obs. no_quote ob"
  shows "json_read (detections_head sq cnt @ objects_json 0 obs @ detections_tail b) =
    (if \<forall>ob \<in> set obs. printable ob then Some (detections_json sq (unat cnt) b obs) else None)"
proof (cases "\<forall>ob \<in> set obs. printable ob")
  case True
  then show ?thesis
    by (auto intro!: json_read_toks simp: detections_head_def detections_tail_def detections_json_def
        lex_rules lex_objects [OF assms])
next
  case False
  then have "lex (objects_json 0 obs @ CHR '']'' # r) = None" for r
    by (simp only: lex_objects [OF assms] if_False)
  then show ?thesis unfolding if_not_P [OF False]
    by (intro json_read_refused) (simp add: detections_head_def detections_tail_def lex_rules)
qed

lemma unat_count: "unat (of_nat n :: u64) = n mod 2 ^ 64"
  by (simp add: unat_of_nat take_bit_eq_mod)

section \<open>What a subscriber reads\<close>

lemma latency_fits:
  "length (latency_text ls) < 220 \<Longrightarrow>
     formatted 220 (latency_text ls) = Some \<lparr>pl_bytes = latency_text ls, pl_over = 0\<rparr>"
  by (intro formatted_fits) (simp_all add: latency_text_def)

text \<open>
  C39. Round trip of the samples: the sensor payload, whatever the registers hold, is JSON that reads
  back as exactly the sample; so is the health payload for a state name of at most 88 characters that
  needs no escape, the latency payload for a finite frame rate when it fits its buffer, and the event
  payload for an identifier of at most 97 characters and a text that need no escape, with the text cut
  to 120 characters. Each is handed to the broker library on its topic, with the retain flag on health
  only and the quality of service of its kind, and no byte outside the buffer with it.
\<close>

theorem samples_read_back:
  "(\<exists>pl. formatted 200 (sensor_text ss) = Some pl \<and> pl_over pl = 0
           \<and> publish_sensor mq ss p = publish mq ''sensor'' pl kQosPeriodic False p
      \<and> json_read (pl_bytes pl) = Some (sensor_json ss))
   \<and> (plain (hs_state hs) \<and> length (hs_state hs) \<le> 88 \<longrightarrow>
        (\<exists>pl. formatted 160 (health_text hs) = Some pl \<and> pl_over pl = 0
           \<and> publish_health mq hs p = publish mq ''health'' pl kQosPeriodic True p
           \<and> json_read (pl_bytes pl) = Some (health_json hs)))
   \<and> (finite_fp (decode_double (ls_fps ls)) \<and> length (latency_text ls) < 220 \<longrightarrow>
        (\<exists>pl. formatted 220 (latency_text ls) = Some pl \<and> pl_over pl = 0
           \<and> publish_latency mq ls p = publish mq ''latency'' pl kQosPeriodic False p
           \<and> json_read (pl_bytes pl) = Some (latency_json ls)))
   \<and> (plain id' \<and> length id' \<le> 97 \<and> plain body \<longrightarrow>
        (\<exists>pl. formatted 256 (event_text id' cd body) = Some pl \<and> pl_over pl = 0
           \<and> publish_event mq id' cd body p = publish mq ''event'' pl kQosEvent False p
           \<and> json_read (pl_bytes pl) = Some (event_json id' cd body)))"
proof (intro conjI impI)
  show "\<exists>pl. formatted 220 (latency_text ls) = Some pl \<and> pl_over pl = 0
      \<and> publish_latency mq ls p = publish mq ''latency'' pl kQosPeriodic False p
      \<and> json_read (pl_bytes pl) = Some (latency_json ls)"
    if "finite_fp (decode_double (ls_fps ls)) \<and> length (latency_text ls) < 220"
    using that by (simp add: latency_fits read_latency publish_latency_def publish_opt_def)
qed (simp_all add: payloads_fit read_sensor read_health read_event publish_opt_def
    publish_sensor_def publish_health_def publish_event_def)

theorem samples_read_back_witness:
  "json_read (health_text \<lparr>hs_state = ''OK'', hs_uptime_s = 7, hs_faults = 0\<rparr>)
     = Some (J_obj [(''v'', J_num 1 0), (''state'', J_str ''OK''), (''uptime_s'', J_num 7 0), (''faults'', J_num 0 0)])
   \<and> json_read (event_text ''NUC_DONE'' 0 ''channel OK'')
     = Some (J_obj [(''v'', J_num 1 0), (''id'', J_str ''NUC_DONE''), (''code'', J_num 0 0),
         (''text'', J_str ''channel OK'')])"
proof -
  have p: "plain ''OK''" "plain ''NUC_DONE''" "plain ''channel OK''"
    by (simp_all add: plain_rules plain_char_def)
  let ?h = "\<lparr>hs_state = ''OK'', hs_uptime_s = 7, hs_faults = 0\<rparr>"
  have l: "formatted 160 (health_text ?h) = Some \<lparr>pl_bytes = health_text ?h, pl_over = 0\<rparr>"
    "formatted 256 (event_text ''NUC_DONE'' 0 ''channel OK'')
      = Some \<lparr>pl_bytes = event_text ''NUC_DONE'' 0 ''channel OK'', pl_over = 0\<rparr>"
    by (simp_all add: payloads_fit)
  show ?thesis
    using samples_read_back [where hs = ?h and id' = "''NUC_DONE''" and body = "''channel OK''" and cd = 0
        and mq = refusing_mosq] p l
    by (auto simp: health_json_def event_json_def)
qed

text \<open>
  C21. The detections payload, for any frame: it holds the first objects of the list, all of them when
  they fit in 2031 bytes with the header. When the complete text is shorter than the buffer it is
  published as it is, and (for labels without a quote) it is JSON exactly when no label needs an escape
  and every confidence is a number; it then reads back as the sequence number, the number of objects in
  the frame (in 64 bits), the objects written, and whether any was left out. Otherwise the view published goes past
  the buffer by what the text exceeds it, at most 3 bytes.
\<close>

theorem detections_read_back:
  "\<exists>m pl. detections_payload sq obs = Some pl \<and> m \<le> length obs
     \<and> publish_detections mq sq obs p = publish mq ''detections'' pl kQosPeriodic False p
     \<and> (length (detections_head sq (of_nat (length obs))) + length (objects_json 0 obs) \<le> 2031
          \<longrightarrow> m = length obs)
     \<and> (let full = detections_head sq (of_nat (length obs)) @ objects_json 0 (take m obs)
                     @ detections_tail (m < length obs)
        in if length full < 2048
           then pl = \<lparr>pl_bytes = full, pl_over = 0\<rparr>
             \<and> ((\<forall>ob \<in> set (take m obs). no_quote ob) \<longrightarrow>
                  json_read (pl_bytes pl) =
                    (if \<forall>ob \<in> set (take m obs). printable ob
                     then Some (detections_json sq (length obs mod 2 ^ 64) (m < length obs) (take m obs)) else None))
           else pl_over pl = length full - 2048 \<and> length full \<le> 2051 \<and> length (pl_bytes pl) = 2048)"
proof -
  obtain m pl where d: "detections_payload sq obs = Some pl" "m \<le> length obs"
     "let full = detections_head sq (of_nat (length obs)) @ objects_json 0 (take m obs)
                     @ detections_tail (m < length obs)
        in (if length full < 2048 then pl = \<lparr>pl_bytes = full, pl_over = 0\<rparr>
            else pl_over pl = length full - 2048 \<and> length full \<le> 2051 \<and> length (pl_bytes pl) = 2048)"
     "length (detections_head sq (of_nat (length obs))) + length (objects_json 0 obs) \<le> 2031 \<longrightarrow> m = length obs"
    using detections_payload_spec [of sq obs] by blast
  let ?full = "detections_head sq (of_nat (length obs)) @ objects_json 0 (take m obs)
    @ detections_tail (m < length obs)"
  have r: "(\<forall>ob \<in> set (take m obs). no_quote ob) \<longrightarrow>
      json_read ?full = (if \<forall>ob \<in> set (take m obs). printable ob
        then Some (detections_json sq (length obs mod 2 ^ 64) (m < length obs) (take m obs)) else None)"
    using read_detections [of "take m obs" sq "of_nat (length obs)" "m < length obs"] unfolding unat_count by blast
  have "if length ?full < 2048
      then pl = \<lparr>pl_bytes = ?full, pl_over = 0\<rparr>
        \<and> ((\<forall>ob \<in> set (take m obs). no_quote ob) \<longrightarrow>
            json_read (pl_bytes pl) = (if \<forall>ob \<in> set (take m obs). printable ob
              then Some (detections_json sq (length obs mod 2 ^ 64) (m < length obs) (take m obs)) else None))
      else pl_over pl = length ?full - 2048 \<and> length ?full \<le> 2051 \<and> length (pl_bytes pl) = 2048"
    using d(3) r unfolding Let_def by (cases "length ?full < 2048") (simp_all only: if_True if_False payload.simps simp_thms)
  moreover have "publish_detections mq sq obs p = publish mq ''detections'' pl kQosPeriodic False p"
    by (simp add: publish_detections_def publish_opt_def d(1))
  ultimately show ?thesis using d(1,2,4) unfolding Let_def by blast
qed

definition cat_object :: "string \<Rightarrow> u32 \<Rightarrow> detected_object" where
  "cat_object l conf = \<lparr>do_label = l, do_confidence = conf, do_x = 45, do_y = - 5, do_w = 10, do_h = 20\<rparr>"

lemma cat_length: "length (objects_json 0 [cat_object ''cat'' 0x3F800000]) = 55"
  by (simp add: cat_object_def object_text_def c_str_def length_qt fp_eval dec_int_def)

lemma cat_printable: "printable (cat_object ''cat'' 0x3F800000)" "no_quote (cat_object l a) \<longleftrightarrow> CHR 0x22 \<notin> set l \<and> NUL \<notin> set l"
  "\<not> printable (cat_object ''cat'' 0x7FC00000)" "\<not> printable (cat_object [CHR ''c'', CHR 0x0D] a)"
proof -
  have "decode_float 0x3F800000 = Fin False 8388608 (- 23)" "decode_float 0x7FC00000 = NaN False"
    by (simp_all add: decode_float_def decode_fp_def)
  moreover have "plain ''cat''" "\<not> plain [CHR ''c'', CHR 0x0D]"
    by (simp_all add: plain_rules plain_char_def)
  ultimately show "printable (cat_object ''cat'' 0x3F800000)" "no_quote (cat_object l a) \<longleftrightarrow> CHR 0x22 \<notin> set l \<and> NUL \<notin> set l"
    "\<not> printable (cat_object ''cat'' 0x7FC00000)" "\<not> printable (cat_object [CHR ''c'', CHR 0x0D] a)"
    by (simp_all add: printable_def no_quote_def cat_object_def finite_fp_def)
qed

theorem detections_read_back_witness:
  "\<exists>pl. detections_payload 7 [cat_object ''cat'' 0x3F800000] = Some pl \<and> pl_over pl = 0
     \<and> json_read (pl_bytes pl) = Some (J_obj [(''v'', J_num 1 0), (''seq'', J_num 7 0), (''count'', J_num 1 0),
          (''objects'', J_list [J_obj [(''label'', J_str ''cat''), (''conf'', J_num 100 2), (''x'', J_num 45 0),
             (''y'', J_num (- 5) 0), (''w'', J_num 10 0), (''h'', J_num 20 0)]]), (''truncated'', J_bool False)])"
proof -
  let ?ob = "cat_object ''cat'' 0x3F800000"
  have h: "length (detections_head 7 1) \<le> 85" by (rule length_detections_head)
  have j: "detections_json 7 1 False [?ob] = J_obj [(''v'', J_num 1 0), (''seq'', J_num 7 0), (''count'', J_num 1 0),
          (''objects'', J_list [J_obj [(''label'', J_str ''cat''), (''conf'', J_num 100 2), (''x'', J_num 45 0),
             (''y'', J_num (- 5) 0), (''w'', J_num 10 0), (''h'', J_num 20 0)]]), (''truncated'', J_bool False)]"
    by (simp add: detections_json_def object_json_def cat_object_def hundredths_def fp_eval)
  have fits: "length (detections_head 7 1) + length (objects_json 0 [?ob]) \<le> 2031"
    "length (detections_head 7 1 @ objects_json 0 [?ob] @ detections_tail False) < 2048"
    using h by (simp_all only: length_append cat_length length_detections_tail if_False)
  show ?thesis
    using detections_read_back [where sq = 7 and obs = "[?ob]" and mq = refusing_mosq] fits
    by (auto simp: Let_def cat_printable j [unfolded One_nat_def] simp del: objects_json.simps)
qed

text \<open>
  A class name with a carriage return at its end, as every line of a file with CR LF line ends has
  (\<^verbatim>\<open>std::getline\<close> takes off the line feed only), and a confidence that is not a number: the payload
  is not JSON.
\<close>

lemma not_json_examples:
  "json_read (detections_head sq 1 @ objects_json 0 [cat_object [CHR ''c'', CHR 0x0D] 0x3F800000] @ detections_tail False) = None"
  "json_read (detections_head sq 1 @ objects_json 0 [cat_object ''cat'' 0x7FC00000] @ detections_tail False) = None"
proof -
  note r = read_detections [of "[cat_object [CHR ''c'', CHR 0x0D] 0x3F800000]" sq 1 False]
    read_detections [of "[cat_object ''cat'' 0x7FC00000]" sq 1 False]
  from r show "json_read (detections_head sq 1 @ objects_json 0 [cat_object [CHR ''c'', CHR 0x0D] 0x3F800000] @ detections_tail False) = None"
    "json_read (detections_head sq 1 @ objects_json 0 [cat_object ''cat'' 0x7FC00000] @ detections_tail False) = None"
    by (simp_all add: cat_printable del: objects_json.simps)
qed

end
