(* ===== verification/Telemetry_Clients.thy ===== *)
theory Telemetry_Clients
  imports Telemetry
begin

text \<open>
  The broker library's resources over the lives of any number of publishers: the process-wide use
  count, the clients made and destroyed, and the background thread of each client. \<open>watched\<close> is a
  broker library that also keeps the calls each client has seen; the publisher's own operations
  (\<open>Telemetry\<close>) run on it. A \<^verbatim>\<open>Publisher\<close> variable is a slot, empty before its creation and after it
  was moved from or destroyed (\<^verbatim>\<open>publisher.cpp\<close>).
\<close>

section \<open>The calls a client sees\<close>

datatype mcall =
    M_new
  | M_will
  | M_delay
  | M_connect
  | M_loop_start bool
  | M_publish string payload nat bool
  | M_disconnect
  | M_loop_stop
  | M_destroy

type_synonym 'c client = "'c \<times> mcall list"

definition seen :: "mcall \<Rightarrow> 'a \<times> 'c \<Rightarrow> mcall list \<Rightarrow> 'a \<times> 'c client" where
  "seen m r h = (fst r, (snd r, h @ [m]))"

definition watched :: "'c mosq \<Rightarrow> 'c client mosq" where
  "watched mq =
     \<lparr>mq_new = (\<lambda>i. map_option (\<lambda>c. (c, [M_new])) (mq_new mq i)),
      mq_will_set = (\<lambda>t pl q r (c, h). seen M_will (mq_will_set mq t pl q r c) h),
      mq_reconnect_delay_set = (\<lambda>a b e (c, h). (mq_reconnect_delay_set mq a b e c, h @ [M_delay])),
      mq_connect_async = (\<lambda>a b k (c, h). seen M_connect (mq_connect_async mq a b k c) h),
      mq_loop_start = (\<lambda>(c, h). let r = mq_loop_start mq c in seen (M_loop_start (fst r = MOSQ_ERR_SUCCESS)) r h),
      mq_publish = (\<lambda>t pl q r (c, h). seen (M_publish t pl q r) (mq_publish mq t pl q r c) h),
      mq_disconnect = (\<lambda>(c, h). (mq_disconnect mq c, h @ [M_disconnect])),
      mq_loop_stop = (\<lambda>f (c, h). (mq_loop_stop mq f c, h @ [M_loop_stop]))\<rparr>"

text \<open>
  What the library asks of its clients: a client is configured, its thread started and stopped, and it
  is destroyed once and with no thread running; it leaves the broker only right after the retained
  OFFLINE state. \<open>Cl_looping b\<close>: the thread runs, and \<open>b\<close> tells whether the last message was that one.
\<close>

datatype client_state =
    Cl_none
  | Cl_made
  | Cl_ready
  | Cl_looping bool
  | Cl_leaving
  | Cl_gone
  | Cl_misused

fun client_step :: "client_state \<Rightarrow> mcall \<Rightarrow> client_state" where
  "client_step Cl_none M_new = Cl_made"
| "client_step Cl_made M_will = Cl_made"
| "client_step Cl_made M_delay = Cl_ready"
| "client_step Cl_made M_destroy = Cl_gone"
| "client_step Cl_ready M_connect = Cl_ready"
| "client_step Cl_ready (M_loop_start good) = (if good then Cl_looping False else Cl_ready)"
| "client_step Cl_ready (M_publish t pl q r) = Cl_ready"
| "client_step Cl_ready M_destroy = Cl_gone"
| "client_step (Cl_looping b) M_connect = Cl_looping b"
| "client_step (Cl_looping b) (M_loop_start good) = Cl_looping b"
| "client_step (Cl_looping b) (M_publish t pl q r) = Cl_looping (pl = literal offline \<and> r)"
| "client_step (Cl_looping b) M_disconnect = (if b then Cl_leaving else Cl_misused)"
| "client_step Cl_leaving M_loop_stop = Cl_ready"
| "client_step _ _ = Cl_misused"

definition client_after :: "mcall list \<Rightarrow> client_state" where
  "client_after h = foldl client_step Cl_none h"

lemma client_after_rules [simp]:
  "client_after [] = Cl_none"
  "client_after (m # ms) = foldl client_step (client_step Cl_none m) ms"
  "client_after (h @ ms) = foldl client_step (client_after h) ms"
  by (simp_all add: client_after_def)

section \<open>Publishers in their variables\<close>

record 'c psys =
  sy_lib :: mosq_lib
  sy_slots :: "nat \<Rightarrow> 'c client publisher option"
  sy_made :: nat
  sy_dead :: "mcall list list"

definition psys_init :: "'c psys" where
  "psys_init = \<lparr>sy_lib = \<lparr>lib_users = 0, lib_ready = False\<rparr>, sy_slots = (\<lambda>i. None), sy_made = 0, sy_dead = []\<rparr>"

text \<open>\<^verbatim>\<open>MosqDelete\<close>: the deleter of the client pointer.\<close>

definition mosq_delete :: "'c client option \<Rightarrow> mcall list list" where
  "mosq_delete m = (case m of None \<Rightarrow> [] | Some (c, h) \<Rightarrow> [h @ [M_destroy]])"

definition delete_impl :: "'c mosq \<Rightarrow> 'c client publisher \<Rightarrow> 'c psys \<Rightarrow> 'c psys" where
  "delete_impl mq p s = s\<lparr>sy_lib := snd (impl_dtor (watched mq) (p, sy_lib s)),
     sy_dead := sy_dead s @ mosq_delete (p_client (publisher_stop (watched mq) p))\<rparr>"

text \<open>What a slot held before something is moved into it.\<close>

definition delete_old :: "'c mosq \<Rightarrow> 'c client publisher option \<Rightarrow> 'c psys \<Rightarrow> 'c psys" where
  "delete_old mq old s = (case old of None \<Rightarrow> s | Some p \<Rightarrow> delete_impl mq p s)"

text \<open>\<^verbatim>\<open>Publisher::create\<close>, the result moved into a slot; a failure leaves the slot as it is.\<close>

definition create_in :: "'c mosq \<Rightarrow> nat \<Rightarrow> telemetry_config \<Rightarrow> 'c psys \<Rightarrow> 'c psys" where
  "create_in mq i cfg s =
     (case impl_ctor cfg (sy_lib s) of
        (p, l1) \<Rightarrow>
          (case construct (watched mq) p of
             (r, p1) \<Rightarrow>
               let s1 = s\<lparr>sy_lib := l1, sy_made := sy_made s + (if p_client p1 = None then 0 else 1)\<rparr>
               in case r of
                    Inl e \<Rightarrow> delete_impl mq p1 s1
                  | Inr _ \<Rightarrow> delete_old mq (sy_slots s i) (s1\<lparr>sy_slots := (sy_slots s)(i := Some p1)\<rparr>)))"

text \<open>The move assignment; of a slot to itself it does nothing.\<close>

definition move_pub :: "'c mosq \<Rightarrow> nat \<Rightarrow> nat \<Rightarrow> 'c psys \<Rightarrow> 'c psys" where
  "move_pub mq i j s =
     (if i = j then s
      else delete_old mq (sy_slots s j) (s\<lparr>sy_slots := (sy_slots s)(j := sy_slots s i, i := None)\<rparr>))"

definition destroy_pub :: "'c mosq \<Rightarrow> nat \<Rightarrow> 'c psys \<Rightarrow> 'c psys" where
  "destroy_pub mq i s = delete_old mq (sy_slots s i) (s\<lparr>sy_slots := (sy_slots s)(i := None)\<rparr>)"

text \<open>An operation of the publisher in a slot; on an empty one the program may not call any.\<close>

definition in_slot :: "nat \<Rightarrow> ('c client publisher \<Rightarrow> 'c client publisher) \<Rightarrow> 'c psys \<Rightarrow> 'c psys" where
  "in_slot i f s = (case sy_slots s i of None \<Rightarrow> s | Some p \<Rightarrow> s\<lparr>sy_slots := (sy_slots s)(i := Some (f p))\<rparr>)"

datatype pub_op =
    P_create nat telemetry_config
  | P_start nat
  | P_publish nat string payload nat bool
  | P_connected nat int
  | P_disconnected nat
  | P_stop nat
  | P_move nat nat
  | P_destroy nat

fun psys_step :: "'c mosq \<Rightarrow> pub_op \<Rightarrow> 'c psys \<Rightarrow> 'c psys" where
  "psys_step mq (P_create i cfg) s = create_in mq i cfg s"
| "psys_step mq (P_start i) s = in_slot i (\<lambda>p. snd (publisher_start (watched mq) p)) s"
| "psys_step mq (P_publish i leaf pl q r) s = in_slot i (publish (watched mq) leaf pl q r) s"
| "psys_step mq (P_connected i rc) s = in_slot i (on_connect rc) s"
| "psys_step mq (P_disconnected i) s = in_slot i on_disconnect s"
| "psys_step mq (P_stop i) s = in_slot i (publisher_stop (watched mq)) s"
| "psys_step mq (P_move i j) s = move_pub mq i j s"
| "psys_step mq (P_destroy i) s = destroy_pub mq i s"

section \<open>What every operation keeps\<close>

definition client_in :: "'c client publisher \<Rightarrow> client_state set \<Rightarrow> bool" where
  "client_in p A \<longleftrightarrow> (\<exists>c h. p_client p = Some (c, h) \<and> client_after h \<in> A)"

definition pub_ok :: "'c client publisher \<Rightarrow> bool" where
  "pub_ok p \<longleftrightarrow> client_in p (if p_running p then range Cl_looping else {Cl_ready})"

definition psys_ok :: "'c psys \<Rightarrow> bool" where
  "psys_ok s \<longleftrightarrow> finite (dom (sy_slots s)) \<and> lib_users (sy_lib s) = int (card (dom (sy_slots s)))
     \<and> (lib_ready (sy_lib s) \<longleftrightarrow> dom (sy_slots s) \<noteq> {})
     \<and> sy_made s = length (sy_dead s) + card (dom (sy_slots s))
     \<and> (\<forall>i p. sy_slots s i = Some p \<longrightarrow> pub_ok p)
     \<and> (\<forall>h \<in> set (sy_dead s). client_after h = Cl_gone)"

lemma watched_new: "mq_new (watched mq) i = Some c \<Longrightarrow> snd c = [M_new]"
  by (auto simp: watched_def)

lemma running_publish [simp]: "p_running (publish mq leaf pl q r p) = p_running p"
  by (simp add: publish_def plog_def Let_def split: option.split prod.split)

lemma publish_seen:
  assumes "p_client p = Some (c, h)"
  obtains c1 where "p_client (publish (watched mq) leaf pl q r p) = Some (c1, h @ [M_publish (c_str (topic p leaf)) pl q r])"
  using assms
  by (cases "mq_publish mq (c_str (topic p leaf)) pl q r c")
    (auto simp: publish_def watched_def seen_def plog_def Let_def split: if_splits)

lemma pub_ok_publish: "pub_ok p \<Longrightarrow> pub_ok (publish (watched mq) leaf pl q r p)"
proof -
  assume ok: "pub_ok p"
  then obtain c h where c: "p_client p = Some (c, h)"
    "client_after h \<in> (if p_running p then range Cl_looping else {Cl_ready})"
    by (auto simp: pub_ok_def client_in_def)
  obtain c1 where "p_client (publish (watched mq) leaf pl q r p) = Some (c1, h @ [M_publish (c_str (topic p leaf)) pl q r])"
    using publish_seen [OF c(1)] by blast
  then show ?thesis using c(2) by (auto simp: pub_ok_def client_in_def split: if_splits)
qed

lemma pub_ok_start: "pub_ok p \<Longrightarrow> pub_ok (snd (publisher_start (watched mq) p))"
  by (auto simp: pub_ok_def client_in_def publisher_start_def watched_def seen_def plog_def Let_def
      split: prod.split if_splits)

lemma pub_ok_stop:
  assumes "pub_ok p"
  shows "pub_ok (publisher_stop (watched mq) p) \<and> \<not> p_running (publisher_stop (watched mq) p)"
proof (cases "p_running p")
  case True
  then obtain c h b where c: "p_client (p\<lparr>p_running := False\<rparr>) = Some (c, h)" "client_after h = Cl_looping b"
    using assms by (auto simp: pub_ok_def client_in_def)
  let ?t = "c_str (topic (p\<lparr>p_running := False\<rparr>) ''health'')"
  obtain c1 where "p_client (publish (watched mq) ''health'' (literal offline) kQosPeriodic True (p\<lparr>p_running := False\<rparr>))
      = Some (c1, h @ [M_publish ?t (literal offline) kQosPeriodic True])"
    using publish_seen [OF c(1)] by blast
  then have "p_client (publisher_stop (watched mq) p) = Some (mq_loop_stop mq False (mq_disconnect mq c1),
      ((h @ [M_publish ?t (literal offline) kQosPeriodic True]) @ [M_disconnect]) @ [M_loop_stop])"
    using True by (simp add: publisher_stop_def Let_def watched_def)
  moreover have "\<not> p_running (publisher_stop (watched mq) p)" by (simp add: publisher_stop_def Let_def)
  ultimately show ?thesis using c(2) by (simp add: pub_ok_def client_in_def)
qed (use assms in \<open>simp add: publisher_stop_def\<close>)

lemma pub_ok_callbacks: "pub_ok p \<Longrightarrow> pub_ok (on_connect rc p)" "pub_ok p \<Longrightarrow> pub_ok (on_disconnect p)"
  by (auto simp: pub_ok_def client_in_def on_connect_def on_disconnect_def plog_def Let_def)

lemma construct_cases:
  assumes "construct (watched mq) p = (r, p1)" and "\<not> p_running p"
  shows "(\<exists>e. r = Inl e \<and> p_client p1 = None \<and> \<not> p_running p1)
    \<or> (\<exists>e. r = Inl e \<and> client_in p1 {Cl_made} \<and> \<not> p_running p1)
    \<or> (r = Inr () \<and> pub_ok p1)"
  using assms
  by (auto simp: construct_def watched_def seen_def pub_ok_def client_in_def fail_def
      split: option.splits prod.splits if_splits)

lemma delete_gone:
  assumes "pub_ok p \<or> (\<not> p_running p \<and> client_in p {Cl_made})"
  shows "\<exists>h. mosq_delete (p_client (publisher_stop (watched mq) p)) = [h] \<and> client_after h = Cl_gone"
proof -
  have "client_in (publisher_stop (watched mq) p) {Cl_ready, Cl_made}"
    using assms
  proof
    assume "pub_ok p"
    from pub_ok_stop [OF this, of mq] show ?thesis by (auto simp: pub_ok_def client_in_def)
  next
    assume "\<not> p_running p \<and> client_in p {Cl_made}"
    then show ?thesis by (auto simp: publisher_stop_def client_in_def)
  qed
  then show ?thesis by (auto simp: client_in_def mosq_delete_def)
qed

lemma delete_lib [simp]: "snd (impl_dtor mq (p, l)) = lib_unref l"
  by (simp add: impl_dtor_def)

text \<open>A state in which one publisher is no longer in any slot, and the use count still counts it.\<close>

definition psys_owes :: "'c psys \<Rightarrow> bool" where
  "psys_owes s \<longleftrightarrow> finite (dom (sy_slots s)) \<and> lib_users (sy_lib s) = int (card (dom (sy_slots s))) + 1
     \<and> lib_ready (sy_lib s)
     \<and> (\<forall>i p. sy_slots s i = Some p \<longrightarrow> pub_ok p)
     \<and> (\<forall>h \<in> set (sy_dead s). client_after h = Cl_gone)"

lemma delete_impl_ok:
  assumes "psys_owes s" and "sy_made s = length (sy_dead s) + card (dom (sy_slots s)) + 1"
    and "pub_ok p \<or> (\<not> p_running p \<and> client_in p {Cl_made})"
  shows "psys_ok (delete_impl mq p s)"
proof -
  obtain h where "mosq_delete (p_client (publisher_stop (watched mq) p)) = [h]" "client_after h = Cl_gone"
    using delete_gone [OF assms(3)] by blast
  then show ?thesis using assms(1,2)
    by (auto simp: psys_ok_def psys_owes_def delete_impl_def lib_unref_def Let_def)
qed

lemma delete_impl_no_client:
  assumes "psys_owes s" and "sy_made s = length (sy_dead s) + card (dom (sy_slots s))"
    and "\<not> p_running p" and "p_client p = None"
  shows "psys_ok (delete_impl mq p s)"
  using assms
  by (auto simp: psys_ok_def psys_owes_def delete_impl_def lib_unref_def Let_def publisher_stop_def mosq_delete_def)

lemma slot_emptied:
  assumes "psys_ok s" and "sy_slots s i = Some p"
  shows "psys_owes (s\<lparr>sy_slots := (sy_slots s)(i := None)\<rparr>)"
    and "sy_made s = length (sy_dead s) + card (dom (sy_slots s) - {i}) + 1" and "pub_ok p"
proof -
  have "i \<in> dom (sy_slots s)" "finite (dom (sy_slots s))" using assms by (auto simp: psys_ok_def)
  then have "card (dom (sy_slots s)) = card (dom (sy_slots s) - {i}) + 1"
    by (metis Suc_eq_plus1 card.remove)
  then show "psys_owes (s\<lparr>sy_slots := (sy_slots s)(i := None)\<rparr>)"
    and "sy_made s = length (sy_dead s) + card (dom (sy_slots s) - {i}) + 1" and "pub_ok p"
    using assms by (auto simp: psys_ok_def psys_owes_def)
qed

lemma delete_old_ok:
  assumes "psys_ok s"
  shows "psys_ok (delete_old mq (sy_slots s i) (s\<lparr>sy_slots := (sy_slots s)(i := None)\<rparr>))"
proof (cases "sy_slots s i")
  case None
  then have "(sy_slots s)(i := None) = sy_slots s" by auto
  then show ?thesis using assms None by (simp add: delete_old_def)
next
  case (Some p)
  note e = slot_emptied [OF assms Some]
  show ?thesis using e by (simp add: delete_old_def Some delete_impl_ok)
qed

text \<open>A publisher that is in no slot yet is moved into one.\<close>

lemma move_in_ok:
  assumes "psys_owes s" and "sy_made s = length (sy_dead s) + card (dom (sy_slots s)) + 1" and "pub_ok p"
  shows "psys_ok (delete_old mq (sy_slots s j) (s\<lparr>sy_slots := (sy_slots s)(j := Some p)\<rparr>))"
proof (cases "sy_slots s j")
  case None
  then have "j \<notin> dom (sy_slots s)" by auto
  then show ?thesis using assms None by (auto simp: psys_ok_def psys_owes_def delete_old_def)
next
  case (Some q)
  then have "insert j (dom (sy_slots s)) = dom (sy_slots s)" by auto
  then have "psys_owes (s\<lparr>sy_slots := (sy_slots s)(j := Some p)\<rparr>)"
    "sy_made s = length (sy_dead s) + card (dom ((sy_slots s)(j := Some p))) + 1"
    using assms by (auto simp: psys_owes_def)
  moreover have "pub_ok q" using assms(1) Some by (auto simp: psys_owes_def)
  ultimately show ?thesis by (simp add: delete_old_def Some delete_impl_ok)
qed

lemma move_pub_ok: "psys_ok s \<Longrightarrow> psys_ok (move_pub mq i j s)"
proof (cases "i = j")
  case False
  assume ok: "psys_ok s"
  show ?thesis
  proof (cases "sy_slots s i")
    case None
    then have "(sy_slots s)(j := sy_slots s i, i := None) = (sy_slots s)(j := None)" by auto
    then show ?thesis using delete_old_ok [OF ok, of mq j] False by (simp add: move_pub_def)
  next
    case (Some p)
    let ?s1 = "s\<lparr>sy_slots := (sy_slots s)(i := None)\<rparr>"
    note e = slot_emptied [OF ok Some]
    have "psys_ok (delete_old mq (sy_slots ?s1 j) (?s1\<lparr>sy_slots := (sy_slots ?s1)(j := Some p)\<rparr>))"
      using e by (intro move_in_ok) simp_all
    then show ?thesis using False Some by (simp add: move_pub_def fun_upd_twist)
  qed
qed (simp add: move_pub_def)

lemma create_in_ok:
  fixes mq :: "'c mosq"
  assumes ok: "psys_ok s"
  shows "psys_ok (create_in mq i cfg s)"
proof -
  obtain p :: "'c client publisher" and l1 where i: "impl_ctor cfg (sy_lib s) = (p, l1)" by fastforce
  obtain r p1 where c: "construct (watched mq) p = (r, p1)" by fastforce
  have p: "\<not> p_running p" "l1 = lib_ref (sy_lib s)" using i by (auto simp: impl_ctor_def)
  let ?n = "if p_client p1 = None then 0 else 1 :: nat"
  let ?s1 = "s\<lparr>sy_lib := l1, sy_made := sy_made s + ?n\<rparr>"
  have o: "psys_owes ?s1" and m: "sy_made ?s1 = length (sy_dead ?s1) + card (dom (sy_slots ?s1)) + ?n"
    using ok p(2) by (auto simp: psys_ok_def psys_owes_def lib_ref_def Let_def)
  consider e where "r = Inl e" "p_client p1 = None" "\<not> p_running p1"
    | e where "r = Inl e" "client_in p1 {Cl_made}" "\<not> p_running p1"
    | "r = Inr ()" "pub_ok p1"
    using construct_cases [OF c p(1)] by blast
  then show ?thesis
  proof cases
    case 1
    have "psys_ok (delete_impl mq p1 ?s1)"
      by (rule delete_impl_no_client [OF o]) (use m 1 in simp_all)
    then show ?thesis using 1 by (simp add: create_in_def i c)
  next
    case 2
    then have "p_client p1 \<noteq> None" by (auto simp: client_in_def)
    then have "psys_ok (delete_impl mq p1 ?s1)"
      by (intro delete_impl_ok [OF o]) (use m 2 in simp_all)
    then show ?thesis using 2 by (simp add: create_in_def i c Let_def)
  next
    case 3
    then have "p_client p1 \<noteq> None" by (auto simp: pub_ok_def client_in_def)
    then have "psys_ok (delete_old mq (sy_slots ?s1 i) (?s1\<lparr>sy_slots := (sy_slots ?s1)(i := Some p1)\<rparr>))"
      by (intro move_in_ok [OF o]) (use m 3 in simp_all)
    then show ?thesis using 3 by (simp add: create_in_def i c Let_def)
  qed
qed

lemma in_slot_ok:
  assumes "psys_ok s" and "\<And>p. pub_ok p \<Longrightarrow> pub_ok (f p)"
  shows "psys_ok (in_slot i f s)"
proof (cases "sy_slots s i")
  case (Some p)
  then have "insert i (dom (sy_slots s)) = dom (sy_slots s)" by auto
  then show ?thesis using assms Some by (auto simp: in_slot_def psys_ok_def)
qed (simp add: in_slot_def assms(1))

lemma psys_step_ok: "psys_ok s \<Longrightarrow> psys_ok (psys_step mq ev s)"
  by (cases ev) (simp_all add: create_in_ok move_pub_ok destroy_pub_def delete_old_ok in_slot_ok
      pub_ok_start pub_ok_publish pub_ok_stop pub_ok_callbacks)

lemma psys_run_ok: "psys_ok s \<Longrightarrow> psys_ok (fold (psys_step mq) evs s)"
  by (induction evs arbitrary: s) (simp_all add: psys_step_ok)

lemma psys_init_ok: "psys_ok psys_init"
  by (simp add: psys_ok_def psys_init_def)

text \<open>
  C35. The broker library's resources, whatever the library answers and whatever is done with any number
  of publishers (created, also where creation fails; started, also twice; published through; stopped;
  moved; destroyed): the use count is the number of publishers alive, so the library is initialised
  exactly while there is one; every client made belongs to one live publisher or was destroyed; a live
  publisher's thread runs exactly when the publisher says so; and a client that is gone was destroyed
  once, with its thread stopped, and had left the broker only right after the retained OFFLINE state.
\<close>

theorem publisher_resources:
  "let s = fold (psys_step mq) evs psys_init
   in lib_users (sy_lib s) = int (card (dom (sy_slots s)))
    \<and> (lib_ready (sy_lib s) \<longleftrightarrow> dom (sy_slots s) \<noteq> {})
    \<and> sy_made s = length (sy_dead s) + card (dom (sy_slots s))
    \<and> (\<forall>i p. sy_slots s i = Some p \<longrightarrow>
         (\<exists>c h. p_client p = Some (c, h)
            \<and> client_after h \<in> (if p_running p then range Cl_looping else {Cl_ready})))
    \<and> (\<forall>h \<in> set (sy_dead s). client_after h = Cl_gone)"
  using psys_run_ok [OF psys_init_ok, of mq evs]
  by (simp add: psys_ok_def pub_ok_def client_in_def Let_def)

definition willing_mosq :: "unit mosq" where
  "willing_mosq = \<lparr>mq_new = (\<lambda>i. Some ()), mq_will_set = (\<lambda>t pl q r c. (0, ())),
     mq_reconnect_delay_set = (\<lambda>a b e c. ()), mq_connect_async = (\<lambda>a b k c. (0, ())),
     mq_loop_start = (\<lambda>c. (0, ())), mq_publish = (\<lambda>t pl q r c. (0, ())), mq_disconnect = (\<lambda>c. ()),
     mq_loop_stop = (\<lambda>f c. ())\<rparr>"

theorem publisher_resources_witness:
  "let s = fold (psys_step willing_mosq)
             [P_create 0 telemetry_config_default, P_start 0, P_move 0 1, P_destroy 1] psys_init
   in lib_users (sy_lib s) = 0 \<and> \<not> lib_ready (sy_lib s) \<and> sy_made s = 1 \<and> length (sy_dead s) = 1
      \<and> (\<forall>h \<in> set (sy_dead s). client_after h = Cl_gone)"
proof -
  let ?s = "fold (psys_step willing_mosq)
             [P_create 0 telemetry_config_default, P_start 0, P_move 0 1, P_destroy 1] psys_init"
  have "sy_slots ?s = (\<lambda>i. None)" "sy_made ?s = 1"
    by (simp_all add: psys_init_def create_in_def impl_ctor_def construct_def watched_def willing_mosq_def
        seen_def MOSQ_ERR_SUCCESS_def in_slot_def move_pub_def destroy_pub_def delete_old_def delete_impl_def
        publisher_start_def Let_def fun_upd_def fun_eq_iff)
  then show ?thesis
    using publisher_resources [of willing_mosq "[P_create 0 telemetry_config_default, P_start 0, P_move 0 1, P_destroy 1]"]
    unfolding Let_def by (simp only: dom_def) auto
qed

end
