(* ===== verification/Video_Spec.thy ===== *)
theory Video_Spec
  imports Core_Error
begin

text \<open>
  The description side of \<^verbatim>\<open>modules/video\<close>: \<^verbatim>\<open>frame.hpp\<close>, \<^verbatim>\<open>spec.hpp\<close>, the
  passthrough stage of \<^verbatim>\<open>processor.hpp\<close>, and \<^verbatim>\<open>factory.cpp\<close>, which turns a specification
  into the text of a graph.
\<close>

section \<open>Frames and stages\<close>

datatype pixel_format = PF_unknown | PF_nv12 | PF_i420 | PF_gray8 | PF_rgb

record frame_view =
  fv_data :: "u8 list"
  fv_width :: u32
  fv_height :: u32
  fv_stride :: u32
  fv_fmt :: pixel_format
  fv_hw_ts_ns :: u64
  fv_seq :: u64
  fv_ch :: u8

datatype flow_result = FR_ok | FR_drop | FR_stop

datatype bus_event_kind = BK_error | BK_warning | BK_eos | BK_state_changed | BK_qos_drop

record bus_event =
  be_kind :: bus_event_kind
  be_element :: string
  be_code :: u16
  be_text :: string

datatype process_result = PR_kept | PR_dropped | PR_error

record writable_frame =
  wf_data :: "u8 list"
  wf_width :: u32
  wf_height :: u32
  wf_stride :: u32
  wf_fmt :: pixel_format

definition passthrough_process :: "frame_view \<Rightarrow> writable_frame \<Rightarrow> process_result \<times> writable_frame" where
  "passthrough_process inp out =
     (if length (wf_data out) < length (fv_data inp) then (PR_error, out)
      else (PR_kept, \<lparr>wf_data = fv_data inp @ drop (length (fv_data inp)) (wf_data out),
              wf_width = fv_width inp, wf_height = fv_height inp, wf_stride = fv_stride inp,
              wf_fmt = fv_fmt inp\<rparr>))"

section \<open>Specifications\<close>

datatype source_kind = SK_test_pattern | SK_v4l2
datatype encoder_kind = EK_h264_sw | EK_h264_omx | EK_h264_vcu
datatype output_kind = OK_rtp_udp | OK_file | OK_none

record source_spec =
  sp_kind :: source_kind
  sp_device :: string
  sp_width :: u32
  sp_height :: u32
  sp_fps :: u32
  sp_fmt :: pixel_format
  sp_pattern :: u32

record encoder_spec =
  en_kind :: encoder_kind
  en_bitrate_kbps :: u32
  en_gop :: u32
  en_low_latency :: bool

record output_spec =
  ou_kind :: output_kind
  ou_host :: string
  ou_port :: u16
  ou_path :: string

record queue_spec =
  qu_leaky :: bool
  qu_max_buffers :: u32

record pipeline_spec =
  ps_channel :: u8
  ps_source :: source_spec
  ps_processor :: string
  ps_encoder :: encoder_spec
  ps_output :: output_spec
  ps_queues :: queue_spec

definition source_spec_default :: source_spec where
  "source_spec_default = \<lparr>sp_kind = SK_test_pattern, sp_device = ''/dev/video0'', sp_width = 1280,
     sp_height = 720, sp_fps = 30, sp_fmt = PF_nv12, sp_pattern = 0\<rparr>"

definition encoder_spec_default :: encoder_spec where
  "encoder_spec_default = \<lparr>en_kind = EK_h264_sw, en_bitrate_kbps = 4000, en_gop = 30, en_low_latency = True\<rparr>"

definition output_spec_default :: output_spec where
  "output_spec_default = \<lparr>ou_kind = OK_rtp_udp, ou_host = ''127.0.0.1'', ou_port = 5600, ou_path = ''''\<rparr>"

definition queue_spec_default :: queue_spec where
  "queue_spec_default = \<lparr>qu_leaky = True, qu_max_buffers = 4\<rparr>"

definition pipeline_spec_default :: pipeline_spec where
  "pipeline_spec_default = \<lparr>ps_channel = 0, ps_source = source_spec_default, ps_processor = ''passthrough'',
     ps_encoder = encoder_spec_default, ps_output = output_spec_default, ps_queues = queue_spec_default\<rparr>"

section \<open>The graph as text\<close>

definition queue_text :: "queue_spec \<Rightarrow> string" where
  "queue_text q = ''queue leaky='' @ (if qu_leaky q then ''downstream'' else ''no'') @
     '' max-size-buffers='' @ dec (unat (qu_max_buffers q)) @ '' max-size-bytes=0 max-size-time=0''"

primrec format_string :: "pixel_format \<Rightarrow> string" where
  "format_string PF_nv12 = ''NV12''"
| "format_string PF_i420 = ''I420''"
| "format_string PF_gray8 = ''GRAY8''"
| "format_string PF_rgb = ''RGB''"
| "format_string PF_unknown = ''NV12''"

primrec encoder_element :: "encoder_kind \<Rightarrow> string" where
  "encoder_element EK_h264_omx = ''omxh264enc''"
| "encoder_element EK_h264_vcu = ''vvas_xvcuenc''"
| "encoder_element EK_h264_sw = ''x264enc''"

definition encoder_chain :: "encoder_spec \<Rightarrow> string" where
  "encoder_chain e =
     (if en_kind e = EK_h264_sw
      then encoder_element (en_kind e) @ '' bitrate='' @ dec (unat (en_bitrate_kbps e)) @
           '' key-int-max='' @ dec (unat (en_gop e)) @
           (if en_low_latency e then '' tune=zerolatency speed-preset=ultrafast'' else '''')
      else encoder_element (en_kind e) @ '' target-bitrate='' @ dec (unat (en_bitrate_kbps e * 1000)) @
           '' gop-length='' @ dec (unat (en_gop e)) @
           (if en_low_latency e then '' control-rate=low-latency'' else ''''))"

definition output_chain :: "output_spec \<Rightarrow> string" where
  "output_chain ou = (case ou_kind ou of
       OK_rtp_udp \<Rightarrow> ''rtph264pay config-interval=1 pt=96 ! udpsink host='' @ ou_host ou @ '' port='' @
         dec (unat (ou_port ou)) @ '' sync=false async=false''
     | OK_file \<Rightarrow> ''mp4mux ! filesink location='' @ ou_path ou @ '' async=false''
     | OK_none \<Rightarrow> ''fakesink sync=false async=false'')"

definition caps_text :: "source_spec \<Rightarrow> string" where
  "caps_text so = ''video/x-raw,format='' @ format_string (sp_fmt so) @ '',width='' @ dec (unat (sp_width so)) @
     '',height='' @ dec (unat (sp_height so)) @ '',framerate='' @ dec (unat (sp_fps so)) @ ''/1''"

definition front_text :: "source_spec \<Rightarrow> string" where
  "front_text so =
     (if sp_kind so = SK_v4l2
      then ''v4l2src device='' @ sp_device so @ '' ! video/x-raw,width='' @ dec (unat (sp_width so)) @
           '',height='' @ dec (unat (sp_height so)) @ '',framerate='' @ dec (unat (sp_fps so)) @
           ''/1 ! videoconvert ! '' @ caps_text so
      else ''videotestsrc is-live=true pattern='' @ dec (unat (sp_pattern so)) @ '' ! '' @ caps_text so)"

definition launch_string :: "pipeline_spec \<Rightarrow> string" where
  "launch_string s =
     (let caps = caps_text (ps_source s);
          capture = front_text (ps_source s) @ '' ! '' @ queue_text (ps_queues s) @
            '' ! appsink name=out sync=false max-buffers=1 drop=true emit-signals=false'';
          deliver = ''appsrc name=in is-live=true format=time block=false caps='' @ caps @ '' ! '' @
            queue_text (ps_queues s) @ '' ! '' @ encoder_chain (ps_encoder s) @ '' ! h264parse ! '' @
            output_chain (ps_output s)
      in capture @ ''  '' @ deliver)"

section \<open>Reading the text back\<close>

text \<open>The separator of a chain, and a reader that cuts a text at every separator.\<close>

fun split_chain :: "string \<Rightarrow> string list" where
  "split_chain [] = [[]]"
| "split_chain (c # cs) =
     (if take 3 (c # cs) = '' ! '' then [] # split_chain (drop 2 cs)
      else case split_chain cs of [] \<Rightarrow> [[c]] | p # ps \<Rightarrow> (c # p) # ps)"

fun join_chain :: "string list \<Rightarrow> string" where
  "join_chain [] = ''''"
| "join_chain [p] = p"
| "join_chain (p # ps) = p @ '' ! '' @ join_chain ps"

text \<open>The elements a specification asks for, in the order of the graph.\<close>

definition front_elements :: "source_spec \<Rightarrow> string list" where
  "front_elements so =
     (if sp_kind so = SK_v4l2
      then [''v4l2src device='' @ sp_device so,
            ''video/x-raw,width='' @ dec (unat (sp_width so)) @ '',height='' @ dec (unat (sp_height so)) @
              '',framerate='' @ dec (unat (sp_fps so)) @ ''/1'',
            ''videoconvert'', caps_text so]
      else [''videotestsrc is-live=true pattern='' @ dec (unat (sp_pattern so)), caps_text so])"

definition output_elements :: "output_spec \<Rightarrow> string list" where
  "output_elements ou = (case ou_kind ou of
       OK_rtp_udp \<Rightarrow> [''rtph264pay config-interval=1 pt=96'',
         ''udpsink host='' @ ou_host ou @ '' port='' @ dec (unat (ou_port ou)) @ '' sync=false async=false'']
     | OK_file \<Rightarrow> [''mp4mux'', ''filesink location='' @ ou_path ou @ '' async=false'']
     | OK_none \<Rightarrow> [''fakesink sync=false async=false''])"

definition graph_elements :: "pipeline_spec \<Rightarrow> string list" where
  "graph_elements s = front_elements (ps_source s) @ [queue_text (ps_queues s),
     ''appsink name=out sync=false max-buffers=1 drop=true emit-signals=false'' @ ''  '' @
     ''appsrc name=in is-live=true format=time block=false caps='' @ caps_text (ps_source s),
     queue_text (ps_queues s), encoder_chain (ps_encoder s), ''h264parse''] @ output_elements (ps_output s)"

definition bang_free :: "string \<Rightarrow> bool" where
  "bang_free s \<longleftrightarrow> CHR ''!'' \<notin> set s"

lemma bang_free_dec [simp]: "CHR ''!'' \<notin> set (dec n)"
  using dec_digits [of "CHR ''!''" n] by (auto simp: is_digit_def)

lemma split_piece:
  "CHR ''!'' \<notin> set p \<Longrightarrow> split_chain (p @ '' ! '' @ rest) = p # split_chain rest"
proof (induction p)
  case Nil
  then show ?case by simp
next
  case (Cons c p)
  have "take 3 ((c # p) @ '' ! '' @ rest) \<noteq> '' ! ''"
    using Cons.prems by (cases p) (auto simp: numeral_3_eq_3)
  then show ?case using Cons by simp
qed

lemma split_last: "CHR ''!'' \<notin> set p \<Longrightarrow> split_chain p = [p]"
proof (induction p)
  case (Cons c p)
  have "take 3 (c # p) \<noteq> '' ! ''"
    using Cons.prems by (cases p) (auto simp: numeral_3_eq_3)
  then show ?case using Cons by simp
qed simp

lemma split_join:
  "ps \<noteq> [] \<Longrightarrow> \<forall>p \<in> set ps. CHR ''!'' \<notin> set p \<Longrightarrow> split_chain (join_chain ps) = ps"
proof (induction ps rule: join_chain.induct)
  case (3 p q ps)
  then show ?case using split_piece [of p "join_chain (q # ps)"] by simp
qed (simp_all add: split_last)

lemma join_append: "xs \<noteq> [] \<Longrightarrow> ys \<noteq> [] \<Longrightarrow> join_chain (xs @ ys) = join_chain xs @ '' ! '' @ join_chain ys"
proof (induction xs rule: join_chain.induct)
  case (2 p)
  then show ?case by (cases ys) simp_all
qed simp_all

lemma join_cons: "ys \<noteq> [] \<Longrightarrow> join_chain (p # ys) = p @ '' ! '' @ join_chain ys"
  by (cases ys) simp_all

lemma launch_join: "launch_string s = join_chain (graph_elements s)"
proof -
  have f: "join_chain (front_elements so) = front_text so" "front_elements so \<noteq> []" for so
    by (simp_all add: front_elements_def front_text_def)
  have ou: "join_chain (output_elements ou) = output_chain ou" "output_elements ou \<noteq> []" for ou
    by (simp_all add: output_elements_def output_chain_def split: output_kind.splits)
  show ?thesis
    unfolding launch_string_def graph_elements_def Let_def
    by (simp add: join_append join_cons f ou)
qed

lemma graph_bang_free:
  assumes "bang_free (sp_device (ps_source s))" "bang_free (ou_host (ps_output s))" "bang_free (ou_path (ps_output s))"
  shows "\<forall>p \<in> set (graph_elements s). CHR ''!'' \<notin> set p"
proof -
  have fm: "CHR ''!'' \<notin> set (format_string f)" for f by (cases f) simp_all
  have ca: "CHR ''!'' \<notin> set (caps_text so)" for so by (simp add: caps_text_def fm)
  have en: "CHR ''!'' \<notin> set (encoder_chain e)" for e
    by (cases "en_kind e") (simp_all add: encoder_chain_def)
  have qu: "CHR ''!'' \<notin> set (queue_text q)" for q by (simp add: queue_text_def)
  show ?thesis using assms
    by (auto simp: graph_elements_def front_elements_def output_elements_def bang_free_def ca en qu
        split: output_kind.splits)
qed

section \<open>Properties\<close>

text \<open>
  C36. The graph text means the graph: cut at the chain separator it is exactly the elements the
  specification asks for, in order (source, conversion, caps, queue, the two bridged ends, queue,
  encoder, parser, output), as long as the device, host and path hold no exclamation mark; so no other
  configuration value can add an element.
\<close>

theorem launch_elements:
  assumes "bang_free (sp_device (ps_source s))" and "bang_free (ou_host (ps_output s))"
    and "bang_free (ou_path (ps_output s))"
  shows "split_chain (launch_string s) = graph_elements s"
  unfolding launch_join
  by (rule split_join [OF _ graph_bang_free [OF assms]]) (simp add: graph_elements_def)

theorem launch_elements_witness:
  "split_chain (launch_string pipeline_spec_default) =
    [''videotestsrc is-live=true pattern=0'',
     ''video/x-raw,format=NV12,width=1280,height=720,framerate=30/1'',
     ''queue leaky=downstream max-size-buffers=4 max-size-bytes=0 max-size-time=0'',
     ''appsink name=out sync=false max-buffers=1 drop=true emit-signals=false  appsrc name=in is-live=true format=time block=false caps=video/x-raw,format=NV12,width=1280,height=720,framerate=30/1'',
     ''queue leaky=downstream max-size-buffers=4 max-size-bytes=0 max-size-time=0'',
     ''x264enc bitrate=4000 key-int-max=30 tune=zerolatency speed-preset=ultrafast'',
     ''h264parse'', ''rtph264pay config-interval=1 pt=96'',
     ''udpsink host=127.0.0.1 port=5600 sync=false async=false'']"
proof -
  let ?s = pipeline_spec_default
  note d = pipeline_spec_default_def source_spec_default_def output_spec_default_def
    encoder_spec_default_def queue_spec_default_def
  have "split_chain (launch_string ?s) = graph_elements ?s"
    by (rule launch_elements) (simp_all add: d bang_free_def)
  then show ?thesis
    by (simp add: d graph_elements_def front_elements_def output_elements_def caps_text_def
        queue_text_def encoder_chain_def dec_eval)
qed

text \<open>
  Units of the encoder bitrate: the software encoder gets the configured kbit/s; the hardware
  encoders get bit/s computed in 32 bits, which is the configured rate times 1000 up to 4294967 kbit/s
  and a value reduced modulo \<open>2 ^ 32\<close> beyond.
\<close>

lemma encoder_bitrate:
  "(\<exists>rest. encoder_chain e =
      (if en_kind e = EK_h264_sw
       then ''x264enc bitrate='' @ dec (unat (en_bitrate_kbps e))
       else encoder_element (en_kind e) @ '' target-bitrate='' @
              dec (unat (en_bitrate_kbps e) * 1000 mod 4294967296)) @ '' '' @ rest)
   \<and> (unat (en_bitrate_kbps e) * 1000 mod 4294967296 = unat (en_bitrate_kbps e) * 1000
        \<longleftrightarrow> unat (en_bitrate_kbps e) \<le> 4294967)"
proof
  have w: "unat (en_bitrate_kbps e * 1000) = unat (en_bitrate_kbps e) * 1000 mod 4294967296"
    by (simp add: unat_word_ariths)
  let ?rest = "if en_kind e = EK_h264_sw
    then ''key-int-max='' @ dec (unat (en_gop e)) @
      (if en_low_latency e then '' tune=zerolatency speed-preset=ultrafast'' else '''')
    else ''gop-length='' @ dec (unat (en_gop e)) @
      (if en_low_latency e then '' control-rate=low-latency'' else '''')"
  have "encoder_chain e =
      (if en_kind e = EK_h264_sw
       then ''x264enc bitrate='' @ dec (unat (en_bitrate_kbps e))
       else encoder_element (en_kind e) @ '' target-bitrate='' @
              dec (unat (en_bitrate_kbps e) * 1000 mod 4294967296)) @ '' '' @ ?rest"
    by (simp only: encoder_chain_def w [symmetric]) simp
  then show "\<exists>rest. encoder_chain e =
      (if en_kind e = EK_h264_sw
       then ''x264enc bitrate='' @ dec (unat (en_bitrate_kbps e))
       else encoder_element (en_kind e) @ '' target-bitrate='' @
              dec (unat (en_bitrate_kbps e) * 1000 mod 4294967296)) @ '' '' @ rest"
    by (rule exI)
  have "n * 1000 mod 4294967296 = n * 1000 \<longleftrightarrow> n \<le> 4294967" for n :: nat
  proof
    assume "n * 1000 mod 4294967296 = n * 1000"
    then have "n * 1000 < 4294967296" by (metis mod_less_divisor zero_less_numeral)
    then show "n \<le> 4294967" by simp
  qed simp
  then show "unat (en_bitrate_kbps e) * 1000 mod 4294967296 = unat (en_bitrate_kbps e) * 1000
        \<longleftrightarrow> unat (en_bitrate_kbps e) \<le> 4294967" .
qed

end
