(* ===== verification/Video_Pipeline.thy ===== *)
theory Video_Pipeline
  imports Video_Spec
begin

text \<open>
  \<^verbatim>\<open>modules/video/src/pipeline.cpp\<close> and the mapping guard of \<^verbatim>\<open>gst_ptr.hpp\<close>. GStreamer is a
  parameter: what a call returns (a sample, a mapping, the success of a push or of a state change) is
  an argument or a field of the value handed in, and the object records what it asked for. The frame
  sink's verdict and the transform are arguments too. The transform works in the mapped memory, which
  is also what the frame view shows, so the sink sees the transformed bytes.
\<close>

section \<open>Samples, messages and the object\<close>

record gst_buffer =
  bf_map_ok :: bool
  bf_data :: "u8 list"
  bf_pts :: "u64 option"

text \<open>The caps of a sample: \<open>None\<close> when absent or empty, else the \<^verbatim>\<open>format\<close> field if there is one.\<close>

record gst_sample =
  sm_buffer :: "gst_buffer option"
  sm_caps :: "string option option"

datatype gst_flow = Flow_ok | Flow_eos

datatype gst_message_type = Msg_error | Msg_warning | Msg_eos | Msg_qos | Msg_other

record gst_message =
  gm_type :: gst_message_type
  gm_src :: "string option"
  gm_error :: "string option"

datatype gst_state = St_null | St_playing

type_synonym transform = "frame_view \<Rightarrow> writable_frame \<Rightarrow> process_result \<times> u8 list"

record pipeline =
  pl_spec :: pipeline_spec
  pl_transform :: "transform option"
  pl_has_appsrc :: bool
  pl_callbacks :: bool
  pl_bus_thread :: bool
  pl_state :: gst_state
  pl_frames_in :: u64
  pl_frames_out :: u64
  pl_drops :: u64
  pl_views :: "frame_view list"
  pl_pushed :: "u8 list list"
  pl_bus_log :: "bus_event list"

record pipe_stats =
  pst_frames_in :: u64
  pst_frames_out :: u64
  pst_drops :: u64

definition format_from_caps :: "string option option \<Rightarrow> pixel_format" where
  "format_from_caps caps = (case caps of
       None \<Rightarrow> PF_unknown
     | Some None \<Rightarrow> PF_unknown
     | Some (Some f) \<Rightarrow>
         if f = ''NV12'' then PF_nv12 else if f = ''I420'' then PF_i420
         else if f = ''GRAY8'' then PF_gray8 else if f = ''RGB'' then PF_rgb else PF_unknown)"

text \<open>
  Creation: \<open>parse\<close> says of a graph text whether \<^verbatim>\<open>gst_parse_launch\<close> returned a pipeline and
  whether it set the error, \<open>by_name\<close> whether the graph has an element of that name.
\<close>

definition pipeline_create ::
  "(string \<Rightarrow> bool \<times> bool) \<Rightarrow> (string \<Rightarrow> string \<Rightarrow> bool) \<Rightarrow> pipeline_spec \<Rightarrow> transform option \<Rightarrow> pipeline expected" where
  "pipeline_create parse by_name spec tr =
     (let desc = launch_string spec
      in case parse desc of (made, err) \<Rightarrow>
        if \<not> made \<or> err then fail vid_build ''Pipeline::create''
        else if \<not> by_name desc ''out'' then fail vid_build ''Pipeline::create''
        else Inr \<lparr>pl_spec = spec, pl_transform = tr, pl_has_appsrc = by_name desc ''in'', pl_callbacks = True,
               pl_bus_thread = False, pl_state = St_null, pl_frames_in = 0, pl_frames_out = 0,
               pl_drops = 0, pl_views = [], pl_pushed = [], pl_bus_log = []\<rparr>)"

text \<open>\<open>set_ok\<close> and \<open>get_ok\<close>: neither state call reported a failure.\<close>

definition pipeline_play :: "bool \<Rightarrow> bool \<Rightarrow> pipeline \<Rightarrow> status \<times> pipeline" where
  "pipeline_play set_ok get_ok p =
     (if \<not> set_ok then (fail vid_state ''Pipeline::play'', p)
      else let p1 = p\<lparr>pl_state := St_playing\<rparr>
      in if \<not> get_ok then (fail vid_state ''Pipeline::play'', p1)
         else (Inr (), if pl_bus_thread p1 then p1 else p1\<lparr>pl_bus_thread := True\<rparr>))"

definition pipeline_shutdown :: "pipeline \<Rightarrow> pipeline" where
  "pipeline_shutdown p =
     (let p1 = (if pl_bus_thread p then p\<lparr>pl_bus_thread := False\<rparr> else p);
          p2 = p1\<lparr>pl_callbacks := False\<rparr>
      in p2\<lparr>pl_state := St_null\<rparr>)"

definition pipeline_stop :: "pipeline \<Rightarrow> status \<times> pipeline" where
  "pipeline_stop p = (Inr (), pipeline_shutdown p)"

definition pipeline_stats :: "pipeline \<Rightarrow> pipe_stats" where
  "pipeline_stats p = \<lparr>pst_frames_in = pl_frames_in p, pst_frames_out = pl_frames_out p, pst_drops = pl_drops p\<rparr>"

section \<open>The bus\<close>

text \<open>\<^verbatim>\<open>find(...) != npos\<close>.\<close>

fun has_sub :: "string \<Rightarrow> string \<Rightarrow> bool" where
  "has_sub pat [] = (pat = [])"
| "has_sub pat (c # cs) = (take (length pat) (c # cs) = pat \<or> has_sub pat cs)"

definition on_bus :: "bus_event \<Rightarrow> pipeline \<Rightarrow> pipeline" where
  "on_bus ev p = p\<lparr>pl_bus_log := pl_bus_log p @ [ev]\<rparr>"

definition dispatch :: "gst_message \<Rightarrow> pipeline \<Rightarrow> pipeline" where
  "dispatch msg p =
     (let element = (case gm_src msg of Some s \<Rightarrow> s | None \<Rightarrow> '''');
          ev = \<lparr>be_kind = BK_warning, be_element = element, be_code = 0, be_text = ''''\<rparr>
      in case gm_type msg of
        Msg_error \<Rightarrow> on_bus (ev\<lparr>be_kind := BK_error,
            be_code := code_val (if has_sub ''enc'' element then vid_encoder_lost else vid_build),
            be_text := (case gm_error msg of Some t \<Rightarrow> t | None \<Rightarrow> '''')\<rparr>) p
      | Msg_warning \<Rightarrow> on_bus (ev\<lparr>be_kind := BK_warning\<rparr>) p
      | Msg_eos \<Rightarrow> on_bus (ev\<lparr>be_kind := BK_eos\<rparr>) p
      | Msg_qos \<Rightarrow> on_bus (ev\<lparr>be_kind := BK_qos_drop\<rparr>) (p\<lparr>pl_drops := pl_drops p + 1\<rparr>)
      | Msg_other \<Rightarrow> p)"

section \<open>The streaming thread\<close>

text \<open>The view of a mapped buffer, and the writable side of the same memory.\<close>

definition sample_view :: "gst_sample \<Rightarrow> gst_buffer \<Rightarrow> pipeline \<Rightarrow> frame_view" where
  "sample_view sm buffer p =
     \<lparr>fv_data = bf_data buffer,
      fv_width = sp_width (ps_source (pl_spec p)),
      fv_height = sp_height (ps_source (pl_spec p)),
      fv_stride = sp_width (ps_source (pl_spec p)),
      fv_fmt = format_from_caps (sm_caps sm),
      fv_hw_ts_ns = (case bf_pts buffer of Some t \<Rightarrow> t | None \<Rightarrow> 0),
      fv_seq = pl_frames_in p,
      fv_ch = ps_channel (pl_spec p)\<rparr>"

definition writable_of :: "frame_view \<Rightarrow> writable_frame" where
  "writable_of v = \<lparr>wf_data = fv_data v, wf_width = fv_width v, wf_height = fv_height v,
     wf_stride = fv_stride v, wf_fmt = fv_fmt v\<rparr>"

text \<open>
  \<open>verdict\<close> is what the frame sink answers, \<open>push_ok\<close> whether \<^verbatim>\<open>gst_app_src_push_buffer\<close>
  accepted the buffer; a pull that returns nothing is \<open>None\<close>.
\<close>

definition on_new_sample ::
  "gst_sample option \<Rightarrow> flow_result \<Rightarrow> bool \<Rightarrow> pipeline \<Rightarrow> gst_flow \<times> pipeline" where
  "on_new_sample sample verdict push_ok p =
     (case sample of
        None \<Rightarrow> (Flow_eos, p)
      | Some sm \<Rightarrow>
        (case sm_buffer sm of
           None \<Rightarrow> (Flow_ok, p)
         | Some buffer \<Rightarrow>
             if \<not> bf_map_ok buffer then (Flow_ok, p)
             else
               let view = sample_view sm buffer p;
                   p1 = p\<lparr>pl_frames_in := pl_frames_in p + 1\<rparr>;
                   (view2, p2) =
                     (case pl_transform p1 of
                        None \<Rightarrow> (view, p1)
                      | Some tr \<Rightarrow>
                          (case tr view (writable_of view) of
                             (r, bytes) \<Rightarrow>
                               (view\<lparr>fv_data := bytes\<rparr>,
                                if r = PR_error then p1\<lparr>pl_drops := pl_drops p1 + 1\<rparr> else p1)));
                   p3 = p2\<lparr>pl_views := pl_views p2 @ [view2]\<rparr>
               in case verdict of
                    FR_stop \<Rightarrow> (Flow_eos, p3)
                  | FR_drop \<Rightarrow> (Flow_ok, p3\<lparr>pl_drops := pl_drops p3 + 1\<rparr>)
                  | FR_ok \<Rightarrow>
                      if pl_has_appsrc p3
                      then if \<not> push_ok then (Flow_ok, p3\<lparr>pl_drops := pl_drops p3 + 1\<rparr>)
                           else (Flow_ok, p3\<lparr>pl_frames_out := pl_frames_out p3 + 1,
                                             pl_pushed := pl_pushed p3 @ [fv_data view2]\<rparr>)
                      else (Flow_ok, p3)))"

section \<open>Runs\<close>

datatype pipe_event =
    Pe_sample "gst_sample option" flow_result bool
  | Pe_message gst_message

fun pipe_step :: "pipe_event \<Rightarrow> pipeline \<Rightarrow> pipeline" where
  "pipe_step (Pe_sample sm v ok') p = snd (on_new_sample sm v ok' p)"
| "pipe_step (Pe_message msg) p = dispatch msg p"

text \<open>What an event means for the counters, read off the event alone.\<close>

definition mapped :: "gst_sample option \<Rightarrow> gst_buffer option" where
  "mapped sm = (case sm of None \<Rightarrow> None | Some s \<Rightarrow>
     (case sm_buffer s of None \<Rightarrow> None | Some b \<Rightarrow> if bf_map_ok b then Some b else None))"

fun frames_of :: "pipe_event \<Rightarrow> nat" where
  "frames_of (Pe_sample sm v ok') = (if mapped sm \<noteq> None then 1 else 0)"
| "frames_of (Pe_message m) = 0"

fun delivered_of :: "pipe_event \<Rightarrow> nat" where
  "delivered_of (Pe_sample sm v ok') = (if mapped sm \<noteq> None \<and> v = FR_ok \<and> ok' then 1 else 0)"
| "delivered_of (Pe_message m) = 0"

fun dropped_of :: "pipe_event \<Rightarrow> nat" where
  "dropped_of (Pe_sample sm v ok') =
     (if mapped sm \<noteq> None \<and> (v = FR_drop \<or> (v = FR_ok \<and> \<not> ok')) then 1 else 0)"
| "dropped_of (Pe_message m) = (if gm_type m = Msg_qos then 1 else 0)"

definition total_of :: "(pipe_event \<Rightarrow> nat) \<Rightarrow> pipe_event list \<Rightarrow> nat" where
  "total_of f es = sum_list (map f es)"

lemma on_new_sample_plain:
  assumes "pl_transform p = None" and "pl_has_appsrc p"
  shows "let p' = pipe_step e p
    in pl_frames_in p' = pl_frames_in p + of_nat (frames_of e)
     \<and> pl_frames_out p' = pl_frames_out p + of_nat (delivered_of e)
     \<and> pl_drops p' = pl_drops p + of_nat (dropped_of e)
     \<and> map fv_seq (pl_views p') = map fv_seq (pl_views p) @ replicate (frames_of e) (pl_frames_in p)
     \<and> pl_transform p' = None \<and> pl_has_appsrc p'
     \<and> length (pl_pushed p') = length (pl_pushed p) + delivered_of e"
  using assms
  by (cases e)
    (auto simp: on_new_sample_def sample_view_def dispatch_def on_bus_def mapped_def Let_def
      split: option.splits flow_result.splits gst_message_type.splits)

lemma pipe_run_plain:
  assumes "pl_transform p = None" and "pl_has_appsrc p"
    and "map fv_seq (pl_views p) = map of_nat [0..<k]" and "pl_frames_in p = of_nat k"
  shows "let p' = fold pipe_step es p
    in pl_frames_in p' = of_nat (k + total_of frames_of es)
     \<and> pl_frames_out p' = pl_frames_out p + of_nat (total_of delivered_of es)
     \<and> pl_drops p' = pl_drops p + of_nat (total_of dropped_of es)
     \<and> map fv_seq (pl_views p') = map of_nat [0..<k + total_of frames_of es]
     \<and> length (pl_pushed p') = length (pl_pushed p) + total_of delivered_of es"
  using assms
proof (induction es arbitrary: p k)
  case Nil
  then show ?case by (simp add: total_of_def)
next
  case (Cons e es)
  let ?p = "pipe_step e p" and ?k = "k + frames_of e"
  note s = on_new_sample_plain [OF Cons.prems(1,2), of e, unfolded Let_def]
  have seq: "map fv_seq (pl_views ?p) = map of_nat [0..<?k]"
    using s Cons.prems(3,4) by (cases e) auto
  have "pl_frames_in ?p = of_nat ?k" using s Cons.prems(4) by simp
  then show ?case using Cons.IH [of ?p ?k] s seq by (simp add: Let_def total_of_def add.assoc)
qed

section \<open>Properties\<close>

text \<open>
  C32. Frame accounting without a transform: for any samples, sink verdicts, push results and bus
  messages, every mapped frame is counted in once and given the next sequence number (so the sink sees
  0, 1, 2, ...), a frame is counted out exactly when the sink accepts it and the delivery side takes it,
  and the drops are the frames the sink or the delivery side refused and the bus reports of quality of
  service.
\<close>

theorem frame_accounting:
  assumes "pipeline_create parse by_name spec None = Inr p" and "by_name (launch_string spec) ''in''"
  shows "let p' = fold pipe_step es p
    in pst_frames_in (pipeline_stats p') = of_nat (total_of frames_of es)
     \<and> pst_frames_out (pipeline_stats p') = of_nat (total_of delivered_of es)
     \<and> pst_drops (pipeline_stats p') = of_nat (total_of dropped_of es)
     \<and> map fv_seq (pl_views p') = map of_nat [0..<total_of frames_of es]
     \<and> length (pl_pushed p') = total_of delivered_of es"
proof -
  have p: "pl_transform p = None" "pl_has_appsrc p" "pl_views p = []" "pl_frames_in p = 0"
    "pl_frames_out p = 0" "pl_drops p = 0" "pl_pushed p = []"
    using assms by (auto simp: pipeline_create_def Let_def fail_def split: prod.splits if_splits)
  show ?thesis using pipe_run_plain [of p 0 es] p by (simp add: Let_def pipeline_stats_def)
qed

theorem frame_accounting_witness:
  "\<exists>p. pipeline_create (\<lambda>_. (True, False)) (\<lambda>_ _. True) pipeline_spec_default None = Inr p
    \<and> pst_drops (pipeline_stats (fold pipe_step
        [Pe_sample (Some \<lparr>sm_buffer = Some \<lparr>bf_map_ok = True, bf_data = [], bf_pts = None\<rparr>, sm_caps = None\<rparr>) FR_drop True,
         Pe_sample None FR_ok True] p)) = 1"
proof -
  obtain p where p: "pipeline_create (\<lambda>_. (True, False)) (\<lambda>_ _. True) pipeline_spec_default None = Inr p"
    by (simp add: pipeline_create_def Let_def)
  from frame_accounting [OF p, of "[Pe_sample (Some \<lparr>sm_buffer = Some \<lparr>bf_map_ok = True, bf_data = [],
      bf_pts = None\<rparr>, sm_caps = None\<rparr>) FR_drop True, Pe_sample None FR_ok True]"] p
  show ?thesis by (simp add: Let_def total_of_def mapped_def)
qed

definition other_factories :: "string list" where
  "other_factories = [''v4l2src'', ''videotestsrc'', ''capsfilter'', ''videoconvert'', ''queue'', ''h264parse'',
     ''rtph264pay'', ''udpsink'', ''mp4mux'', ''filesink'', ''fakesink'']"

lemma has_sub_append: "has_sub pat s \<Longrightarrow> has_sub pat (pre @ s)"
  by (induction pre) auto

lemma has_sub_prefix: "pat \<noteq> [] \<Longrightarrow> has_sub pat (pat @ s)"
  by (cases pat) simp_all

lemma no_sub_digits:
  "\<forall>c \<in> set ds. is_digit c \<Longrightarrow> \<not> has_sub ''enc'' ds"
proof (induction ds)
  case (Cons c cs)
  then have "c \<noteq> CHR ''e''" by (auto simp: is_digit_def)
  then show ?case using Cons by (cases cs) auto
qed simp

lemma no_sub_step:
  "\<not> has_sub ''enc'' cs \<Longrightarrow> c \<noteq> CHR ''e'' \<Longrightarrow> \<not> has_sub ''enc'' (c # cs)"
  "\<not> has_sub ''enc'' (d # cs) \<Longrightarrow> d \<noteq> CHR ''n'' \<Longrightarrow> \<not> has_sub ''enc'' (CHR ''e'' # d # cs)"
  by (simp_all add: numeral_3_eq_3)

lemma no_sub_e_digits:
  assumes "\<forall>c \<in> set ds. is_digit c"
  shows "\<not> has_sub ''enc'' (CHR ''e'' # ds)"
proof (cases ds)
  case (Cons d ds')
  then have "d \<noteq> CHR ''n''" using assms by (auto simp: is_digit_def)
  then show ?thesis using no_sub_step(2) [of d ds'] no_sub_digits [OF assms] Cons by simp
qed simp

lemma encoder_named: "has_sub ''enc'' (encoder_element k @ suffix)"
proof -
  have e: "has_sub ''enc'' (''enc'' @ suffix)" by (rule has_sub_prefix) simp
  obtain pre where "encoder_element k = pre @ ''enc''" by (cases k) simp_all
  then show ?thesis using has_sub_append [OF e, of pre] by simp
qed

lemma other_not_encoder:
  assumes "f \<in> set other_factories" and ds: "\<forall>c \<in> set ds. is_digit c"
  shows "\<not> has_sub ''enc'' (f @ ds)"
proof -
  have e: "\<not> has_sub ''enc'' ds" "\<not> has_sub ''enc'' (CHR ''e'' # ds)"
    by (rule no_sub_digits [OF ds]) (rule no_sub_e_digits [OF ds])
  show ?thesis using assms(1) e
    by (auto simp: other_factories_def no_sub_step simp del: has_sub.simps)
qed

text \<open>
  The bus classifies failures by element name: an error of the encoder the specification chose,
  under any name that starts with its factory's, is reported as a lost encoder, and an error of any
  other element of the graph, named after its factory and a number, as a failed graph; every wanted
  message is reported exactly once and nothing but a quality-of-service report touches the counters.
\<close>

lemma bus_classification:
  "(let ev = last (pl_bus_log (dispatch \<lparr>gm_type = Msg_error, gm_src = Some (encoder_element k @ suffix), gm_error = e\<rparr> p))
    in be_kind ev = BK_error \<and> be_code ev = code_val vid_encoder_lost)
   \<and> (\<forall>f \<in> set other_factories.
        be_code (last (pl_bus_log (dispatch \<lparr>gm_type = Msg_error, gm_src = Some (f @ dec n), gm_error = e\<rparr> p)))
          = code_val vid_build)
   \<and> length (pl_bus_log (dispatch m p)) = length (pl_bus_log p) + (if gm_type m = Msg_other then 0 else 1)
   \<and> pl_drops (dispatch m p) = pl_drops p + (if gm_type m = Msg_qos then 1 else 0)
   \<and> pl_frames_in (dispatch m p) = pl_frames_in p \<and> pl_frames_out (dispatch m p) = pl_frames_out p"
proof (intro conjI ballI)
  show "let ev = last (pl_bus_log (dispatch \<lparr>gm_type = Msg_error, gm_src = Some (encoder_element k @ suffix), gm_error = e\<rparr> p))
    in be_kind ev = BK_error \<and> be_code ev = code_val vid_encoder_lost"
    by (simp add: Let_def dispatch_def on_bus_def encoder_named)
  show "be_code (last (pl_bus_log (dispatch \<lparr>gm_type = Msg_error, gm_src = Some (f @ dec n), gm_error = e\<rparr> p)))
      = code_val vid_build" if "f \<in> set other_factories" for f
    using other_not_encoder [OF that, of "dec n"] dec_digits by (simp add: dispatch_def on_bus_def)
qed (auto simp: dispatch_def on_bus_def Let_def split: gst_message_type.splits)

definition demo_pipeline :: pipeline where
  "demo_pipeline = \<lparr>pl_spec = pipeline_spec_default, pl_transform = None, pl_has_appsrc = True, pl_callbacks = True,
     pl_bus_thread = False, pl_state = St_null, pl_frames_in = 0, pl_frames_out = 0, pl_drops = 0, pl_views = [],
     pl_pushed = [], pl_bus_log = []\<rparr>"

lemma bus_classification_witness:
  "be_code (last (pl_bus_log (dispatch \<lparr>gm_type = Msg_error, gm_src = Some (''v4l2src'' @ dec 0), gm_error = None\<rparr>
     demo_pipeline))) = code_val vid_build"
proof -
  have "''v4l2src'' \<in> set other_factories" by (simp add: other_factories_def)
  with bus_classification [where n = 0 and e = None and p = demo_pipeline] show ?thesis by blast
qed

end
