(* ===== verification/Video_Refs.thy ===== *)
theory Video_Refs
  imports Video_Pipeline
begin

text \<open>
  References to GStreamer objects: the calls that \<^verbatim>\<open>pipeline.cpp\<close> makes, in order, with the
  owning pointer and the mapping guard of \<^verbatim>\<open>gst_ptr.hpp\<close>. What a call does to the references the
  caller owns is a parameter; \<open>documented_transfers\<close> states what GStreamer's reference says of each
  call (a reference is given to the caller, taken from it, or neither).
\<close>

section \<open>Objects, calls and owning pointers\<close>

datatype gst_kind = Gk_element | Gk_bus | Gk_sample | Gk_caps | Gk_message

datatype unref_fn = Object_unref | Sample_unref | Caps_unref | Message_unref

primrec gst_unref :: "gst_kind \<Rightarrow> unref_fn" where
  "gst_unref Gk_element = Object_unref"
| "gst_unref Gk_bus = Object_unref"
| "gst_unref Gk_sample = Sample_unref"
| "gst_unref Gk_caps = Caps_unref"
| "gst_unref Gk_message = Message_unref"

datatype gst_obj =
    Go_pipeline
  | Go_element string
  | Go_bus
  | Go_sample
  | Go_buffer nat
  | Go_message nat
  | Go_error nat

text \<open>\<open>Access\<close> is not a call: it is the program reading or writing a buffer's bytes.\<close>

datatype gst_call =
    Parse_launch "gst_obj option" "gst_obj option"
  | Get_by_name "gst_obj option"
  | Set_callbacks bool
  | Set_state gst_state
  | Get_bus gst_obj
  | Pop_message "gst_obj option"
  | Parse_error "gst_obj option"
  | Free_error gst_obj
  | Pull_sample "gst_obj option"
  | Get_buffer "gst_obj option"
  | Make_writable gst_obj gst_obj
  | Map_buffer gst_obj bool
  | Access gst_obj
  | Unmap_buffer gst_obj
  | Ref_buffer gst_obj
  | Push_buffer gst_obj bool
  | Unref unref_fn gst_obj

definition gst_ptr_dtor :: "gst_kind \<Rightarrow> gst_obj option \<Rightarrow> gst_call list" where
  "gst_ptr_dtor k x = (case x of None \<Rightarrow> [] | Some y \<Rightarrow> [Unref (gst_unref k) y])"

text \<open>\<open>body\<close> is what happens in the guard's scope.\<close>

definition map_guard :: "gst_obj \<Rightarrow> bool \<Rightarrow> gst_call list \<Rightarrow> gst_call list" where
  "map_guard b got_map body = [Map_buffer b got_map] @ body @ (if got_map then [Unmap_buffer b] else [])"

section \<open>The calls of the pipeline\<close>

text \<open>
  \<^verbatim>\<open>on_new_sample\<close>: \<open>k\<close> is the buffer \<^verbatim>\<open>gst_buffer_make_writable\<close> returns for the
  sample's buffer, number 0.
\<close>

definition sample_calls ::
  "gst_sample option \<Rightarrow> nat \<Rightarrow> flow_result \<Rightarrow> bool \<Rightarrow> pipeline \<Rightarrow> gst_call list" where
  "sample_calls sample k verdict push_ok p =
     (case sample of
        None \<Rightarrow> [Pull_sample None]
      | Some sm \<Rightarrow>
          [Pull_sample (Some Go_sample)] @
          (case sm_buffer sm of
             None \<Rightarrow> [Get_buffer None]
           | Some bf \<Rightarrow>
               let buffer = (case pl_transform p of None \<Rightarrow> Go_buffer 0 | Some tr \<Rightarrow> Go_buffer k)
               in [Get_buffer (Some (Go_buffer 0))] @
                  (case pl_transform p of None \<Rightarrow> [] | Some tr \<Rightarrow> [Make_writable (Go_buffer 0) buffer]) @
                  map_guard buffer (bf_map_ok bf)
                    (if \<not> bf_map_ok bf then []
                     else (case pl_transform p of None \<Rightarrow> [] | Some tr \<Rightarrow> [Access buffer]) @ [Access buffer] @
                       (if verdict = FR_ok \<and> pl_has_appsrc p
                        then [Ref_buffer buffer, Push_buffer buffer push_ok] else []))) @
          gst_ptr_dtor Gk_sample (Some Go_sample))"

definition create_calls :: "(string \<Rightarrow> bool \<times> bool) \<Rightarrow> (string \<Rightarrow> string \<Rightarrow> bool) \<Rightarrow> pipeline_spec \<Rightarrow> gst_call list" where
  "create_calls parse by_name spec =
     (let desc = launch_string spec
      in case parse desc of (made, err) \<Rightarrow>
        let pipeline = (if made then Some Go_pipeline else None) in
        [Parse_launch pipeline (if err then Some (Go_error 0) else None)] @
        (if \<not> made \<or> err
         then (if err then [Free_error (Go_error 0)] else []) @ gst_ptr_dtor Gk_element pipeline
         else let sink = (if by_name desc ''out'' then Some (Go_element ''out'') else None);
                  src = (if by_name desc ''in'' then Some (Go_element ''in'') else None)
              in [Get_by_name sink, Get_by_name src] @
                 (case sink of
                    None \<Rightarrow> gst_ptr_dtor Gk_element src @ gst_ptr_dtor Gk_element sink @ gst_ptr_dtor Gk_element pipeline
                  | Some s \<Rightarrow> [Set_callbacks True] @ gst_ptr_dtor Gk_element src @ gst_ptr_dtor Gk_element sink)))"

text \<open>The bus thread, from its start to its end: each turn pops a message, or nothing in time.\<close>

definition dispatch_calls :: "nat \<Rightarrow> gst_message \<Rightarrow> gst_call list" where
  "dispatch_calls i msg =
     (case gm_type msg of
        Msg_error \<Rightarrow>
          (case gm_error msg of
             None \<Rightarrow> [Parse_error None]
           | Some t \<Rightarrow> [Parse_error (Some (Go_error i)), Free_error (Go_error i)])
      | _ \<Rightarrow> [])"

fun bus_turns :: "nat \<Rightarrow> gst_message option list \<Rightarrow> gst_call list" where
  "bus_turns i [] = []"
| "bus_turns i (None # ms) = [Pop_message None] @ bus_turns (Suc i) ms"
| "bus_turns i (Some m # ms) =
     [Pop_message (Some (Go_message i))] @ dispatch_calls i m @ gst_ptr_dtor Gk_message (Some (Go_message i)) @
     bus_turns (Suc i) ms"

definition bus_thread_calls :: "gst_message option list \<Rightarrow> gst_call list" where
  "bus_thread_calls ms = [Get_bus Go_bus] @ bus_turns 0 ms @ gst_ptr_dtor Gk_bus (Some Go_bus)"

text \<open>The destructor: the shutdown, then the owning pointer of the pipeline.\<close>

definition pipeline_dtor_calls :: "gst_call list" where
  "pipeline_dtor_calls = [Set_callbacks False, Set_state St_null] @ gst_ptr_dtor Gk_element (Some Go_pipeline)"

section \<open>Counting\<close>

text \<open>
  What the reference manual says: \<open>tr c x\<close> is how many references to \<open>x\<close> the caller owns more after the
  call \<open>c\<close> than before. \<^verbatim>\<open>gst_buffer_make_writable\<close> takes the caller's reference to its argument
  and returns an owned one; \<^verbatim>\<open>gst_app_src_push_buffer\<close> takes the reference whatever it answers.
\<close>

definition documented_transfers :: "(gst_call \<Rightarrow> gst_obj \<Rightarrow> int) \<Rightarrow> bool" where
  "documented_transfers tr \<longleftrightarrow>
     (\<forall>x y e. tr (Parse_launch y e) x = of_bool (y = Some x) + of_bool (e = Some x))
     \<and> (\<forall>x y. tr (Get_by_name y) x = of_bool (y = Some x)) \<and> (\<forall>x y. tr (Pop_message y) x = of_bool (y = Some x))
     \<and> (\<forall>x y. tr (Parse_error y) x = of_bool (y = Some x)) \<and> (\<forall>x y. tr (Pull_sample y) x = of_bool (y = Some x))
     \<and> (\<forall>x y. tr (Get_bus y) x = of_bool (y = x)) \<and> (\<forall>x y. tr (Ref_buffer y) x = of_bool (y = x))
     \<and> (\<forall>x y g. tr (Unref g y) x = - of_bool (y = x)) \<and> (\<forall>x y. tr (Free_error y) x = - of_bool (y = x))
     \<and> (\<forall>x y b. tr (Push_buffer y b) x = - of_bool (y = x))
     \<and> (\<forall>x y z. tr (Make_writable y z) x = of_bool (z = x) - of_bool (y = x))
     \<and> (\<forall>x y b. tr (Map_buffer y b) x = 0) \<and> (\<forall>x y. tr (Unmap_buffer y) x = 0) \<and> (\<forall>x y. tr (Access y) x = 0)
     \<and> (\<forall>x y. tr (Get_buffer y) x = 0) \<and> (\<forall>x b. tr (Set_callbacks b) x = 0) \<and> (\<forall>x t. tr (Set_state t) x = 0)"

definition owned :: "(gst_call \<Rightarrow> gst_obj \<Rightarrow> int) \<Rightarrow> gst_call list \<Rightarrow> gst_obj \<Rightarrow> int" where
  "owned tr cs x = sum_list (map (\<lambda>c. tr c x) cs)"

text \<open>No call gives up a reference the program does not own.\<close>

definition never_short :: "(gst_call \<Rightarrow> gst_obj \<Rightarrow> int) \<Rightarrow> gst_call list \<Rightarrow> bool" where
  "never_short tr cs \<longleftrightarrow> (\<forall>n x. 0 \<le> owned tr (take n cs) x)"

text \<open>Running the calls over the buffers mapped: \<open>None\<close> when bytes are used, or unmapped, that are not mapped.\<close>

fun map_run :: "gst_obj list \<Rightarrow> gst_call list \<Rightarrow> gst_obj list option" where
  "map_run ms [] = Some ms"
| "map_run ms (Map_buffer b True # cs) = map_run (b # ms) cs"
| "map_run ms (Access b # cs) = (if b \<in> set ms then map_run ms cs else None)"
| "map_run ms (Unmap_buffer b # cs) = (if b \<in> set ms then map_run (remove1 b ms) cs else None)"
| "map_run ms (c # cs) = map_run ms cs"

section \<open>Lemmas\<close>

text \<open>\<open>never_short\<close> as a run over the calls, from the references owned at the start.\<close>

primrec covered :: "(gst_call \<Rightarrow> gst_obj \<Rightarrow> int) \<Rightarrow> (gst_obj \<Rightarrow> int) \<Rightarrow> gst_call list \<Rightarrow> bool" where
  "covered tr acc [] = (\<forall>x. 0 \<le> acc x)"
| "covered tr acc (c # cs) = ((\<forall>x. 0 \<le> acc x) \<and> covered tr (\<lambda>x. acc x + tr c x) cs)"

lemma owned_Nil [simp]: "owned tr [] x = 0"
  by (simp add: owned_def)

lemma owned_Cons [simp]: "owned tr (c # cs) x = tr c x + owned tr cs x"
  by (simp add: owned_def)

lemma owned_append [simp]: "owned tr (cs @ ds) x = owned tr cs x + owned tr ds x"
  by (simp add: owned_def)

lemma covered_iff: "covered tr acc cs \<longleftrightarrow> (\<forall>n x. 0 \<le> acc x + owned tr (take n cs) x)"
proof (induction cs arbitrary: acc)
  case (Cons c cs)
  have "(\<forall>n x. 0 \<le> acc x + owned tr (take n (c # cs)) x) \<longleftrightarrow>
      (\<forall>x. 0 \<le> acc x) \<and> (\<forall>n x. 0 \<le> acc x + owned tr (take (Suc n) (c # cs)) x)"
    by (metis add_0_right not0_implies_Suc owned_Nil take0)
  then show ?case by (simp add: Cons.IH add.assoc)
qed simp

lemma never_short_covered: "never_short tr cs \<longleftrightarrow> covered tr (\<lambda>x. 0) cs"
  by (simp add: never_short_def covered_iff)

lemma covered_append:
  "covered tr acc (cs @ ds) \<longleftrightarrow> covered tr acc cs \<and> covered tr (\<lambda>x. acc x + owned tr cs x) ds"
proof (induction cs arbitrary: acc)
  case Nil
  then show ?case by (cases ds) auto
next
  case (Cons c cs)
  then show ?case by (simp add: add.assoc)
qed

lemmas call_lists = sample_calls_def create_calls_def pipeline_dtor_calls_def map_guard_def gst_ptr_dtor_def Let_def

lemma sample_calls_mapping: "map_run [] (sample_calls sample k verdict push_ok p) = Some []"
  by (auto simp: call_lists split: option.split)

lemma bus_turns_balanced:
  assumes "documented_transfers tr"
  shows "owned tr (bus_turns i ms) x = 0 \<and> ((\<forall>x. 0 \<le> acc x) \<longrightarrow> covered tr acc (bus_turns i ms))"
  using assms
proof (induction i ms arbitrary: acc rule: bus_turns.induct)
  case (3 i m ms)
  then show ?case
    by (auto simp: dispatch_calls_def gst_ptr_dtor_def documented_transfers_def split: gst_message_type.split option.split)
qed (auto simp: documented_transfers_def)

lemma sample_calls_kept:
  assumes "documented_transfers tr" and "pl_transform p = None \<or> k = 0"
  shows "owned tr (sample_calls sample k verdict push_ok p) x = 0"
    and "covered tr (\<lambda>x. 0) (sample_calls sample k verdict push_ok p)"
  using assms by (auto simp: call_lists documented_transfers_def split: option.split)

lemma sample_calls_copied:
  assumes "documented_transfers tr" and "pl_transform p \<noteq> None" and "k \<noteq> 0"
    and "sample = Some sm" and "sm_buffer sm = Some bf"
  shows "owned tr (sample_calls sample k verdict push_ok p) x
    = (if x = Go_buffer 0 then - 1 else if x = Go_buffer k then 1 else 0)"
  using assms by (auto simp: call_lists documented_transfers_def)

lemma sample_calls_push:
  "(\<exists>b. Push_buffer b True \<in> set (sample_calls sample k verdict push_ok p)) \<longleftrightarrow>
     length (pl_pushed (snd (on_new_sample sample verdict push_ok p))) = Suc (length (pl_pushed p))"
  by (auto simp: call_lists on_new_sample_def split: option.split flow_result.split prod.split)

section \<open>Properties\<close>

text \<open>
  C29. References and mappings of the sample callback, for every sample, verdict and answer of the
  delivery side: bytes are only touched while their buffer is mapped and every mapping is undone; a
  buffer is pushed exactly when the frame is counted as passed on. Without a transform, or when the
  sample's buffer was writable already, every reference acquired is given up and none that is not owned.
  When a transform makes \<^verbatim>\<open>gst_buffer_make_writable\<close> copy a shared buffer, the callback gives up
  a reference to the sample's buffer that it only borrowed, and never releases the copy.
\<close>

theorem sample_references:
  assumes "documented_transfers tr"
  shows "let cs = sample_calls sample k verdict push_ok p in
    map_run [] cs = Some []
    \<and> ((\<exists>b. Push_buffer b True \<in> set cs)
        = (length (pl_pushed (snd (on_new_sample sample verdict push_ok p))) = Suc (length (pl_pushed p))))
    \<and> (if pl_transform p = None \<or> k = 0 then never_short tr cs \<and> (\<forall>x. owned tr cs x = 0)
       else case Option.bind sample sm_buffer of
              None \<Rightarrow> \<forall>x. owned tr cs x = 0
            | Some bf \<Rightarrow> owned tr cs (Go_buffer 0) = - 1 \<and> owned tr cs (Go_buffer k) = 1)"
proof -
  let ?cs = "sample_calls sample k verdict push_ok p"
  have none: "owned tr ?cs x = 0" if "Option.bind sample sm_buffer = None" for x
    using assms that by (auto simp: call_lists documented_transfers_def split: option.split)
  show ?thesis
    using sample_calls_mapping sample_calls_push none sample_calls_kept [OF assms, of p k]
      sample_calls_copied [OF assms, of p k sample]
    by (auto simp: Let_def never_short_covered bind_eq_Some_conv split: option.split)
qed

text \<open>The transfers as a function, to see that the hypothesis can hold.\<close>

fun gst_transfer :: "gst_call \<Rightarrow> gst_obj \<Rightarrow> int" where
  "gst_transfer (Parse_launch y e) x = of_bool (y = Some x) + of_bool (e = Some x)"
| "gst_transfer (Get_by_name y) x = of_bool (y = Some x)"
| "gst_transfer (Pop_message y) x = of_bool (y = Some x)"
| "gst_transfer (Parse_error y) x = of_bool (y = Some x)"
| "gst_transfer (Pull_sample y) x = of_bool (y = Some x)"
| "gst_transfer (Get_bus y) x = of_bool (y = x)"
| "gst_transfer (Ref_buffer y) x = of_bool (y = x)"
| "gst_transfer (Unref g y) x = - of_bool (y = x)"
| "gst_transfer (Free_error y) x = - of_bool (y = x)"
| "gst_transfer (Push_buffer y b) x = - of_bool (y = x)"
| "gst_transfer (Make_writable y z) x = of_bool (z = x) - of_bool (y = x)"
| "gst_transfer c x = 0"

lemma gst_transfer_documented: "documented_transfers gst_transfer"
  by (simp add: documented_transfers_def)

theorem sample_references_witness:
  "let cs = sample_calls (Some \<lparr>sm_buffer = Some \<lparr>bf_map_ok = True, bf_data = [], bf_pts = None\<rparr>, sm_caps = None\<rparr>) 1
       FR_ok True (demo_pipeline\<lparr>pl_transform := Some (\<lambda>v out. (PR_kept, wf_data out))\<rparr>)
   in owned gst_transfer cs (Go_buffer 0) = - 1 \<and> owned gst_transfer cs (Go_buffer 1) = 1"
  using sample_references [OF gst_transfer_documented, of "Some \<lparr>sm_buffer = Some \<lparr>bf_map_ok = True, bf_data = [],
      bf_pts = None\<rparr>, sm_caps = None\<rparr>" 1 FR_ok True "demo_pipeline\<lparr>pl_transform := Some (\<lambda>v out. (PR_kept, wf_data out))\<rparr>"]
  by (simp add: Let_def)

text \<open>
  References over the life of a pipeline: creation never gives up what it does not own; when it
  fails it has released everything, the parser's error included, and when it succeeds it owns the
  pipeline and nothing else; the bus thread, whatever messages it pops, releases each of them, the
  errors it reads and the bus; after the destructor nothing is owned.
\<close>

lemma graph_references:
  assumes "documented_transfers tr"
  shows "never_short tr (create_calls parse by_name spec)
    \<and> (case pipeline_create parse by_name spec t of
         Inl e \<Rightarrow> \<forall>x. owned tr (create_calls parse by_name spec) x = 0
       | Inr p \<Rightarrow> (\<forall>x. owned tr (create_calls parse by_name spec) x = of_bool (x = Go_pipeline))
           \<and> never_short tr (create_calls parse by_name spec @ bus_thread_calls ms @ pipeline_dtor_calls)
           \<and> (\<forall>x. owned tr (create_calls parse by_name spec @ bus_thread_calls ms @ pipeline_dtor_calls) x = 0))"
proof -
  let ?c = "create_calls parse by_name spec"
  have c: "covered tr (\<lambda>x. 0) ?c"
    using assms by (auto simp: call_lists documented_transfers_def split: prod.split option.split)
  have fails: "owned tr ?c x = 0" if "pipeline_create parse by_name spec t = Inl e" for e x
    using assms that by (auto simp: call_lists documented_transfers_def pipeline_create_def fail_def split: prod.splits if_splits)
  have works: "owned tr ?c x = of_bool (x = Go_pipeline)" if "pipeline_create parse by_name spec t = Inr p" for p x
    using assms that by (auto simp: call_lists documented_transfers_def pipeline_create_def fail_def split: prod.splits if_splits)
  have bus: "owned tr (bus_thread_calls ms) x = 0"
    "covered tr (\<lambda>x. of_bool (x = Go_pipeline)) (bus_thread_calls ms)" for x
    using assms bus_turns_balanced [OF assms, of 0 ms]
    by (auto simp: bus_thread_calls_def gst_ptr_dtor_def documented_transfers_def covered_append)
  have d: "owned tr pipeline_dtor_calls x = - of_bool (x = Go_pipeline)"
    "covered tr (\<lambda>x. of_bool (x = Go_pipeline)) pipeline_dtor_calls" for x
    using assms by (auto simp: call_lists documented_transfers_def)
  show ?thesis using c fails works bus d
    by (auto simp: never_short_covered covered_append split: sum.split)
qed

lemma graph_references_witness:
  "owned gst_transfer (create_calls (\<lambda>_. (True, False)) (\<lambda>_ _. True) pipeline_spec_default
     @ bus_thread_calls [None, Some \<lparr>gm_type = Msg_error, gm_src = None, gm_error = Some ''x''\<rparr>]
     @ pipeline_dtor_calls) (Go_message 1) = 0"
  using graph_references [OF gst_transfer_documented, of "\<lambda>_. (True, False)" "\<lambda>_ _. True" pipeline_spec_default
      "[None, Some \<lparr>gm_type = Msg_error, gm_src = None, gm_error = Some ''x''\<rparr>]" None]
  by (simp add: pipeline_create_def Let_def del: owned_append)

end
