(* ===== verification/Video_Threads.thy ===== *)
theory Video_Threads
  imports Optronic_Base
begin

text \<open>
  The pipeline as the threads of the service share it (\<^verbatim>\<open>pipeline.cpp\<close>, \<^verbatim>\<open>main.cpp\<close>,
  \<^verbatim>\<open>yolo.cpp\<close>): the main thread makes it, starts it and takes it down; the bus thread dispatches
  messages; a streaming thread of GStreamer runs the sample callback with the detector in it; the
  telemetry worker reads the frame count; the detector's own worker runs inference. A step is one access
  to the pipeline object or to the detector. \<open>waits\<close> is GStreamer's documented behaviour that bringing a
  graph to NULL returns only when its streaming threads are out of their callbacks; \<open>det\<close> says whether
  there is a detector.
\<close>

section \<open>States\<close>

datatype vmain_pc =
    Vm_init | Vm_play | Vm_bus | Vm_tele | Vm_run | Vm_tele_stop | Vm_stats | Vm_ask | Vm_join | Vm_detach
  | Vm_null | Vm_reset | Vm_return | Vm_yolo | Vm_end

datatype vbus_pc = Vb_none | Vb_poll | Vb_dispatch | Vb_gone

datatype vstream_pc = Vs_idle | Vs_in | Vs_transform | Vs_sink | Vs_push

datatype vsampler_pc = Vq_none | Vq_idle | Vq_tested

datatype vdet_pc = Vd_none | Vd_wait | Vd_run | Vd_gone

record vsys =
  vs_main :: vmain_pc
  vs_alive :: bool
  vs_cb :: bool
  vs_flow :: bool
  vs_bus :: vbus_pc
  vs_bus_stop :: bool
  vs_stream :: vstream_pc
  vs_sampler :: vsampler_pc
  vs_yolo :: bool
  vs_det :: vdet_pc
  vs_det_stop :: bool
  vs_bad :: bool

definition vsys_init :: vsys where
  "vsys_init = \<lparr>vs_main = Vm_init, vs_alive = False, vs_cb = False, vs_flow = False, vs_bus = Vb_none,
     vs_bus_stop = False, vs_stream = Vs_idle, vs_sampler = Vq_none, vs_yolo = False, vs_det = Vd_none,
     vs_det_stop = False, vs_bad = False\<rparr>"

text \<open>
  Accesses to the pipeline object and to the detector; one to an object that is not there is undefined
  behaviour. \<open>bus_runs\<close>, \<open>det_runs\<close>: the thread has been started and has not ended.
\<close>

definition touch_pipe :: "vsys \<Rightarrow> vsys" where
  "touch_pipe s = s\<lparr>vs_bad := (vs_bad s \<or> \<not> vs_alive s)\<rparr>"

definition touch_yolo :: "vsys \<Rightarrow> vsys" where
  "touch_yolo s = s\<lparr>vs_bad := (vs_bad s \<or> \<not> vs_yolo s)\<rparr>"

definition bus_runs :: "vsys \<Rightarrow> bool" where
  "bus_runs s \<longleftrightarrow> vs_bus s = Vb_poll \<or> vs_bus s = Vb_dispatch"

definition det_runs :: "vsys \<Rightarrow> bool" where
  "det_runs s \<longleftrightarrow> vs_det s = Vd_wait \<or> vs_det s = Vd_run"

section \<open>Steps\<close>

text \<open>
  The main thread. An \<^verbatim>\<open>init\<close> without a pipeline leaves nothing to stop; a start that fails (the
  state change refused or not reached, or telemetry failing after it) goes to the stop, which is
  \<^verbatim>\<open>TelemetryService::stop\<close>, where the worker is joined, then \<^verbatim>\<open>VideoService::stop\<close> with
  \<^verbatim>\<open>Pipeline::Impl::shutdown\<close>. The reset runs \<^verbatim>\<open>shutdown\<close> once more, on a graph that is at
  NULL; the detector goes with the service object when \<^verbatim>\<open>main\<close> returns.
\<close>

inductive vmain_step :: "bool \<Rightarrow> bool \<Rightarrow> vsys \<Rightarrow> vsys \<Rightarrow> bool" for waits det where
  pipe_made: "vs_main s = Vm_init \<Longrightarrow>
    vmain_step waits det s (s\<lparr>vs_main := Vm_play, vs_alive := True, vs_cb := True, vs_yolo := det\<rparr>)"
| pipe_fails: "vs_main s = Vm_init \<Longrightarrow> vmain_step waits det s (s\<lparr>vs_main := Vm_return, vs_yolo := det \<and> loaded\<rparr>)"
| graph_plays: "vs_main s = Vm_play \<Longrightarrow> vmain_step waits det s ((touch_pipe s)\<lparr>vs_main := Vm_bus, vs_flow := True\<rparr>)"
| play_refused: "vs_main s = Vm_play \<Longrightarrow> vmain_step waits det s ((touch_pipe s)\<lparr>vs_main := Vm_stats, vs_flow := part\<rparr>)"
| play_not_reached: "vs_main s = Vm_bus \<Longrightarrow> vmain_step waits det s ((touch_pipe s)\<lparr>vs_main := Vm_stats\<rparr>)"
| bus_started: "vs_main s = Vm_bus \<Longrightarrow> vmain_step waits det s ((touch_pipe s)\<lparr>vs_main := Vm_tele, vs_bus := Vb_poll\<rparr>)"
| tele_starts: "vs_main s = Vm_tele \<Longrightarrow> vmain_step waits det s (s\<lparr>vs_main := Vm_run, vs_sampler := Vq_idle\<rparr>)"
| tele_off: "vs_main s = Vm_tele \<Longrightarrow> vmain_step waits det s (s\<lparr>vs_main := Vm_run\<rparr>)"
| tele_fails: "vs_main s = Vm_tele \<Longrightarrow> vmain_step waits det s (s\<lparr>vs_main := Vm_stats\<rparr>)"
| stop_comes: "vs_main s = Vm_run \<Longrightarrow> vmain_step waits det s (s\<lparr>vs_main := Vm_tele_stop\<rparr>)"
| tele_joined: "vs_main s = Vm_tele_stop \<Longrightarrow> vs_sampler s \<noteq> Vq_tested \<Longrightarrow>
    vmain_step waits det s (s\<lparr>vs_main := Vm_stats, vs_sampler := Vq_none\<rparr>)"
| stats_read: "vs_main s = Vm_stats \<Longrightarrow> vmain_step waits det s ((touch_pipe s)\<lparr>vs_main := Vm_ask\<rparr>)"
| bus_asked: "vs_main s = Vm_ask \<Longrightarrow> vmain_step waits det s ((touch_pipe s)\<lparr>vs_main := Vm_join, vs_bus_stop := True\<rparr>)"
| bus_joined: "vs_main s = Vm_join \<Longrightarrow> \<not> bus_runs s \<Longrightarrow>
    vmain_step waits det s ((touch_pipe s)\<lparr>vs_main := Vm_detach\<rparr>)"
| cb_detached: "vs_main s = Vm_detach \<Longrightarrow> vmain_step waits det s ((touch_pipe s)\<lparr>vs_main := Vm_null, vs_cb := False\<rparr>)"
| graph_null: "vs_main s = Vm_null \<Longrightarrow> waits \<longrightarrow> vs_stream s = Vs_idle \<Longrightarrow>
    vmain_step waits det s ((touch_pipe s)\<lparr>vs_main := Vm_reset, vs_flow := False\<rparr>)"
| pipe_reset: "vs_main s = Vm_reset \<Longrightarrow> vmain_step waits det s ((touch_pipe s)\<lparr>vs_main := Vm_return, vs_alive := False\<rparr>)"
| det_asked: "vs_main s = Vm_return \<Longrightarrow> vmain_step waits det s (s\<lparr>vs_main := Vm_yolo, vs_det_stop := True\<rparr>)"
| det_joined: "vs_main s = Vm_yolo \<Longrightarrow> \<not> det_runs s \<Longrightarrow>
    vmain_step waits det s (s\<lparr>vs_main := Vm_end, vs_yolo := False\<rparr>)"

text \<open>The bus thread looks at its stop token between two messages only.\<close>

inductive vbus_step :: "vsys \<Rightarrow> vsys \<Rightarrow> bool" where
  vbus_quits: "vs_bus s = Vb_poll \<Longrightarrow> vs_bus_stop s \<Longrightarrow> vbus_step s (s\<lparr>vs_bus := Vb_gone\<rparr>)"
| vbus_pops: "vs_bus s = Vb_poll \<Longrightarrow> \<not> vs_bus_stop s \<Longrightarrow> vbus_step s (s\<lparr>vs_bus := Vb_dispatch\<rparr>)"
| vbus_reports: "vs_bus s = Vb_dispatch \<Longrightarrow> vbus_step s ((touch_pipe s)\<lparr>vs_bus := Vb_poll\<rparr>)"

text \<open>
  The streaming thread, from the entry of the callback, which needs a running graph and an installed
  callback, to its return. The first frame offered to the detector starts its worker; every so many
  frames the sink reads what was found.
\<close>

inductive vstream_step :: "bool \<Rightarrow> vsys \<Rightarrow> vsys \<Rightarrow> bool" for det where
  sample_in: "vs_stream s = Vs_idle \<Longrightarrow> vs_flow s \<Longrightarrow> vs_cb s \<Longrightarrow> vstream_step det s (s\<lparr>vs_stream := Vs_in\<rparr>)"
| sample_left: "vs_stream s = Vs_in \<Longrightarrow> vstream_step det s ((touch_pipe s)\<lparr>vs_stream := Vs_idle\<rparr>)"
| sample_mapped: "vs_stream s = Vs_in \<Longrightarrow> vstream_step det s ((touch_pipe s)\<lparr>vs_stream := Vs_transform\<rparr>)"
| first_offer: "vs_stream s = Vs_transform \<Longrightarrow> det \<Longrightarrow> vs_det s = Vd_none \<Longrightarrow>
    vstream_step det s ((touch_yolo (touch_pipe s))\<lparr>vs_det := Vd_wait\<rparr>)"
| sample_transformed: "vs_stream s = Vs_transform \<Longrightarrow> det \<Longrightarrow>
    vstream_step det s ((touch_yolo (touch_pipe s))\<lparr>vs_stream := Vs_sink\<rparr>)"
| no_transform: "vs_stream s = Vs_transform \<Longrightarrow> \<not> det \<Longrightarrow>
    vstream_step det s ((touch_pipe s)\<lparr>vs_stream := Vs_sink\<rparr>)"
| sample_shown: "vs_stream s = Vs_sink \<Longrightarrow> vstream_step det s ((touch_pipe s)\<lparr>vs_stream := Vs_push\<rparr>)"
| found_reported: "vs_stream s = Vs_sink \<Longrightarrow> det \<Longrightarrow>
    vstream_step det s ((touch_yolo (touch_pipe s))\<lparr>vs_stream := Vs_push\<rparr>)"
| sample_pushed: "vs_stream s = Vs_push \<Longrightarrow> vstream_step det s ((touch_pipe s)\<lparr>vs_stream := Vs_idle\<rparr>)"

text \<open>\<^verbatim>\<open>VideoService::frames\<close> on the telemetry worker: the optional is tested, then used.\<close>

inductive vsampler_step :: "vsys \<Rightarrow> vsys \<Rightarrow> bool" where
  sampler_tests: "vs_sampler s = Vq_idle \<Longrightarrow> vs_alive s \<Longrightarrow> vsampler_step s (s\<lparr>vs_sampler := Vq_tested\<rparr>)"
| sampler_reads: "vs_sampler s = Vq_tested \<Longrightarrow> vsampler_step s ((touch_pipe s)\<lparr>vs_sampler := Vq_idle\<rparr>)"

text \<open>The detector's worker: waiting for a frame, taking one, storing what was found.\<close>

inductive vdet_step :: "vsys \<Rightarrow> vsys \<Rightarrow> bool" where
  det_takes: "vs_det s = Vd_wait \<Longrightarrow> \<not> vs_det_stop s \<Longrightarrow> vdet_step s ((touch_yolo s)\<lparr>vs_det := Vd_run\<rparr>)"
| det_stores: "vs_det s = Vd_run \<Longrightarrow> vdet_step s ((touch_yolo s)\<lparr>vs_det := Vd_wait\<rparr>)"
| det_quits: "vs_det s = Vd_wait \<Longrightarrow> vs_det_stop s \<Longrightarrow> vdet_step s ((touch_yolo s)\<lparr>vs_det := Vd_gone\<rparr>)"

inductive_cases vmain_stepE: "vmain_step waits det s t"
inductive_cases vbus_stepE: "vbus_step s t"
inductive_cases vstream_stepE: "vstream_step det s t"
inductive_cases vsampler_stepE: "vsampler_step s t"
inductive_cases vdet_stepE: "vdet_step s t"

definition vstep :: "bool \<Rightarrow> bool \<Rightarrow> vsys \<Rightarrow> vsys \<Rightarrow> bool" where
  "vstep waits det s t \<longleftrightarrow> vmain_step waits det s t \<or> vbus_step s t \<or> vstream_step det s t
     \<or> vsampler_step s t \<or> vdet_step s t"

definition vreach :: "bool \<Rightarrow> bool \<Rightarrow> vsys \<Rightarrow> bool" where
  "vreach waits det s \<longleftrightarrow> (vstep waits det)\<^sup>*\<^sup>* vsys_init s"

section \<open>Invariant\<close>

text \<open>Who may be where, in terms of the point the main thread has come to.\<close>

primrec pipe_up :: "vmain_pc \<Rightarrow> bool" where
  "pipe_up Vm_init = False" | "pipe_up Vm_play = True" | "pipe_up Vm_bus = True" | "pipe_up Vm_tele = True"
| "pipe_up Vm_run = True" | "pipe_up Vm_tele_stop = True" | "pipe_up Vm_stats = True" | "pipe_up Vm_ask = True"
| "pipe_up Vm_join = True" | "pipe_up Vm_detach = True" | "pipe_up Vm_null = True" | "pipe_up Vm_reset = True"
| "pipe_up Vm_return = False" | "pipe_up Vm_yolo = False" | "pipe_up Vm_end = False"

definition vinv :: "bool \<Rightarrow> vsys \<Rightarrow> bool" where
  "vinv det s \<longleftrightarrow> \<not> vs_bad s
     \<and> (vs_alive s \<longleftrightarrow> pipe_up (vs_main s))
     \<and> (pipe_up (vs_main s) \<longrightarrow> vs_yolo s = det)
     \<and> (vs_cb s \<longrightarrow> pipe_up (vs_main s) \<and> vs_main s \<noteq> Vm_null \<and> vs_main s \<noteq> Vm_reset)
     \<and> (vs_stream s \<noteq> Vs_idle \<longrightarrow> pipe_up (vs_main s) \<and> vs_main s \<noteq> Vm_reset)
     \<and> (bus_runs s \<longrightarrow> pipe_up (vs_main s) \<and> vs_main s \<notin> {Vm_play, Vm_bus, Vm_detach, Vm_null, Vm_reset})
     \<and> (vs_sampler s \<noteq> Vq_none \<longrightarrow> vs_main s = Vm_run \<or> vs_main s = Vm_tele_stop)
     \<and> (det_runs s \<longrightarrow> vs_yolo s)
     \<and> (vs_main s = Vm_init \<or> vs_main s = Vm_end \<longrightarrow> \<not> vs_yolo s)
     \<and> (vs_main s = Vm_yolo \<longrightarrow> vs_det_stop s)
     \<and> (vs_main s = Vm_join \<longrightarrow> vs_bus_stop s)"

lemmas vinv_simps = vinv_def bus_runs_def det_runs_def

lemma touch_there:
  "vs_alive s \<Longrightarrow> touch_pipe s = s" "vs_yolo s \<Longrightarrow> touch_yolo s = s"
  by (simp_all add: touch_pipe_def touch_yolo_def)

lemma vinv_init: "vinv det vsys_init"
  by (simp add: vinv_simps vsys_init_def)

text \<open>Where a thread uses the pipeline or the detector, it is there.\<close>

lemma vinv_there:
  assumes "vinv det s"
  shows "pipe_up (vs_main s) \<Longrightarrow> vs_alive s" "vs_stream s \<noteq> Vs_idle \<Longrightarrow> vs_alive s"
    "vs_stream s \<noteq> Vs_idle \<Longrightarrow> vs_yolo s = det" "bus_runs s \<Longrightarrow> vs_alive s" "vs_sampler s \<noteq> Vq_none \<Longrightarrow> vs_alive s"
    "det_runs s \<Longrightarrow> vs_yolo s"
  using assms by (auto simp: vinv_def)

lemma vinv_main: "vinv det s \<Longrightarrow> vmain_step True det s t \<Longrightarrow> vinv det t"
  by (erule vmain_stepE) (simp_all add: touch_there vinv_there(1), simp_all add: vinv_simps, auto)

lemma vinv_bus: "vinv det s \<Longrightarrow> vbus_step s t \<Longrightarrow> vinv det t"
  by (erule vbus_stepE) (simp_all add: touch_there vinv_there(4) bus_runs_def, auto simp: vinv_simps)

lemma vinv_stream: "vinv det s \<Longrightarrow> vstream_step det s t \<Longrightarrow> vinv det t"
  by (erule vstream_stepE; cases "vs_main s") (simp_all add: touch_there vinv_there(2,3), simp_all add: vinv_simps, auto)

lemma vinv_sampler: "vinv det s \<Longrightarrow> vsampler_step s t \<Longrightarrow> vinv det t"
  by (erule vsampler_stepE) (simp_all add: touch_there vinv_there(5), auto simp: vinv_simps)

lemma vinv_det: "vinv det s \<Longrightarrow> vdet_step s t \<Longrightarrow> vinv det t"
  by (erule vdet_stepE) (simp_all add: touch_there vinv_there(6) det_runs_def, auto simp: vinv_simps)

lemma vinv_reach: "vreach True det s \<Longrightarrow> vinv det s"
  unfolding vreach_def
  by (induction rule: rtranclp_induct)
    (auto simp: vstep_def intro: vinv_init vinv_main vinv_bus vinv_stream vinv_sampler vinv_det)

section \<open>Progress\<close>

text \<open>
  What is left to do before the main thread is at its end; in every state of the invariant some thread
  has a step that leaves less.
\<close>

primrec main_left :: "vmain_pc \<Rightarrow> nat" where
  "main_left Vm_init = 14" | "main_left Vm_play = 13" | "main_left Vm_bus = 12" | "main_left Vm_tele = 11"
| "main_left Vm_run = 10" | "main_left Vm_tele_stop = 9" | "main_left Vm_stats = 8" | "main_left Vm_ask = 7"
| "main_left Vm_join = 6" | "main_left Vm_detach = 5" | "main_left Vm_null = 4" | "main_left Vm_reset = 3"
| "main_left Vm_return = 2" | "main_left Vm_yolo = 1" | "main_left Vm_end = 0"

primrec bus_left :: "vbus_pc \<Rightarrow> nat" where
  "bus_left Vb_none = 0" | "bus_left Vb_poll = 1" | "bus_left Vb_dispatch = 2" | "bus_left Vb_gone = 0"

primrec stream_left :: "vstream_pc \<Rightarrow> nat" where
  "stream_left Vs_idle = 0" | "stream_left Vs_in = 1" | "stream_left Vs_transform = 3" | "stream_left Vs_sink = 2"
| "stream_left Vs_push = 1"

primrec det_left :: "vdet_pc \<Rightarrow> nat" where
  "det_left Vd_none = 0" | "det_left Vd_wait = 1" | "det_left Vd_run = 2" | "det_left Vd_gone = 0"

definition vleft :: "vsys \<Rightarrow> nat" where
  "vleft s = 20 * main_left (vs_main s) + bus_left (vs_bus s) + stream_left (vs_stream s)
     + of_bool (vs_sampler s = Vq_tested) + det_left (vs_det s)"

lemmas vleft_simps = vleft_def touch_pipe_def touch_yolo_def

lemma bus_ends:
  assumes "vs_bus_stop s" and "bus_runs s"
  shows "\<exists>t. vbus_step s t \<and> vleft t < vleft s"
proof (cases "vs_bus s = Vb_poll")
  case True
  then show ?thesis using assms(1)
    by - (rule exI, rule conjI, erule (1) vbus_quits, simp add: vleft_simps)
next
  case False
  then have "vs_bus s = Vb_dispatch" using assms(2) by (simp add: bus_runs_def)
  then show ?thesis by - (rule exI, rule conjI, erule vbus_reports, simp add: vleft_simps)
qed

lemma det_ends:
  assumes "vs_det_stop s" and "det_runs s"
  shows "\<exists>t. vdet_step s t \<and> vleft t < vleft s"
proof (cases "vs_det s = Vd_wait")
  case True
  then show ?thesis using assms(1)
    by - (rule exI, rule conjI, erule (1) det_quits, simp add: vleft_simps)
next
  case False
  then have "vs_det s = Vd_run" using assms(2) by (simp add: det_runs_def)
  then show ?thesis by - (rule exI, rule conjI, erule det_stores, simp add: vleft_simps)
qed

lemma sample_ends:
  assumes "vs_stream s \<noteq> Vs_idle"
  shows "\<exists>t. vstream_step det s t \<and> vleft t < vleft s"
proof (cases "vs_stream s")
  case Vs_in
  then show ?thesis by - (rule exI, rule conjI, erule sample_left, simp add: vleft_simps)
next
  case Vs_transform
  show ?thesis
  proof (cases det)
    case True
    with Vs_transform show ?thesis
      by - (rule exI, rule conjI, erule (1) sample_transformed, simp add: vleft_simps)
  next
    case False
    with Vs_transform show ?thesis
      by - (rule exI, rule conjI, erule (1) no_transform, simp add: vleft_simps)
  qed
next
  case Vs_sink
  then show ?thesis by - (rule exI, rule conjI, erule sample_shown, simp add: vleft_simps)
next
  case Vs_push
  then show ?thesis by - (rule exI, rule conjI, erule sample_pushed, simp add: vleft_simps)
qed (use assms in simp)

text \<open>The main thread itself has a step unless it waits for another thread; every step of it leaves less.\<close>

lemma main_goes:
  assumes "vs_main s \<noteq> Vm_end" and "vs_main s = Vm_tele_stop \<longrightarrow> vs_sampler s \<noteq> Vq_tested"
    and "vs_main s = Vm_join \<longrightarrow> \<not> bus_runs s" and "vs_main s = Vm_null \<longrightarrow> vs_stream s = Vs_idle"
    and "vs_main s = Vm_yolo \<longrightarrow> \<not> det_runs s"
  shows "\<exists>t. vmain_step waits det s t"
  using assms by (cases "vs_main s") (auto intro: vmain_step.intros)

lemma main_leaves_less: "vmain_step waits det s t \<Longrightarrow> vleft t < vleft s"
  by (erule vmain_stepE; cases "vs_bus s") (simp_all add: vleft_simps)

lemma vinv_progress:
  assumes "vinv det s" and "vs_main s \<noteq> Vm_end"
  shows "\<exists>t. vstep waits det s t \<and> vleft t < vleft s"
proof -
  consider "vs_main s = Vm_tele_stop \<and> vs_sampler s = Vq_tested" | "vs_main s = Vm_join \<and> bus_runs s"
    | "vs_main s = Vm_null \<and> vs_stream s \<noteq> Vs_idle" | "vs_main s = Vm_yolo \<and> det_runs s"
    | "\<exists>t. vmain_step waits det s t"
    using main_goes [OF assms(2)] by blast
  then show ?thesis
  proof cases
    case 1
    then have "vsampler_step s ((touch_pipe s)\<lparr>vs_sampler := Vq_idle\<rparr>)" by (simp add: sampler_reads)
    moreover have "vleft ((touch_pipe s)\<lparr>vs_sampler := Vq_idle\<rparr>) < vleft s" using 1 by (simp add: vleft_simps)
    ultimately show ?thesis unfolding vstep_def by blast
  next
    case 2
    then have "vs_bus_stop s" using assms(1) by (simp add: vinv_def)
    with 2 show ?thesis using bus_ends unfolding vstep_def by blast
  next
    case 3
    then show ?thesis using sample_ends unfolding vstep_def by blast
  next
    case 4
    then have "vs_det_stop s" using assms(1) by (simp add: vinv_def)
    with 4 show ?thesis using det_ends unfolding vstep_def by blast
  next
    case 5
    then show ?thesis using main_leaves_less unfolding vstep_def by blast
  qed
qed

lemma end_reachable: "vreach True det s \<Longrightarrow> \<exists>t. (vstep True det)\<^sup>*\<^sup>* s t \<and> vs_main t = Vm_end"
proof (induction "vleft s" arbitrary: s rule: less_induct)
  case less
  show ?case
  proof (cases "vs_main s = Vm_end")
    case False
    then obtain t where t: "vstep True det s t" "vleft t < vleft s"
      using vinv_progress vinv_reach [OF less.prems] by blast
    then have "vreach True det t" using less.prems by (auto simp: vreach_def)
    from less.hyps [OF t(2) this] t(1) show ?thesis
      by (meson converse_rtranclp_into_rtranclp)
  qed blast
qed

section \<open>Without the wait\<close>

text \<open>The main thread about to bring the graph to NULL while a sample is in the callback.\<close>

definition stopping :: "bool \<Rightarrow> vsys" where
  "stopping det = vsys_init\<lparr>vs_main := Vm_null, vs_alive := True, vs_flow := True, vs_bus_stop := True,
     vs_stream := Vs_in, vs_yolo := det\<rparr>"

lemma vreach_main: "vreach waits det s \<Longrightarrow> vmain_step waits det s t \<Longrightarrow> vreach waits det t"
  unfolding vreach_def vstep_def by (erule rtranclp.rtrancl_into_rtrancl) blast

lemma vreach_stream: "vreach waits det s \<Longrightarrow> vstream_step det s t \<Longrightarrow> vreach waits det t"
  unfolding vreach_def vstep_def by (erule rtranclp.rtrancl_into_rtrancl) blast

lemma stopping_reached: "vreach waits det (stopping det)"
proof -
  have "vreach waits det vsys_init" by (simp add: vreach_def)
  from vreach_main [OF vreach_main [OF this pipe_made] graph_plays]
  have "vreach waits det (vsys_init\<lparr>vs_main := Vm_bus, vs_alive := True, vs_cb := True, vs_yolo := det, vs_flow := True\<rparr>)"
    by (simp add: vsys_init_def touch_pipe_def)
  from vreach_main [OF vreach_main [OF vreach_stream [OF this sample_in] play_not_reached] stats_read]
  have "vreach waits det (vsys_init\<lparr>vs_main := Vm_ask, vs_alive := True, vs_cb := True, vs_yolo := det, vs_flow := True,
      vs_stream := Vs_in\<rparr>)"
    by (simp add: vsys_init_def touch_pipe_def)
  from vreach_main [OF vreach_main [OF vreach_main [OF this bus_asked] bus_joined] cb_detached] show ?thesis
    by (simp add: stopping_def vsys_init_def touch_pipe_def bus_runs_def)
qed

lemma late_sample:
  assumes "\<not> waits"
  shows "\<exists>s. vreach waits det s \<and> vs_bad s"
proof -
  from vreach_main [OF vreach_main [OF stopping_reached graph_null] pipe_reset]
  have "vreach waits det ((stopping det)\<lparr>vs_main := Vm_return, vs_flow := False, vs_alive := False\<rparr>)"
    using assms by (simp add: stopping_def vsys_init_def touch_pipe_def)
  from vreach_stream [OF this sample_left]
  have "vreach waits det ((stopping det)\<lparr>vs_main := Vm_return, vs_flow := False, vs_alive := False, vs_bad := True,
      vs_stream := Vs_idle\<rparr>)"
    by (simp add: stopping_def vsys_init_def touch_pipe_def)
  moreover have "vs_bad ((stopping det)\<lparr>vs_main := Vm_return, vs_flow := False, vs_alive := False, vs_bad := True,
      vs_stream := Vs_idle\<rparr>)" by simp
  ultimately show ?thesis by blast
qed

lemma vinv_stopped:
  "vinv det s \<Longrightarrow> \<not> pipe_up (vs_main s) \<Longrightarrow> vs_main s \<noteq> Vm_run \<Longrightarrow> vs_main s \<noteq> Vm_tele_stop \<Longrightarrow>
     \<not> bus_runs s \<and> vs_stream s = Vs_idle \<and> vs_sampler s = Vq_none \<and> \<not> vs_alive s"
  by (simp add: vinv_def)

section \<open>Properties\<close>

text \<open>
  C30. The pipeline object shared between threads, under every interleaving of the main thread, the bus
  thread, the sample callback, the telemetry worker and the detector's worker, with or without a detector
  and on every way through start and stop: if GStreamer waits for a callback in progress when a graph is
  brought to NULL, no thread ever uses a pipeline or a detector that is gone; after the stop no thread
  but the detector's worker runs, and that one has ended before \<^verbatim>\<open>main\<close> returns; and from every
  state the end can be reached. The wait is needed: detaching the callback does not hold back a sample
  that is already in it, and without the wait it would use the destroyed pipeline.
\<close>

theorem pipeline_shared:
  "((\<exists>s. vreach waits det s \<and> vs_bad s) \<longleftrightarrow> \<not> waits)
   \<and> (\<forall>s. vreach True det s \<longrightarrow>
        (vs_main s \<in> {Vm_return, Vm_yolo, Vm_end} \<longrightarrow>
           \<not> bus_runs s \<and> vs_stream s = Vs_idle \<and> vs_sampler s = Vq_none \<and> \<not> vs_alive s)
        \<and> (vs_main s = Vm_end \<longrightarrow> \<not> det_runs s)
        \<and> (\<exists>t. (vstep True det)\<^sup>*\<^sup>* s t \<and> vs_main t = Vm_end))"
proof -
  have "\<not> vs_bad s" if "vreach True det s" for s
    using vinv_reach [OF that] by (simp add: vinv_def)
  then have "(\<exists>s. vreach waits det s \<and> vs_bad s) \<longleftrightarrow> \<not> waits"
    using late_sample [of waits det] by (cases waits) simp_all
  moreover have "\<not> bus_runs s \<and> vs_stream s = Vs_idle \<and> vs_sampler s = Vq_none \<and> \<not> vs_alive s"
    if "vreach True det s" "vs_main s \<in> {Vm_return, Vm_yolo, Vm_end}" for s
  proof -
    from that(2) have "\<not> pipe_up (vs_main s)" "vs_main s \<noteq> Vm_run" "vs_main s \<noteq> Vm_tele_stop" by auto
    then show ?thesis by (rule vinv_stopped [OF vinv_reach [OF that(1)]])
  qed
  moreover have "\<not> det_runs s" if "vreach True det s" "vs_main s = Vm_end" for s
    using vinv_reach [OF that(1)] that(2) unfolding vinv_def by simp blast
  moreover have "\<exists>t. (vstep True det)\<^sup>*\<^sup>* s t \<and> vs_main t = Vm_end" if "vreach True det s" for s
    by (rule end_reachable [OF that])
  ultimately show ?thesis by simp
qed

theorem pipeline_shared_witness:
  "(\<exists>t. (vstep True True)\<^sup>*\<^sup>* (stopping True) t \<and> vs_main t = Vm_end) \<and> (\<exists>s. vreach False True s \<and> vs_bad s)"
  using pipeline_shared [of False True] stopping_reached [of True True] by blast

end
