(* ===== verification/Float32.thy ===== *)
theory Float32
  imports Fmt_Float
begin

text \<open>
  Single-precision arithmetic of C++ on bit patterns, as the detector uses it: operations computed
  exactly and rounded once to the nearest float, ties to even (no fused operations). A result that is
  not a number is the default quiet one; only comparisons and conversions look at it.
\<close>

section \<open>Rounding\<close>

fun bit_len :: "nat \<Rightarrow> nat" where
  "bit_len n = (if n = 0 then 0 else Suc (bit_len (n div 2)))"

declare bit_len.simps [simp del]

definition f32_zero :: "bool \<Rightarrow> u32" where
  "f32_zero s = (if s then 0x80000000 else 0)"

definition f32_inf :: "bool \<Rightarrow> u32" where
  "f32_inf s = (if s then 0xFF800000 else 0x7F800000)"

definition f32_nan :: u32 where
  "f32_nan = 0x7FC00000"

text \<open>\<open>pow_le a i b\<close>: \<open>a * 2 ^ i \<le> b\<close>, for any integer \<open>i\<close>.\<close>

definition pow_le :: "nat \<Rightarrow> int \<Rightarrow> nat \<Rightarrow> bool" where
  "pow_le a i b \<longleftrightarrow> (if 0 \<le> i then a * 2 ^ nat i \<le> b else a \<le> b * 2 ^ nat (- i))"

text \<open>The binary exponent of the positive quotient \<open>num / den\<close>.\<close>

definition quot_exp :: "nat \<Rightarrow> nat \<Rightarrow> int" where
  "quot_exp num den =
     (let e = int (bit_len num) - int (bit_len den) in if pow_le den e num then e else e - 1)"

definition round_quot :: "bool \<Rightarrow> nat \<Rightarrow> nat \<Rightarrow> u32" where
  "round_quot s num den =
     (if num = 0 then f32_zero s
      else let E = max (quot_exp num den) (- 126);
               q = (if E \<le> 23 then round_half_even (num * 2 ^ nat (23 - E)) den
                    else round_half_even num (den * 2 ^ nat (E - 23)));
               b = nat (E + 126) * 2 ^ 23 + q
           in if b \<ge> 255 * 2 ^ 23 then f32_inf s else of_nat (b + (if s then 2 ^ 31 else 0)))"

definition round_dyadic :: "bool \<Rightarrow> nat \<Rightarrow> int \<Rightarrow> u32" where
  "round_dyadic s m e = (if 0 \<le> e then round_quot s (m * 2 ^ nat e) 1 else round_quot s m (2 ^ nat (- e)))"

section \<open>Operations\<close>

definition f32_of_int :: "int \<Rightarrow> u32" where
  "f32_of_int i = round_dyadic (i < 0) (nat \<bar>i\<bar>) 0"

definition f32_mul :: "u32 \<Rightarrow> u32 \<Rightarrow> u32" where
  "f32_mul a b =
     (case (decode_float a, decode_float b) of
        (Fin s m e, Fin t n f) \<Rightarrow> round_dyadic (s \<noteq> t) (m * n) (e + f)
      | (Inf s, Inf t) \<Rightarrow> f32_inf (s \<noteq> t)
      | (Inf s, Fin t n f) \<Rightarrow> if n = 0 then f32_nan else f32_inf (s \<noteq> t)
      | (Fin s m e, Inf t) \<Rightarrow> if m = 0 then f32_nan else f32_inf (s \<noteq> t)
      | _ \<Rightarrow> f32_nan)"

definition f32_div :: "u32 \<Rightarrow> u32 \<Rightarrow> u32" where
  "f32_div a b =
     (case (decode_float a, decode_float b) of
        (Fin s m e, Fin t n f) \<Rightarrow>
          if n = 0 then (if m = 0 then f32_nan else f32_inf (s \<noteq> t))
          else if f \<le> e then round_quot (s \<noteq> t) (m * 2 ^ nat (e - f)) n
          else round_quot (s \<noteq> t) m (n * 2 ^ nat (f - e))
      | (Inf s, Fin t n f) \<Rightarrow> f32_inf (s \<noteq> t)
      | (Fin s m e, Inf t) \<Rightarrow> f32_zero (s \<noteq> t)
      | _ \<Rightarrow> f32_nan)"

text \<open>A finite value as an integer multiple of \<open>2 ^ g\<close>, for \<open>g\<close> at most its exponent.\<close>

definition at_exp :: "bool \<Rightarrow> nat \<Rightarrow> int \<Rightarrow> int \<Rightarrow> int" where
  "at_exp s m e g = (if s then - 1 else 1) * int (m * 2 ^ nat (e - g))"

definition f32_sub :: "u32 \<Rightarrow> u32 \<Rightarrow> u32" where
  "f32_sub a b =
     (case (decode_float a, decode_float b) of
        (Fin s m e, Fin t n f) \<Rightarrow>
          (let g = min e f; d = at_exp s m e g - at_exp t n f g
           in if d = 0 then f32_zero (s \<and> \<not> t) else round_dyadic (d < 0) (nat \<bar>d\<bar>) g)
      | (Inf s, Inf t) \<Rightarrow> if s = t then f32_nan else f32_inf s
      | (Inf s, Fin t n f) \<Rightarrow> f32_inf s
      | (Fin s m e, Inf t) \<Rightarrow> f32_inf (\<not> t)
      | _ \<Rightarrow> f32_nan)"

definition f32_less :: "u32 \<Rightarrow> u32 \<Rightarrow> bool" where
  "f32_less a b =
     (case (decode_float a, decode_float b) of
        (Fin s m e, Fin t n f) \<Rightarrow> (let g = min e f in at_exp s m e g < at_exp t n f g)
      | (Inf s, Inf t) \<Rightarrow> s \<and> \<not> t
      | (Inf s, Fin t n f) \<Rightarrow> s
      | (Fin s m e, Inf t) \<Rightarrow> \<not> t
      | _ \<Rightarrow> False)"

text \<open>Conversion to \<^verbatim>\<open>int\<close>: towards zero, undefined (\<open>None\<close>) outside its range.\<close>

definition f32_to_int :: "u32 \<Rightarrow> int option" where
  "f32_to_int a =
     (case decode_float a of
        Fin s m e \<Rightarrow>
          (let n = (if 0 \<le> e then int (m * 2 ^ nat e) else int (m div 2 ^ nat (- e)));
               v = (if s then - n else n)
           in if - 2147483648 \<le> v \<and> v \<le> 2147483647 then Some v else None)
      | _ \<Rightarrow> None)"

definition is_nan :: "u32 \<Rightarrow> bool" where
  "is_nan a \<longleftrightarrow> (case decode_float a of NaN _ \<Rightarrow> True | _ \<Rightarrow> False)"

text \<open>Evaluation of closed terms.\<close>

lemmas f32_eval = f32_mul_def f32_div_def f32_sub_def f32_less_def f32_to_int_def f32_of_int_def
  round_dyadic_def round_quot_def round_half_even_def quot_exp_def pow_le_def bit_len.simps at_exp_def
  decode_float_def decode_fp_def f32_zero_def f32_inf_def Let_def

section \<open>A float is the rounding of its own value\<close>

lemma bit_len_bounds: "0 < n \<Longrightarrow> 2 ^ (bit_len n - 1) \<le> n \<and> n < 2 ^ bit_len n \<and> 0 < bit_len n"
proof (induction n rule: bit_len.induct)
  case (1 n)
  show ?case
  proof (cases "n div 2 = 0")
    case True
    then have "n = 1" using "1.prems" by simp
    then show ?thesis by (simp add: bit_len.simps)
  next
    case False
    define k where "k = bit_len (n div 2)"
    have h: "2 ^ (k - 1) \<le> n div 2" "n div 2 < 2 ^ k" "0 < k"
      using "1.IH" "1.prems" False by (simp_all add: k_def)
    have len: "bit_len n = Suc k" using "1.prems" by (simp add: bit_len.simps [of n] k_def)
    have "(2 :: nat) ^ k = 2 * 2 ^ (k - 1)" using h(3) by (simp flip: power_Suc)
    then show ?thesis using h unfolding len by simp linarith
  qed
qed

lemma bit_len_unique:
  assumes "2 ^ j \<le> n" and "n < 2 ^ Suc j"
  shows "bit_len n = Suc j"
proof -
  have b: "2 ^ (bit_len n - 1) \<le> n" "n < 2 ^ bit_len n" "0 < bit_len n"
    using bit_len_bounds [of n] less_le_trans [OF _ assms(1), of 0] by simp_all
  have "j < bit_len n" using assms(1) b(2) by (metis le_less_trans power_less_imp_less_exp one_less_numeral_iff semiring_norm(76))
  moreover have "bit_len n - 1 < Suc j"
    using b(1) assms(2) by (metis le_less_trans power_less_imp_less_exp one_less_numeral_iff semiring_norm(76))
  ultimately show ?thesis by linarith
qed

lemma quot_exp_pow:
  assumes "2 ^ j \<le> n" and "n < 2 ^ Suc j"
  shows "quot_exp n (2 ^ k) = int j - int k"
proof -
  have k: "bit_len (2 ^ k) = Suc k" by (rule bit_len_unique) simp_all
  have "pow_le (2 ^ k) (int j - int k) n"
  proof (cases "k \<le> j")
    case True
    then have "(2 :: nat) ^ k * 2 ^ (j - k) = 2 ^ j" by (simp flip: power_add)
    then show ?thesis using assms(1) True by (simp add: pow_le_def nat_diff_distrib')
  next
    case False
    then have "(2 :: nat) ^ k = 2 ^ j * 2 ^ (k - j)" by (simp flip: power_add)
    then show ?thesis using assms(1) False by (simp add: pow_le_def nat_diff_distrib')
  qed
  then show ?thesis by (simp add: quot_exp_def bit_len_unique [OF assms] k Let_def)
qed

lemma round_half_even_exact [simp]: "0 < b \<Longrightarrow> round_half_even (a * b) b = a"
  by (simp add: round_half_even_def Let_def)

lemma round_quot_exact:
  assumes "0 < num" and "max (quot_exp num den) (- 126) = E" and "0 < den"
    and "if E \<le> 23 then num * 2 ^ nat (23 - E) = q * den else num = q * (den * 2 ^ nat (E - 23))"
    and "nat (E + 126) * 2 ^ 23 + q = b" and "b < 255 * 2 ^ 23"
  shows "round_quot s num den = of_nat (b + (if s then 2 ^ 31 else 0))"
proof -
  have "(if E \<le> 23 then round_half_even (num * 2 ^ nat (23 - E)) den
      else round_half_even num (den * 2 ^ nat (E - 23))) = q"
    using assms(3,4) by (simp split: if_splits)
  then have "round_quot s num den = (if b \<ge> 255 * 2 ^ 23 then f32_inf s else of_nat (b + (if s then 2 ^ 31 else 0)))"
    using assms(1) unfolding round_quot_def Let_def assms(2) by (simp only: assms(5) neq0_conv [symmetric] if_False)
  then show ?thesis using assms(6) by (simp only: not_le [symmetric] if_False)
qed

text \<open>Finite patterns with sign \<open>s\<close>, biased exponent \<open>x\<close> and fraction \<open>m\<close>.\<close>

lemma round_normal:
  assumes "1 \<le> x" and "x < 255" and "m < 2 ^ 23"
  shows "round_dyadic s (m + 2 ^ 23) (int x - 150) = of_nat (x * 2 ^ 23 + m + (if s then 2 ^ 31 else 0))"
proof -
  define M where "M = m + 2 ^ 23"
  have m: "2 ^ 23 \<le> M" "M < 2 ^ Suc 23" "0 < M" using assms(3) by (simp_all add: M_def)
  have "(x + 1) * 2 ^ 23 \<le> 255 * (2 :: nat) ^ 23" using assms(2) by (intro mult_le_mono) simp_all
  then have fin: "x * 2 ^ 23 + m < 255 * 2 ^ 23" using assms(3) by simp
  have sum: "(x - 1) * 2 ^ 23 + M = x * 2 ^ 23 + m" using assms(1) by (cases x) (simp_all add: M_def)
  show ?thesis
  proof (cases "150 \<le> x")
    case True
    define k where "k = x - 150"
    have "2 ^ (23 + k) \<le> M * 2 ^ k" "M * 2 ^ k < 2 ^ Suc (23 + k)"
      using m(1,2) unfolding power_Suc power_add by (simp_all del: power_numeral)
    from quot_exp_pow [OF this, of 0] have E: "max (quot_exp (M * 2 ^ k) 1) (- 126) = int (23 + k)" by simp
    have b: "nat (int (23 + k) + 126) * 2 ^ 23 + M = x * 2 ^ 23 + m"
      unfolding sum [symmetric] using True by (simp add: k_def nat_add_distrib)
    have q: "if int (23 + k) \<le> 23 then M * 2 ^ k * 2 ^ nat (23 - int (23 + k)) = M * 1
        else M * 2 ^ k = M * (1 * 2 ^ nat (int (23 + k) - 23))" by simp
    have "round_quot s (M * 2 ^ k) 1 = of_nat (x * 2 ^ 23 + m + (if s then 2 ^ 31 else 0))"
      by (rule round_quot_exact [OF _ E _ q b fin]) (use m(3) in simp_all)
    moreover have "int x - 150 = int k" using True by (simp add: k_def)
    ultimately show ?thesis unfolding M_def [symmetric] round_dyadic_def by (simp only: of_nat_0_le_iff if_True nat_int)
  next
    case False
    define k where "k = 150 - x"
    have E: "max (quot_exp M (2 ^ k)) (- 126) = 23 - int k"
      using quot_exp_pow [OF m(1,2), of k] assms(1) False by (simp add: k_def)
    have "nat (23 - int k + 126) = x - 1" using False by (simp add: k_def)
    then have b: "nat (23 - int k + 126) * 2 ^ 23 + M = x * 2 ^ 23 + m" by (simp only: sum)
    have q: "if 23 - int k \<le> 23 then M * 2 ^ nat (23 - (23 - int k)) = M * 2 ^ k
        else M = M * (2 ^ k * 2 ^ nat (23 - int k - 23))" by simp
    have r: "round_quot s M (2 ^ k) = of_nat (x * 2 ^ 23 + m + (if s then 2 ^ 31 else 0))"
      by (rule round_quot_exact [OF m(3) E _ q b fin]) simp
    have "\<not> 0 \<le> int x - 150" "nat (- (int x - 150)) = k" using False by (simp_all add: k_def)
    then show ?thesis unfolding M_def [symmetric] round_dyadic_def using r by (simp only: if_False)
  qed
qed

lemma round_subnormal:
  assumes "m < 2 ^ 23"
  shows "round_dyadic s m (- 149) = of_nat (m + (if s then 2 ^ 31 else 0))"
proof (cases "m = 0")
  case True
  then show ?thesis by (simp add: round_dyadic_def round_quot_def f32_zero_def)
next
  case False
  define j and k :: nat where "j = bit_len m - 1" and "k = 149"
  have j: "2 ^ j \<le> m" "m < 2 ^ Suc j" using bit_len_bounds [of m] False by (simp_all add: j_def)
  have "(2 :: nat) ^ j < 2 ^ 23" using j(1) assms by (rule le_less_trans)
  then have "j < 23" by (rule power_less_imp_less_exp [rotated]) simp
  then have E: "max (quot_exp m (2 ^ k)) (- 126) = - 126" using quot_exp_pow [OF j, of k] by (simp add: k_def)
  have q: "if (- 126 :: int) \<le> 23 then m * 2 ^ nat (23 - - 126) = m * 2 ^ k else m = m * (2 ^ k * 2 ^ nat (- 126 - 23))"
    by (simp add: k_def)
  have "round_quot s m (2 ^ k) = of_nat (m + (if s then 2 ^ 31 else 0))"
    by (rule round_quot_exact [OF _ E _ q]) (use False assms in simp_all)
  moreover have "nat (- (- 149)) = k" by (simp add: k_def)
  ultimately show ?thesis by (simp only: round_dyadic_def) simp
qed

lemma round_decode:
  assumes "decode_float a = Fin s m e"
  shows "round_dyadic s m e = a"
proof -
  define n x f where "n = unat a" and "x = unat a div 2 ^ 23 mod 2 ^ 8" and "f = unat a mod 2 ^ 23"
  have "n < 2 ^ 32" using unsigned_less [of a, where ?'a = nat] by (simp add: n_def)
  then have top: "n div 2 ^ 31 = 0 \<or> n div 2 ^ 31 = 1" by auto
  have "n div 2 ^ 23 = n div 2 ^ 31 * 2 ^ 8 + x"
    using div_mult_mod_eq [of "n div 2 ^ 23" "2 ^ 8"] by (simp add: div_mult2_eq [symmetric] n_def x_def)
  then have b: "n = n div 2 ^ 31 * 2 ^ 31 + x * 2 ^ 23 + f"
    using div_mult_mod_eq [of n "2 ^ 23"] by (simp add: n_def f_def algebra_simps)
  have s: "s = odd (n div 2 ^ 31)" and ne: "x \<noteq> 255"
    and me: "if x = 0 then m = f \<and> e = - 149 else m = f + 2 ^ 23 \<and> e = int x - 150"
    using assms by (auto simp: decode_float_def decode_fp_def Let_def n_def x_def f_def split: if_splits)
  have "x < 256" "f < 2 ^ 23" by (simp_all add: x_def f_def)
  then have "round_dyadic s m e = of_nat (x * 2 ^ 23 + f + (if s then 2 ^ 31 else 0))"
    using me ne round_normal [of x f s] round_subnormal [of f s] by (cases "x = 0") simp_all
  also have "x * 2 ^ 23 + f + (if s then 2 ^ 31 else 0) = n" using b top unfolding s by auto
  finally show ?thesis by (simp add: n_def)
qed

end
