(* ===== verification/Detect_Yolo.thy ===== *)
theory Detect_Yolo
  imports Video_Spec Float32
begin

text \<open>
  \<^verbatim>\<open>modules/detect\<close>: the detection stage (\<^verbatim>\<open>yolo.hpp\<close>, \<^verbatim>\<open>yolo.cpp\<close>). Drawing, the choice
  of model files, pacing, the one-slot mailbox between the streaming thread and the worker, and the
  decoding of the raw network output are modelled; OpenCV (reading a model, running it, suppression of
  overlaps, the position of the maximum) is a parameter. Where an operation can run into behaviour C++
  leaves undefined, or end the program by an exception in a \<^verbatim>\<open>noexcept\<close> function, it returns an
  option, and \<open>None\<close> is that case: a copy past the end of a frame, a size no vector can have, a sum of
  coordinates that does not fit \<^verbatim>\<open>int\<close>. Memory itself is not bounded.
\<close>

section \<open>Drawing\<close>

definition kBoxLuma :: u8 where
  "kBoxLuma = 235"

definition put :: "nat \<Rightarrow> nat \<Rightarrow> int \<Rightarrow> int \<Rightarrow> u8 list \<Rightarrow> u8 list" where
  "put stride height px py plane =
     (if px < 0 \<or> py < 0 \<or> nat px \<ge> stride \<or> nat py \<ge> height then plane
      else let i = nat py * stride + nat px
           in if i < length plane then plane[i := kBoxLuma] else plane)"

definition rect_thickness :: int where
  "rect_thickness = 2"

definition draw_rect :: "u8 list \<Rightarrow> nat \<Rightarrow> nat \<Rightarrow> int \<Rightarrow> int \<Rightarrow> int \<Rightarrow> int \<Rightarrow> u8 list" where
  "draw_rect plane stride height x y w h =
     (let p1 = fold (\<lambda>i. fold (\<lambda>k pl. put stride height (x + i) (y + h - 1 - k)
                                       (put stride height (x + i) (y + k) pl)) [0..rect_thickness - 1])
                 [0..w - 1] plane
      in fold (\<lambda>j. fold (\<lambda>k pl. put stride height (x + w - 1 - k) (y + j)
                                  (put stride height (x + k) (y + j) pl)) [0..rect_thickness - 1])
           [0..h - 1] p1)"

text \<open>
  The integers above are mathematical; the sums the two loops form fit \<^verbatim>\<open>int\<close> exactly when
  \<open>rect_defined\<close> holds (a loop that does not run forms none). Callers are undefined where it does not.
\<close>

definition fits_int :: "int \<Rightarrow> bool" where
  "fits_int v \<longleftrightarrow> - 2147483648 \<le> v \<and> v \<le> 2147483647"

definition rect_defined :: "int \<Rightarrow> int \<Rightarrow> int \<Rightarrow> int \<Rightarrow> bool" where
  "rect_defined x y w h \<longleftrightarrow>
     (0 < w \<longrightarrow> fits_int (x + w - 1) \<and> fits_int (y + 1) \<and> fits_int (y + h) \<and> fits_int (y + h - 2))
     \<and> (0 < h \<longrightarrow> fits_int (y + h - 1) \<and> fits_int (x + 1) \<and> fits_int (x + w) \<and> fits_int (x + w - 2))"

section \<open>Configuration and loading\<close>

datatype model_format = MF_darknet | MF_onnx

record yolo_config =
  yc_weights :: string
  yc_config :: string
  yc_names :: string
  yc_input_size :: int
  yc_confidence_threshold :: u32
  yc_nms_threshold :: u32
  yc_async :: bool
  yc_detect_every :: int
  yc_frame_period_us :: int
  yc_threads :: int

text \<open>The two thresholds are the bit patterns of the float 0.4.\<close>

definition yolo_config_default :: yolo_config where
  "yolo_config_default = \<lparr>yc_weights = ''models/yolov5s.onnx'', yc_config = ''models/yolov4-tiny.cfg'',
     yc_names = ''models/coco.names'', yc_input_size = 640, yc_confidence_threshold = 0x3ECCCCCD,
     yc_nms_threshold = 0x3ECCCCCD, yc_async = True, yc_detect_every = 0, yc_frame_period_us = 33333,
     yc_threads = 1\<rparr>"

definition format_of :: "string \<Rightarrow> model_format" where
  "format_of path = (if length path > 5 \<and> drop (length path - 5) path = ''.onnx'' then MF_onnx else MF_darknet)"

text \<open>\<^verbatim>\<open>rfind\<close> of one character.\<close>

fun rfind :: "char \<Rightarrow> string \<Rightarrow> nat option" where
  "rfind c [] = None"
| "rfind c (x # xs) = (case rfind c xs of Some i \<Rightarrow> Some (Suc i)
     | None \<Rightarrow> if x = c then Some 0 else None)"

definition derive_files :: "yolo_config \<Rightarrow> yolo_config" where
  "derive_files cfg =
     (if format_of (yc_weights cfg) \<noteq> MF_darknet then cfg
      else let cfg1 = (case rfind (CHR ''.'') (yc_weights cfg) of
                None \<Rightarrow> cfg
              | Some ext \<Rightarrow>
                  if take 4 (drop ext (yc_weights cfg)) = ''.cfg''
                  then cfg\<lparr>yc_config := yc_weights cfg, yc_weights := take ext (yc_weights cfg) @ ''.weights''\<rparr>
                  else cfg\<lparr>yc_config := take ext (yc_weights cfg) @ ''.cfg''\<rparr>)
           in if yc_input_size cfg1 = yc_input_size yolo_config_default
              then cfg1\<lparr>yc_input_size := 416\<rparr> else cfg1)"

text \<open>The outcome of reading a model: an exception, an empty network, or a network.\<close>

datatype 'n model_read = Read_throws | Read_empty | Read_net 'n

record detection =
  de_class_id :: int
  de_confidence :: u32
  de_x :: int
  de_y :: int
  de_w :: int
  de_h :: int
  de_label :: string

record 'n yolo =
  yo_cfg :: yolo_config
  yo_format :: model_format
  yo_net :: 'n
  yo_classes :: "string list"
  yo_last :: "detection list"
  yo_inference_us :: int
  yo_frame :: u64

text \<open>
  \<open>read_names\<close> gives the lines of the class file if it opens; \<open>read_onnx\<close> and \<open>read_darknet\<close> are
  OpenCV's readers.
\<close>

definition yolo_create ::
  "(string \<Rightarrow> string list option) \<Rightarrow> (string \<Rightarrow> 'n model_read) \<Rightarrow> (string \<Rightarrow> string \<Rightarrow> 'n model_read) \<Rightarrow>
   yolo_config \<Rightarrow> 'n yolo expected" where
  "yolo_create read_names read_onnx read_darknet cfg0 =
     (let fmt = format_of (yc_weights cfg0); cfg = derive_files cfg0
      in case read_names (yc_names cfg) of
           None \<Rightarrow> fail io ''yolo: cannot read the class names''
         | Some lines \<Rightarrow>
             (case (if fmt = MF_onnx then read_onnx (yc_weights cfg)
                    else read_darknet (yc_config cfg) (yc_weights cfg)) of
                Read_throws \<Rightarrow> fail io ''yolo: cannot read the model''
              | Read_empty \<Rightarrow> fail io ''yolo: model loaded empty''
              | Read_net n \<Rightarrow> Inr \<lparr>yo_cfg = cfg, yo_format = fmt, yo_net = n,
                    yo_classes = filter (\<lambda>l. l \<noteq> []) lines, yo_last = [], yo_inference_us = 0, yo_frame = 0\<rparr>))"

section \<open>Decoding\<close>

text \<open>
  OpenCV as the detector calls it, a parameter: a network's own detection (\<open>dn_detect\<close>: identifiers,
  scores, boxes), its raw output as rows (\<open>dn_forward\<close>), the position and value of a maximum
  (\<open>dn_max_loc\<close>, on floats, so its double is a float exactly), suppression (\<open>dn_nms\<close>: the positions
  kept) and the measured time in microseconds. \<open>None\<close> is a thrown \<^verbatim>\<open>cv::Exception\<close>.
\<close>

type_synonym box = "int \<times> int \<times> int \<times> int"

record 'n dnn =
  dn_detect :: "'n \<Rightarrow> u8 list \<Rightarrow> int \<Rightarrow> int \<Rightarrow> int \<Rightarrow> u32 \<Rightarrow> u32 \<Rightarrow> (int list \<times> u32 list \<times> box list) option"
  dn_forward :: "'n \<Rightarrow> u8 list \<Rightarrow> int \<Rightarrow> int \<Rightarrow> int \<Rightarrow> u32 list list option"
  dn_max_loc :: "u32 list \<Rightarrow> (nat \<times> u32) option"
  dn_nms :: "box list \<Rightarrow> u32 list \<Rightarrow> u32 \<Rightarrow> u32 \<Rightarrow> nat list option"
  dn_elapsed :: "'n \<Rightarrow> u8 list \<Rightarrow> int"

text \<open>What running code can come to: a value, an exception, or no defined behaviour.\<close>

datatype 'a outcome = Value 'a | Throws | Undefined

definition int_box :: "u32 \<Rightarrow> u32 \<Rightarrow> u32 \<Rightarrow> u32 \<Rightarrow> box option" where
  "int_box x y w h =
     (case (f32_to_int x, f32_to_int y, f32_to_int w, f32_to_int h) of
        (Some bx, Some by', Some bw, Some bh) \<Rightarrow> Some (bx, by', bw, bh)
      | _ \<Rightarrow> None)"

text \<open>One row of the output; \<open>Value None\<close> is \<^verbatim>\<open>continue\<close>.\<close>

definition decode_row ::
  "(u32 list \<Rightarrow> (nat \<times> u32) option) \<Rightarrow> u32 \<Rightarrow> u32 \<Rightarrow> u32 \<Rightarrow> u32 list \<Rightarrow> (int \<times> u32 \<times> box) option outcome" where
  "decode_row max_loc threshold sx sy p =
     (if length p < 5 then Undefined
      else let objectness = p ! 4
      in if f32_less objectness threshold then Value None
         else case max_loc (drop 5 p) of
           None \<Rightarrow> Throws
         | Some (best, best_score) \<Rightarrow>
           let confidence = f32_mul best_score objectness
           in if f32_less confidence threshold then Value None
              else let cx = f32_mul (p ! 0) sx; cy = f32_mul (p ! 1) sy;
                       bw = f32_mul (p ! 2) sx; bh = f32_mul (p ! 3) sy; two = f32_of_int 2
                   in (case int_box (f32_sub cx (f32_div bw two)) (f32_sub cy (f32_div bh two)) bw bh of
                         None \<Rightarrow> Undefined
                       | Some b \<Rightarrow> Value (Some (int best, confidence, b))))"

fun decode_rows ::
  "(u32 list \<Rightarrow> (nat \<times> u32) option) \<Rightarrow> u32 \<Rightarrow> u32 \<Rightarrow> u32 \<Rightarrow> u32 list list \<Rightarrow> (int \<times> u32 \<times> box) list outcome" where
  "decode_rows max_loc threshold sx sy [] = Value []"
| "decode_rows max_loc threshold sx sy (p # ps) =
     (case decode_row max_loc threshold sx sy p of
        Throws \<Rightarrow> Throws
      | Undefined \<Rightarrow> Undefined
      | Value r \<Rightarrow>
          (case decode_rows max_loc threshold sx sy ps of
             Value rs \<Rightarrow> Value (case r of None \<Rightarrow> rs | Some d \<Rightarrow> d # rs)
           | o' \<Rightarrow> o'))"

definition decode_v5 ::
  "(u32 list \<Rightarrow> (nat \<times> u32) option) \<Rightarrow> yolo_config \<Rightarrow> u32 list list \<Rightarrow> int \<Rightarrow> int \<Rightarrow> (int \<times> u32 \<times> box) list outcome" where
  "decode_v5 max_loc cfg rows img_w img_h =
     (let sx = f32_div (f32_of_int img_w) (f32_of_int (yc_input_size cfg));
          sy = f32_div (f32_of_int img_h) (f32_of_int (yc_input_size cfg))
      in decode_rows max_loc (yc_confidence_threshold cfg) sx sy rows)"

text \<open>\<open>gather\<close> is the loop over \<^verbatim>\<open>keep\<close>; a position outside the vector is undefined.\<close>

definition gather :: "'a list \<Rightarrow> nat list \<Rightarrow> 'a list option" where
  "gather xs ks = (if \<forall>k \<in> set ks. k < length xs then Some (map (\<lambda>k. xs ! k) ks) else None)"

text \<open>The identifiers, scores and boxes of one inference.\<close>

definition infer ::
  "'n dnn \<Rightarrow> 'n yolo \<Rightarrow> u8 list \<Rightarrow> int \<Rightarrow> int \<Rightarrow> (int list \<times> u32 list \<times> box list) outcome" where
  "infer dn yo luma w h =
     (let cfg = yo_cfg yo
      in if yo_format yo = MF_darknet
         then (case dn_detect dn (yo_net yo) luma w h (yc_input_size cfg)
                      (yc_confidence_threshold cfg) (yc_nms_threshold cfg) of
                 None \<Rightarrow> Throws | Some r \<Rightarrow> Value r)
         else (case dn_forward dn (yo_net yo) luma w h (yc_input_size cfg) of
                 None \<Rightarrow> Throws
               | Some rows \<Rightarrow>
                  (case decode_v5 (dn_max_loc dn) cfg rows w h of
                     Throws \<Rightarrow> Throws
                   | Undefined \<Rightarrow> Undefined
                   | Value raw \<Rightarrow>
                       (case dn_nms dn (map (snd \<circ> snd) raw) (map (fst \<circ> snd) raw)
                               (yc_confidence_threshold cfg) (yc_nms_threshold cfg) of
                          None \<Rightarrow> Throws
                        | Some keep \<Rightarrow>
                            (case gather raw keep of
                               None \<Rightarrow> Undefined
                             | Some found \<Rightarrow>
                                 Value (map fst found, map (fst \<circ> snd) found, map (snd \<circ> snd) found))))))"

definition label_of :: "string list \<Rightarrow> int \<Rightarrow> string" where
  "label_of classes i = (let k = unat (word_of_int i :: u64) in if k < length classes then classes ! k else ''?'')"

text \<open>\<open>None\<close> is undefined behaviour; an exception leaves the last result in place.\<close>

definition detect :: "'n dnn \<Rightarrow> u8 list \<Rightarrow> int \<Rightarrow> int \<Rightarrow> 'n yolo \<Rightarrow> 'n yolo option" where
  "detect dn luma w h yo =
     (case infer dn yo luma w h of
        Throws \<Rightarrow> Some yo
      | Undefined \<Rightarrow> None
      | Value (ids, scores, boxes) \<Rightarrow>
          let n = min (length ids) (length boxes)
          in if length scores < n then None
             else Some (yo\<lparr>yo_last := map (\<lambda>i. case boxes ! i of (bx, by', bw, bh) \<Rightarrow>
                    \<lparr>de_class_id = ids ! i, de_confidence = scores ! i, de_x = bx, de_y = by', de_w = bw,
                     de_h = bh, de_label = label_of (yo_classes yo) (ids ! i)\<rparr>) [0..<n],
                  yo_inference_us := dn_elapsed dn (yo_net yo) luma\<rparr>))"

text \<open>What the rest of the service reads of the detector.\<close>

definition yolo_last :: "'n yolo \<Rightarrow> detection list" where
  [simp]: "yolo_last yo = yo_last yo"

definition yolo_last_inference :: "'n yolo \<Rightarrow> int" where
  [simp]: "yolo_last_inference yo = yo_inference_us yo"

definition yolo_model :: "'n yolo \<Rightarrow> string" where
  [simp]: "yolo_model yo = yc_weights (yo_cfg yo)"

section \<open>Pacing\<close>

text \<open>
  \<^verbatim>\<open>stride()\<close>; \<open>None\<close> is the division by a zero frame period. The result is narrowed to
  \<^verbatim>\<open>int\<close>.
\<close>

definition yolo_stride :: "yolo_config \<Rightarrow> int \<Rightarrow> int option" where
  "yolo_stride cfg us =
     (if yc_detect_every cfg > 0 then Some (yc_detect_every cfg)
      else if us \<le> 0 then Some 1
      else let period = yc_frame_period_us cfg
           in if period = 0 then None
              else Some (sint (word_of_int (max 1 ((us + period - 1) div period)) :: u32)))"

section \<open>The mailbox\<close>

text \<open>
  The streaming thread offers frames, the worker takes one, runs the detector and releases the slot.
  A step is one critical section or the worker's computation between two of them. \<open>mb_accepted\<close> and
  \<open>mb_processed\<close> record, for the statements, what entered the slot and what the worker finished.
\<close>

record mailbox =
  mb_pixels :: "u8 list"
  mb_w :: int
  mb_h :: int
  mb_pending :: bool
  mb_worker :: bool
  mb_taken :: "(u8 list \<times> int \<times> int) option"
  mb_stop :: bool
  mb_exited :: bool
  mb_accepted :: "(u8 list \<times> int \<times> int) list"
  mb_processed :: "(u8 list \<times> int \<times> int) list"

definition mailbox_init :: mailbox where
  "mailbox_init = \<lparr>mb_pixels = [], mb_w = 0, mb_h = 0, mb_pending = False, mb_worker = False, mb_taken = None, mb_stop = False,
     mb_exited = False, mb_accepted = [], mb_processed = []\<rparr>"

text \<open>The luma plane of a frame, its rows without the padding between them.\<close>

definition copy_luma :: "u8 list \<Rightarrow> nat \<Rightarrow> nat \<Rightarrow> nat \<Rightarrow> u8 list" where
  "copy_luma bytes stride w h = concat (map (\<lambda>row. take w (drop (row * stride) bytes)) [0..<h])"

text \<open>\<^verbatim>\<open>vector::max_size\<close> of bytes, and \<^verbatim>\<open>resize\<close>, which keeps what fits and fills with zeros.\<close>

definition vector_max :: nat where
  "vector_max = 2 ^ 63 - 1"

definition resized :: "nat \<Rightarrow> u8 list \<Rightarrow> u8 list" where
  "resized n xs = take n xs @ replicate (n - length xs) 0"

text \<open>The loop of \<^verbatim>\<open>memcpy\<close>: row after row into the mailbox.\<close>

definition copy_rows :: "u8 list \<Rightarrow> nat \<Rightarrow> nat \<Rightarrow> nat \<Rightarrow> u8 list \<Rightarrow> u8 list" where
  "copy_rows bytes stride w h pix =
     fold (\<lambda>row p. take (row * w) p @ take w (drop (row * stride) bytes) @ drop (row * w + w) p) [0..<h] pix"

text \<open>The worker thread is created by the first frame offered. \<open>got_lock\<close>: whether \<^verbatim>\<open>try_lock\<close> succeeded.\<close>

definition start_worker :: "mailbox \<Rightarrow> mailbox" where
  "start_worker m = m\<lparr>mb_worker := True\<rparr>"

text \<open>
  The sizes are converted to \<^verbatim>\<open>size_t\<close>, so a negative one becomes huge. \<open>None\<close>: \<^verbatim>\<open>resize\<close>
  throws in this \<^verbatim>\<open>noexcept\<close> function, or the last row lies past the frame's bytes.
\<close>

definition offer :: "bool \<Rightarrow> frame_view \<Rightarrow> int \<Rightarrow> int \<Rightarrow> mailbox \<Rightarrow> mailbox option" where
  "offer got_lock v w h m0 =
     (let m = (if mb_worker m0 then m0 else start_worker m0)
      in if \<not> got_lock \<or> mb_pending m then Some m
      else let cols = unat (word_of_int w :: u64);
               need = unat (word_of_int w * word_of_int h :: u64);
               stride = (if fv_stride v \<noteq> 0 then unat (fv_stride v) else cols)
           in if need > vector_max then None
              else if 0 < h \<and> nat (h - 1) * stride + cols > length (fv_data v) then None
              else let pix = copy_rows (fv_data v) stride cols (nat h) (resized need (mb_pixels m))
                   in Some (m\<lparr>mb_pixels := pix, mb_w := w, mb_h := h, mb_pending := True,
                         mb_accepted := mb_accepted m @ [(pix, w, h)]\<rparr>))"

definition worker_take :: "mailbox \<Rightarrow> mailbox" where
  "worker_take m =
     (if mb_stop m then m\<lparr>mb_exited := True\<rparr>
      else if \<not> mb_pending m then m
      else m\<lparr>mb_taken := Some (mb_pixels m, mb_w m, mb_h m)\<rparr>)"

definition worker_release :: "(u8 list \<times> int \<times> int) \<Rightarrow> mailbox \<Rightarrow> mailbox" where
  "worker_release f m = m\<lparr>mb_pending := False, mb_taken := None, mb_processed := mb_processed m @ [f]\<rparr>"

text \<open>Destruction: a stop request and a join, here with the worker between two turns.\<close>

definition stop_worker :: "mailbox \<Rightarrow> mailbox" where
  "stop_worker m = (if \<not> mb_worker m then m
     else (worker_take (m\<lparr>mb_stop := True\<rparr>))\<lparr>mb_worker := False\<rparr>)"

inductive mb_step :: "mailbox \<Rightarrow> mailbox \<Rightarrow> bool" where
  mb_offer: "offer got_lock v w h m = Some m' \<Longrightarrow> mb_step m m'"
| mb_take: "mb_worker m \<Longrightarrow> \<not> mb_exited m \<Longrightarrow> mb_taken m = None \<Longrightarrow> mb_step m (worker_take m)"
| mb_release: "mb_taken m = Some f \<Longrightarrow> mb_step m (worker_release f m)"
| mb_stop: "mb_worker m \<Longrightarrow> mb_step m (m\<lparr>mb_stop := True\<rparr>)"

inductive mb_reach :: "mailbox \<Rightarrow> bool" where
  mb_start: "mb_reach mailbox_init"
| mb_next: "mb_reach m \<Longrightarrow> mb_step m m' \<Longrightarrow> mb_reach m'"

section \<open>One frame\<close>

text \<open>The boxes of \<open>ds\<close>, drawn one after the other into the frame that goes on.\<close>

definition draw_boxes :: "frame_view \<Rightarrow> writable_frame \<Rightarrow> detection list \<Rightarrow> u8 list" where
  "draw_boxes inp out ds = fold (\<lambda>d pl. draw_rect pl
     (if wf_stride out \<noteq> 0 then unat (wf_stride out) else unat (fv_width inp))
     (unat (fv_height inp)) (de_x d) (de_y d) (de_w d) (de_h d)) ds (wf_data out)"

text \<open>The luma plane handed to OpenCV lies inside the frame's bytes.\<close>

definition luma_inside :: "frame_view \<Rightarrow> int \<Rightarrow> int \<Rightarrow> bool" where
  "luma_inside v w h \<longleftrightarrow> (0 < w \<and> 0 < h \<longrightarrow>
     nat (h - 1) * (if fv_stride v \<noteq> 0 then unat (fv_stride v) else nat w) + nat w \<le> length (fv_data v))"

definition drawable :: "detection \<Rightarrow> bool" where
  "drawable d \<longleftrightarrow> rect_defined (de_x d) (de_y d) (de_w d) (de_h d)"

text \<open>
  \<^verbatim>\<open>process\<close> with inference on the streaming thread or in the mailbox; the draw uses the detections
  of the latest finished inference. \<open>None\<close> as in \<open>yolo_stride\<close>, \<open>offer\<close> and \<open>detect\<close>, or when OpenCV is
  given a plane that ends past the frame, or a box is drawn whose sums do not fit.
\<close>

definition yolo_process ::
  "'n dnn \<Rightarrow> bool \<Rightarrow> frame_view \<Rightarrow> writable_frame \<Rightarrow> 'n yolo \<times> mailbox \<Rightarrow>
   (process_result \<times> writable_frame \<times> 'n yolo \<times> mailbox) option" where
  "yolo_process dn got_lock inp out st =
     (case st of (yo, mb) \<Rightarrow>
      if fv_data inp = [] \<or> wf_data out = [] then Some (PR_error, out, yo, mb)
      else
        let w = sint (fv_width inp); h = sint (fv_height inp);
            yo1 = yo\<lparr>yo_frame := yo_frame yo + 1\<rparr>;
            next = (if yc_async (yo_cfg yo1) then map_option (\<lambda>mb1. (yo1, mb1)) (offer got_lock inp w h mb)
                    else case yolo_stride (yo_cfg yo1) (yo_inference_us yo1) of
                           None \<Rightarrow> None
                         | Some n \<Rightarrow>
                             if n = 0 then None
                             else if yo_frame yo1 mod word_of_int n = 0
                             then if \<not> luma_inside inp w h then None
                                  else map_option (\<lambda>yo2. (yo2, mb)) (detect dn (copy_luma (fv_data inp)
                                    (if fv_stride inp \<noteq> 0 then unat (fv_stride inp) else nat w) (nat w) (nat h)) w h yo1)
                             else Some (yo1, mb))
        in case next of
             None \<Rightarrow> None
           | Some (yo2, mb2) \<Rightarrow>
               if \<forall>d \<in> set (yo_last yo2). drawable d
               then Some (PR_kept, out\<lparr>wf_data := draw_boxes inp out (yo_last yo2)\<rparr>, yo2, mb2)
               else None)"

section \<open>The slot takes the whole plane\<close>

lemma copy_rows_all:
  assumes "length pix = h * w" and "0 < h \<Longrightarrow> (h - 1) * stride + w \<le> length bytes"
  shows "copy_rows bytes stride w h pix = copy_luma bytes stride w h"
proof -
  have "copy_rows bytes stride w k pix = copy_luma bytes stride w k @ drop (k * w) pix
      \<and> length (copy_luma bytes stride w k) = k * w" if "k \<le> h" for k
    using that
  proof (induction k)
    case 0
    then show ?case by (simp add: copy_rows_def copy_luma_def)
  next
    case (Suc k)
    have "k * stride + w \<le> length bytes"
    proof -
      have "k * stride \<le> (h - 1) * stride" using Suc.prems by (intro mult_le_mono) auto
      then show ?thesis using assms(2) Suc.prems by linarith
    qed
    then have l: "length (take w (drop (k * stride) bytes)) = w" by simp
    have r: "copy_rows bytes stride w (Suc k) pix = (let p = copy_rows bytes stride w k pix
        in take (k * w) p @ take w (drop (k * stride) bytes) @ drop (k * w + w) p)"
      by (simp add: copy_rows_def Let_def)
    have c: "copy_luma bytes stride w (Suc k) = copy_luma bytes stride w k @ take w (drop (k * stride) bytes)"
      by (simp add: copy_luma_def)
    show ?case using Suc l unfolding r c by (simp add: Let_def add.commute)
  qed
  from this [of h] show ?thesis using assms(1) by simp
qed

lemma copy_luma_dense: "h * w \<le> length bytes \<Longrightarrow> copy_luma bytes w w h = take (h * w) bytes"
proof (induction h)
  case (Suc h)
  have c: "copy_luma bytes w w (Suc h) = copy_luma bytes w w h @ take w (drop (h * w) bytes)"
    by (simp add: copy_luma_def)
  have "Suc h * w = h * w + w" by simp
  then show ?case using Suc unfolding c by (simp only: take_add)
qed (simp add: copy_luma_def)

lemma length_resized [simp]: "length (resized n xs) = n"
  by (simp add: resized_def)

text \<open>A frame that holds its plane, offered as the pipeline gives it: the rows lie one behind the other.\<close>

lemma offer_whole:
  assumes "0 < h" and "0 \<le> w" and "w < 2 ^ 31" and "h < 2 ^ 31"
    and "(if fv_stride v \<noteq> 0 then unat (fv_stride v) else nat w) = nat w" and "nat h * nat w \<le> length (fv_data v)"
  shows "offer got_lock v w h m =
     (let m1 = (if mb_worker m then m else start_worker m); pix = take (nat h * nat w) (fv_data v)
      in Some (if \<not> got_lock \<or> mb_pending m1 then m1
               else m1\<lparr>mb_pixels := pix, mb_w := w, mb_h := h, mb_pending := True,
                       mb_accepted := mb_accepted m1 @ [(pix, w, h)]\<rparr>))"
proof -
  have p: "nat w * nat h \<le> 2 ^ 31 * 2 ^ 31" using assms(1-4) by (intro mult_le_mono) auto
  have cols: "unat (word_of_int w :: u64) = nat w"
    using assms(2,3) by (simp add: unsigned_of_int take_bit_int_eq_self)
  have "word_of_int w * word_of_int h = (word_of_int (w * h) :: u64)" by simp
  moreover have "unat (word_of_int (w * h) :: u64) = nat (w * h)"
  proof -
    have "w * h \<le> 2 ^ 31 * 2 ^ 31" using assms(1-4) by (intro mult_mono) auto
    then show ?thesis using assms(1,2) by (subst unsigned_of_int) (simp add: take_bit_int_eq_self)
  qed
  ultimately have need: "unat (word_of_int w * word_of_int h :: u64) = nat h * nat w"
    using assms(1,2) by (simp add: nat_mult_distrib mult.commute)
  have nh: "nat h = Suc (nat (h - 1))" using assms(1) by simp
  have last: "nat (h - 1) * nat w + nat w \<le> length (fv_data v)" using assms(6) unfolding nh by simp
  have fits: "\<not> nat h * nat w > vector_max" using p by (simp add: vector_max_def mult.commute)
  have rows: "copy_rows (fv_data v) (nat w) (nat w) (nat h) (resized (nat h * nat w) q) = take (nat h * nat w) (fv_data v)" for q
  proof -
    have "copy_rows (fv_data v) (nat w) (nat w) (nat h) (resized (nat h * nat w) q) = copy_luma (fv_data v) (nat w) (nat w) (nat h)"
      by (rule copy_rows_all) (use last nh in simp_all)
    then show ?thesis using copy_luma_dense [OF assms(6)] by simp
  qed
  show ?thesis
    unfolding offer_def Let_def cols need assms(5) rows using fits last by auto
qed

text \<open>
  What the copy does not check: a frame shorter than its geometry says is read past its end, and a width
  that is negative as an \<^verbatim>\<open>int\<close> asks for a vector no vector can be.
\<close>

lemma offer_short_frame:
  assumes "0 < h" and "0 < w" and "w < 2 ^ 31" and "h < 2 ^ 31" and "fv_stride v = 0 \<or> int (unat (fv_stride v)) = w"
    and "int (length (fv_data v)) < w * h" and "\<not> mb_pending m"
  shows "offer True v w h m = None"
proof -
  have cols: "unat (word_of_int w :: u64) = nat w"
    using assms(2,3) by (simp add: unsigned_of_int take_bit_int_eq_self)
  have stride: "(if fv_stride v \<noteq> 0 then unat (fv_stride v) else nat w) = nat w" using assms(5) by auto
  have "w * h = int (nat (h - 1) * nat w + nat w)" using assms(1,2) by (simp add: algebra_simps)
  then have "nat (h - 1) * nat w + nat w > length (fv_data v)" using assms(6) by linarith
  then show ?thesis using assms(1,7) by (simp add: offer_def Let_def cols stride start_worker_def)
qed

lemma offer_negative_width: "\<not> mb_pending m \<Longrightarrow> offer True v (- 1) 1 m = None"
  by (simp add: offer_def Let_def start_worker_def vector_max_def unsigned_minus_1_eq_mask mask_eq_exp_minus_1)

section \<open>Lemmas on drawing\<close>

definition rect_points :: "int \<Rightarrow> int \<Rightarrow> int \<Rightarrow> int \<Rightarrow> (int \<times> int) list" where
  "rect_points x y w h =
     concat (map (\<lambda>i. concat (map (\<lambda>k. [(x + i, y + k), (x + i, y + h - 1 - k)]) [0..rect_thickness - 1])) [0..w - 1])
     @ concat (map (\<lambda>j. concat (map (\<lambda>k. [(x + k, y + j), (x + w - 1 - k, y + j)]) [0..rect_thickness - 1])) [0..h - 1])"

lemma fold_concat_map: "fold f (concat (map g xs)) = fold (\<lambda>x. fold f (g x)) xs"
  by (rule ext, rename_tac a, induct xs) (simp_all add: fold_append)

lemma draw_rect_points:
  "draw_rect plane stride height x y w h = fold (\<lambda>(px, py). put stride height px py) (rect_points x y w h) plane"
  by (simp add: draw_rect_def rect_points_def Let_def fold_append fold_concat_map comp_def)

definition hits :: "nat \<Rightarrow> nat \<Rightarrow> nat \<Rightarrow> int \<times> int \<Rightarrow> bool" where
  "hits stride height i q \<longleftrightarrow> 0 \<le> fst q \<and> 0 \<le> snd q \<and> nat (fst q) < stride \<and> nat (snd q) < height
     \<and> nat (snd q) * stride + nat (fst q) = i"

lemma length_put [simp]: "length (put stride height px py plane) = length plane"
  by (simp add: put_def Let_def)

lemma put_nth:
  "i < length plane \<Longrightarrow> put stride height px py plane ! i =
     (if hits stride height i (px, py) then kBoxLuma else plane ! i)"
  by (auto simp: put_def Let_def hits_def)

lemma fold_put_nth:
  "i < length plane \<Longrightarrow>
   length (fold (\<lambda>(px, py). put stride height px py) pts plane) = length plane
   \<and> fold (\<lambda>(px, py). put stride height px py) pts plane ! i
     = (if \<exists>q \<in> set pts. hits stride height i q then kBoxLuma else plane ! i)"
proof (induction pts arbitrary: plane)
  case (Cons q pts)
  obtain px py where q: "q = (px, py)" by fastforce
  show ?case using Cons.IH [of "put stride height px py plane"] Cons.prems put_nth [OF Cons.prems, of stride height px py]
    by (auto simp: q)
qed simp

definition outline :: "int \<Rightarrow> int \<Rightarrow> int \<Rightarrow> int \<Rightarrow> int \<Rightarrow> int \<Rightarrow> bool" where
  "outline x y w h px py \<longleftrightarrow> x \<le> px \<and> px < x + w \<and> y \<le> py \<and> py < y + h
     \<and> (px < x + 2 \<or> px \<ge> x + w - 2 \<or> py < y + 2 \<or> py \<ge> y + h - 2)"

lemma rect_points_outline:
  assumes "2 \<le> w" and "2 \<le> h"
  shows "(px, py) \<in> set (rect_points x y w h) \<longleftrightarrow> outline x y w h px py"
proof -
  have two: "[0..rect_thickness - 1] = [0, 1]" by (simp add: rect_thickness_def upto.simps)
  have m: "(px, py) \<in> set (rect_points x y w h) \<longleftrightarrow>
     (\<exists>i. 0 \<le> i \<and> i \<le> w - 1 \<and> px = x + i \<and> (py = y \<or> py = y + h - 1 \<or> py = y + 1 \<or> py = y + h - 2))
     \<or> (\<exists>j. 0 \<le> j \<and> j \<le> h - 1 \<and> py = y + j \<and> (px = x \<or> px = x + w - 1 \<or> px = x + 1 \<or> px = x + w - 2))"
    by (auto simp: rect_points_def two)
  have a: "(\<exists>i. 0 \<le> i \<and> i \<le> w - 1 \<and> px = x + i \<and> P) \<longleftrightarrow> x \<le> px \<and> px < x + w \<and> P" for P
    by (auto intro: exI [of _ "px - x"])
  have b: "(\<exists>j. 0 \<le> j \<and> j \<le> h - 1 \<and> py = y + j \<and> P) \<longleftrightarrow> y \<le> py \<and> py < y + h \<and> P" for P
    by (auto intro: exI [of _ "py - y"])
  show ?thesis unfolding m a b outline_def using assms by auto
qed

lemma hits_divmod:
  "(\<exists>q \<in> S. hits stride height i q) \<longleftrightarrow>
   (0 < stride \<and> i div stride < height \<and> (int (i mod stride), int (i div stride)) \<in> S)"
proof
  assume "\<exists>q \<in> S. hits stride height i q"
  then obtain q where q: "q \<in> S" "hits stride height i q" by blast
  then have "0 < stride" "nat (snd q) = i div stride" "nat (fst q) = i mod stride"
    by (auto simp: hits_def)
  moreover from this q(2) have "q = (int (i mod stride), int (i div stride))"
    by (metis hits_def nat_0_le prod.collapse)
  ultimately show "0 < stride \<and> i div stride < height \<and> (int (i mod stride), int (i div stride)) \<in> S"
    using q by (auto simp: hits_def)
next
  assume a: "0 < stride \<and> i div stride < height \<and> (int (i mod stride), int (i div stride)) \<in> S"
  then have "hits stride height i (int (i mod stride), int (i div stride))"
    by (simp add: hits_def)
  then show "\<exists>q \<in> S. hits stride height i q" using a by blast
qed

section \<open>What a decoded detection is\<close>

text \<open>
  A row is kept with an identifier and a score; one axis of its box, from the row's centre and extent
  in the network's input, scaled to the image and cut to integers; the entry of a row; and a row whose
  entry does not exist, because it is too short or a coordinate has no integer value.
\<close>

definition row_kept :: "(u32 list \<Rightarrow> (nat \<times> u32) option) \<Rightarrow> yolo_config \<Rightarrow> u32 list \<Rightarrow> int \<Rightarrow> u32 \<Rightarrow> bool" where
  "row_kept max_loc cfg p ident sc \<longleftrightarrow> 5 \<le> length p
     \<and> (\<exists>best best_score. max_loc (drop 5 p) = Some (best, best_score) \<and> ident = int best
          \<and> sc = f32_mul best_score (p ! 4))
     \<and> \<not> f32_less (p ! 4) (yc_confidence_threshold cfg) \<and> \<not> f32_less sc (yc_confidence_threshold cfg)"

definition axis_entry :: "u32 \<Rightarrow> u32 \<Rightarrow> int \<Rightarrow> int \<Rightarrow> int \<Rightarrow> int \<Rightarrow> bool" where
  "axis_entry centre extent img input lo len \<longleftrightarrow>
     (let scale = f32_div (f32_of_int img) (f32_of_int input); e = f32_mul extent scale
      in f32_to_int e = Some len
       \<and> f32_to_int (f32_sub (f32_mul centre scale) (f32_div e (f32_of_int 2))) = Some lo)"

definition row_entry :: "(u32 list \<Rightarrow> (nat \<times> u32) option) \<Rightarrow> yolo_config \<Rightarrow> int \<Rightarrow> int \<Rightarrow> u32 list \<Rightarrow> int \<times> u32 \<times> box \<Rightarrow> bool" where
  "row_entry max_loc cfg w h p e \<longleftrightarrow>
     (case e of (ident, sc, bx, by', bw, bh) \<Rightarrow> row_kept max_loc cfg p ident sc
        \<and> axis_entry (p ! 0) (p ! 2) w (yc_input_size cfg) bx bw
        \<and> axis_entry (p ! 1) (p ! 3) h (yc_input_size cfg) by' bh)"

definition row_passes :: "(u32 list \<Rightarrow> (nat \<times> u32) option) \<Rightarrow> yolo_config \<Rightarrow> u32 list \<Rightarrow> bool" where
  "row_passes max_loc cfg p \<longleftrightarrow> (\<exists>ident sc. row_kept max_loc cfg p ident sc)"

definition row_undefined :: "(u32 list \<Rightarrow> (nat \<times> u32) option) \<Rightarrow> yolo_config \<Rightarrow> int \<Rightarrow> int \<Rightarrow> u32 list \<Rightarrow> bool" where
  "row_undefined max_loc cfg w h p \<longleftrightarrow> length p < 5
     \<or> (row_passes max_loc cfg p \<and> (\<forall>e. \<not> row_entry max_loc cfg w h p e))"

lemma int_box_axes:
  "int_box x y w h = Some (a, b, c, d) \<longleftrightarrow>
     f32_to_int x = Some a \<and> f32_to_int y = Some b \<and> f32_to_int w = Some c \<and> f32_to_int h = Some d"
  by (auto simp: int_box_def split: option.splits)

definition sxy :: "yolo_config \<Rightarrow> int \<Rightarrow> u32" where
  "sxy cfg img = f32_div (f32_of_int img) (f32_of_int (yc_input_size cfg))"

abbreviation decode_of :: "(u32 list \<Rightarrow> (nat \<times> u32) option) \<Rightarrow> yolo_config \<Rightarrow> int \<Rightarrow> int \<Rightarrow> u32 list \<Rightarrow> (int \<times> u32 \<times> box) option outcome" where
  "decode_of max_loc cfg w h \<equiv> decode_row max_loc (yc_confidence_threshold cfg) (sxy cfg w) (sxy cfg h)"

text \<open>A row decodes to its entry when it has one, and is undefined exactly when it ought to have one.\<close>

lemma decode_row_entry:
  "decode_of max_loc cfg w h p = Value (Some e) \<Longrightarrow> row_entry max_loc cfg w h p e"
  by (cases e) (auto simp: decode_row_def row_entry_def row_kept_def axis_entry_def sxy_def Let_def int_box_axes
      split: if_splits option.splits)

lemma decode_row_undefined:
  assumes "decode_of max_loc cfg w h p = Undefined"
  shows "row_undefined max_loc cfg w h p"
proof (cases "length p < 5")
  case False
  from assms False obtain best best_score where m: "max_loc (drop 5 p) = Some (best, best_score)"
    and t: "\<not> f32_less (p ! 4) (yc_confidence_threshold cfg)"
      "\<not> f32_less (f32_mul best_score (p ! 4)) (yc_confidence_threshold cfg)"
    and b: "int_box (f32_sub (f32_mul (p ! 0) (sxy cfg w)) (f32_div (f32_mul (p ! 2) (sxy cfg w)) (f32_of_int 2)))
       (f32_sub (f32_mul (p ! 1) (sxy cfg h)) (f32_div (f32_mul (p ! 3) (sxy cfg h)) (f32_of_int 2)))
       (f32_mul (p ! 2) (sxy cfg w)) (f32_mul (p ! 3) (sxy cfg h)) = None"
    by (auto simp: decode_row_def Let_def split: if_splits option.splits)
  have "\<not> row_entry max_loc cfg w h p e" for e
  proof
    assume "row_entry max_loc cfg w h p e"
    then obtain bx by' bw bh where
      "axis_entry (p ! 0) (p ! 2) w (yc_input_size cfg) bx bw" "axis_entry (p ! 1) (p ! 3) h (yc_input_size cfg) by' bh"
      by (cases e) (auto simp: row_entry_def)
    then show False using b by (simp add: int_box_def axis_entry_def sxy_def Let_def)
  qed
  moreover have "row_kept max_loc cfg p (int best) (f32_mul best_score (p ! 4))"
    using m t False by (simp add: row_kept_def)
  ultimately show ?thesis unfolding row_undefined_def row_passes_def by blast
qed (simp add: row_undefined_def)

lemma decode_row_skips: "decode_of max_loc cfg w h p = Value None \<Longrightarrow> \<not> row_passes max_loc cfg p"
  by (auto simp: decode_row_def row_passes_def row_kept_def Let_def split: if_splits option.splits)

lemma decode_rows_entries:
  "decode_rows max_loc (yc_confidence_threshold cfg) (sxy cfg w) (sxy cfg h) ps = Value raw \<Longrightarrow>
     list_all2 (row_entry max_loc cfg w h) (filter (row_passes max_loc cfg) ps) raw"
proof (induction ps arbitrary: raw)
  case (Cons p ps)
  then obtain r rs where r: "decode_of max_loc cfg w h p = Value r"
    "decode_rows max_loc (yc_confidence_threshold cfg) (sxy cfg w) (sxy cfg h) ps = Value rs"
    "raw = (case r of None \<Rightarrow> rs | Some d \<Rightarrow> d # rs)"
    by (auto split: outcome.splits)
  show ?case
  proof (cases r)
    case None
    then show ?thesis using r Cons.IH [OF r(2)] decode_row_skips [of max_loc cfg w h p] by simp
  next
    case (Some e)
    then have e: "row_entry max_loc cfg w h p e" using decode_row_entry r(1) by blast
    then have "row_passes max_loc cfg p" by (cases e) (auto simp: row_entry_def row_passes_def)
    then show ?thesis using e r(3) Some Cons.IH [OF r(2)] by simp
  qed
qed simp

lemma decode_rows_throws:
  "decode_rows max_loc t sx sy ps = Throws \<Longrightarrow> \<exists>p \<in> set ps. max_loc (drop 5 p) = None"
  by (induction ps) (auto simp: decode_row_def Let_def split: outcome.splits if_splits option.splits)

lemma decode_rows_undefined:
  "decode_rows max_loc (yc_confidence_threshold cfg) (sxy cfg w) (sxy cfg h) ps = Undefined \<Longrightarrow>
     \<exists>p \<in> set ps. row_undefined max_loc cfg w h p"
  by (induction ps) (auto split: outcome.splits dest: decode_row_undefined)

lemma gather_subset: "gather xs ks = Some ys \<Longrightarrow> set ys \<subseteq> set xs \<and> length ys = length ks"
  by (auto simp: gather_def split: if_splits)

lemma distinct_below: "distinct ks \<Longrightarrow> \<forall>k \<in> set ks. k < n \<Longrightarrow> length ks \<le> n"
  using card_mono [of "{..<n}" "set ks"] by (auto simp: distinct_card)

text \<open>\<^verbatim>\<open>NMSBoxes\<close> as documented: it returns positions of the boxes it was given, each at most once.\<close>

definition nms_documented :: "'n dnn \<Rightarrow> bool" where
  "nms_documented dn \<longleftrightarrow> (\<forall>bs ss t n ks. dn_nms dn bs ss t n = Some ks \<longrightarrow>
     distinct ks \<and> (\<forall>k \<in> set ks. k < length bs))"

lemma nms_inside:
  assumes "nms_documented dn" and "dn_nms dn (map (snd \<circ> snd) raw) ss t n = Some keep"
  shows "distinct keep" "\<forall>k \<in> set keep. k < length raw" "\<exists>found. gather raw keep = Some found"
proof -
  show k: "distinct keep" "\<forall>k \<in> set keep. k < length raw"
    using assms unfolding nms_documented_def by (metis length_map)+
  show "\<exists>found. gather raw keep = Some found" using k(2) by (simp add: gather_def)
qed

text \<open>Where OpenCV throws: running the network, looking for a maximum, or suppressing overlaps.\<close>

definition opencv_throws :: "'n dnn \<Rightarrow> 'n yolo \<Rightarrow> u8 list \<Rightarrow> int \<Rightarrow> int \<Rightarrow> bool" where
  "opencv_throws dn yo luma w h \<longleftrightarrow>
     (case dn_forward dn (yo_net yo) luma w h (yc_input_size (yo_cfg yo)) of
        None \<Rightarrow> True
      | Some rows \<Rightarrow> (\<exists>p \<in> set rows. dn_max_loc dn (drop 5 p) = None)
          \<or> (\<exists>bs ss. dn_nms dn bs ss (yc_confidence_threshold (yo_cfg yo)) (yc_nms_threshold (yo_cfg yo)) = None))"

definition entry_detection :: "string list \<Rightarrow> int \<times> u32 \<times> box \<Rightarrow> detection" where
  "entry_detection classes e =
     (case e of (ident, sc, bx, by', bw, bh) \<Rightarrow>
        \<lparr>de_class_id = ident, de_confidence = sc, de_x = bx, de_y = by', de_w = bw, de_h = bh,
         de_label = label_of classes ident\<rparr>)"

lemma infer_onnx:
  assumes "yo_format yo \<noteq> MF_darknet" and "nms_documented dn" and "infer dn yo luma w h = Value (ids, scores, boxes)"
  shows "\<exists>rows raw keep. dn_forward dn (yo_net yo) luma w h (yc_input_size (yo_cfg yo)) = Some rows
    \<and> list_all2 (row_entry (dn_max_loc dn) (yo_cfg yo) w h) (filter (row_passes (dn_max_loc dn) (yo_cfg yo)) rows) raw
    \<and> dn_nms dn (map (snd \<circ> snd) raw) (map (fst \<circ> snd) raw) (yc_confidence_threshold (yo_cfg yo))
        (yc_nms_threshold (yo_cfg yo)) = Some keep
    \<and> distinct keep \<and> (\<forall>k \<in> set keep. k < length raw)
    \<and> ids = map (\<lambda>k. fst (raw ! k)) keep \<and> scores = map (\<lambda>k. fst (snd (raw ! k))) keep
    \<and> boxes = map (\<lambda>k. snd (snd (raw ! k))) keep"
proof -
  from assms(1,3) obtain rows raw keep found where
    r: "dn_forward dn (yo_net yo) luma w h (yc_input_size (yo_cfg yo)) = Some rows"
    and d: "decode_v5 (dn_max_loc dn) (yo_cfg yo) rows w h = Value raw"
    and k: "dn_nms dn (map (snd \<circ> snd) raw) (map (fst \<circ> snd) raw) (yc_confidence_threshold (yo_cfg yo))
      (yc_nms_threshold (yo_cfg yo)) = Some keep"
    and g: "gather raw keep = Some found"
    and eq: "ids = map fst found" "scores = map (fst \<circ> snd) found" "boxes = map (snd \<circ> snd) found"
    by (auto simp: infer_def Let_def split: option.splits outcome.splits)
  have "list_all2 (row_entry (dn_max_loc dn) (yo_cfg yo) w h) (filter (row_passes (dn_max_loc dn) (yo_cfg yo)) rows) raw"
    by (rule decode_rows_entries) (use d in \<open>simp add: decode_v5_def sxy_def Let_def\<close>)
  moreover have "found = map (\<lambda>k. raw ! k) keep" using g by (simp add: gather_def split: if_splits)
  ultimately show ?thesis using r k nms_inside(1,2) [OF assms(2) k] eq by (auto simp: comp_def)
qed

lemma infer_onnx_throws:
  assumes "yo_format yo \<noteq> MF_darknet" and "infer dn yo luma w h = Throws"
  shows "opencv_throws dn yo luma w h"
  using assms decode_rows_throws
  by (fastforce simp: infer_def opencv_throws_def decode_v5_def Let_def split: option.splits outcome.splits)

lemma infer_onnx_undefined:
  assumes "yo_format yo \<noteq> MF_darknet" and "nms_documented dn" and "infer dn yo luma w h = Undefined"
  shows "\<exists>rows. dn_forward dn (yo_net yo) luma w h (yc_input_size (yo_cfg yo)) = Some rows
    \<and> (\<exists>p \<in> set rows. row_undefined (dn_max_loc dn) (yo_cfg yo) w h p)"
proof -
  from assms(1,3) obtain rows where
    r: "dn_forward dn (yo_net yo) luma w h (yc_input_size (yo_cfg yo)) = Some rows"
    and "decode_v5 (dn_max_loc dn) (yo_cfg yo) rows w h = Undefined"
    by (auto simp: infer_def Let_def split: option.splits outcome.splits dest!: nms_inside(3) [OF assms(2)])
  then have "\<exists>p \<in> set rows. row_undefined (dn_max_loc dn) (yo_cfg yo) w h p"
    using decode_rows_undefined [of "dn_max_loc dn" "yo_cfg yo" w h rows] by (simp add: decode_v5_def sxy_def Let_def)
  with r show ?thesis by blast
qed

text \<open>A candidate that is not a number is not below any threshold, so the row is kept.\<close>

lemma less_nan: "is_nan a \<Longrightarrow> \<not> f32_less a b"
  by (auto simp: is_nan_def f32_less_def split: fp.splits)

lemma is_nan_nan: "is_nan f32_nan"
  by (simp add: is_nan_def f32_nan_def decode_float_def decode_fp_def)

lemma mul_nan:
  assumes "is_nan b"
  shows "is_nan (f32_mul a b)"
proof -
  obtain s where "decode_float b = NaN s" using assms by (auto simp: is_nan_def split: fp.splits)
  then have "f32_mul a b = f32_nan" by (cases "decode_float a") (simp_all add: f32_mul_def)
  then show ?thesis by (simp add: is_nan_nan)
qed

lemma nan_row_not_skipped:
  assumes "5 \<le> length p" and "is_nan (p ! 4)" and "max_loc (drop 5 p) = Some best"
  shows "decode_row max_loc threshold sx sy p \<noteq> Value None"
  using assms less_nan [OF assms(2)] less_nan [OF mul_nan [OF assms(2)]]
  by (auto simp: decode_row_def Let_def split: prod.splits option.splits)

section \<open>Properties\<close>

text \<open>
  C26. Drawing a box at least two pixels wide and high changes exactly the bytes of its two-pixel
  outline that lie inside the frame, and sets them to white: no byte of the chroma rows behind the
  luma plane, no byte outside the buffer, and no pixel inside the box is touched, wherever the box lies.
\<close>

theorem draw_rect_exact:
  assumes "2 \<le> w" and "2 \<le> h" and "i < length plane"
  shows "length (draw_rect plane stride height x y w h) = length plane
    \<and> draw_rect plane stride height x y w h ! i =
      (if 0 < stride \<and> i div stride < height \<and> outline x y w h (int (i mod stride)) (int (i div stride))
       then 235 else plane ! i)"
  using fold_put_nth [OF assms(3), of stride height "rect_points x y w h"]
  unfolding draw_rect_points hits_divmod
  by (simp add: rect_points_outline [OF assms(1,2)] kBoxLuma_def)

theorem draw_rect_exact_witness:
  "draw_rect [1, 2, 3, 4, 5, 6] 3 2 1 (- 1) 5 3 = [1, 235, 235, 4, 235, 235]"
proof (rule nth_equalityI)
  show "length (draw_rect [1, 2, 3, 4, 5, 6] 3 2 1 (- 1) 5 3) = length [1, 235, 235, 4, 235, 235 :: u8]"
    using draw_rect_exact [of 5 3 0 "[1, 2, 3, 4, 5, 6]" 3 2 1 "- 1"] by simp
  fix i assume "i < length (draw_rect [1, 2, 3, 4, 5, 6] 3 2 1 (- 1) 5 3)"
  then have i: "i < 6" using draw_rect_exact [of 5 3 0 "[1, 2, 3, 4, 5, 6]" 3 2 1 "- 1"] by simp
  then have "i = 0 \<or> i = 1 \<or> i = 2 \<or> i = 3 \<or> i = 4 \<or> i = 5" by arith
  then show "draw_rect [1, 2, 3, 4, 5, 6] 3 2 1 (- 1) 5 3 ! i = [1, 235, 235, 4, 235, 235] ! i"
    using draw_rect_exact [of 5 3 i "[1, 2, 3, 4, 5, 6]" 3 2 1 "- 1"] i
    by (elim disjE) (simp_all add: outline_def)
qed

lemma rfind_none: "c \<notin> set xs \<Longrightarrow> rfind c xs = None"
  by (induction xs) auto

lemma rfind_append: "c \<notin> set suf \<Longrightarrow> rfind c (base @ c # suf) = Some (length base)"
  by (induction base) (simp_all add: rfind_none)

lemma format_darknet: "last suf \<noteq> CHR ''x'' \<Longrightarrow> suf \<noteq> [] \<Longrightarrow> format_of (base @ suf) = MF_darknet"
proof -
  assume a: "last suf \<noteq> CHR ''x''" "suf \<noteq> []"
  have "last (base @ suf) = CHR ''x''" if "drop (length (base @ suf) - 5) (base @ suf) = ''.onnx''"
  proof -
    have "last (base @ suf) = last (drop (length (base @ suf) - 5) (base @ suf))"
      using a(2) by (subst last_drop) auto
    then show ?thesis unfolding that by simp
  qed
  then show ?thesis using a by (auto simp: format_of_def)
qed

text \<open>
  The two files of a darknet model: naming either one selects the same pair, the
  \<^verbatim>\<open>.cfg\<close> and \<^verbatim>\<open>.weights\<close> next to each other, whatever the directories and dots in the path,
  and whatever pair the configuration named before; the test looks at four characters only, so a longer
  extension that starts with \<^verbatim>\<open>.cfg\<close> is taken for the configuration file too.
\<close>

lemma darknet_pair:
  "derive_files (cfg\<lparr>yc_weights := base @ ''.cfg''\<rparr>) = derive_files (cfg\<lparr>yc_weights := base @ ''.weights''\<rparr>)
   \<and> yc_weights (derive_files (cfg\<lparr>yc_weights := base @ ''.weights''\<rparr>)) = base @ ''.weights''
   \<and> yc_config (derive_files (cfg\<lparr>yc_weights := base @ ''.weights''\<rparr>)) = base @ ''.cfg''
   \<and> yc_weights (derive_files (cfg\<lparr>yc_weights := base @ ''.cfgs''\<rparr>)) = base @ ''.weights''
   \<and> yc_input_size (derive_files (cfg\<lparr>yc_weights := base @ ''.cfg''\<rparr>)) \<noteq> 640"
proof -
  have f: "format_of (base @ ''.cfg'') = MF_darknet" "format_of (base @ ''.weights'') = MF_darknet"
    "format_of (base @ ''.cfgs'') = MF_darknet"
    by (simp_all add: format_darknet)
  have r: "rfind (CHR ''.'') (base @ ''.cfg'') = Some (length base)"
    "rfind (CHR ''.'') (base @ ''.weights'') = Some (length base)"
    "rfind (CHR ''.'') (base @ ''.cfgs'') = Some (length base)"
    by (simp_all add: rfind_append)
  show ?thesis by (simp add: derive_files_def f r Let_def yolo_config_default_def)
qed

text \<open>
  Pacing without a fixed interval: for a positive frame period (and an interval that fits an
  \<^verbatim>\<open>int\<close>), the interval is the smallest number of frames, at least one, that lasts as long as
  the last inference did.
\<close>

lemma stride_paces:
  assumes "yc_detect_every cfg \<le> 0" and "0 < yc_frame_period_us cfg" and "0 \<le> us"
    and "us \<le> 2147483647 * yc_frame_period_us cfg"
  shows "\<exists>n. yolo_stride cfg us = Some n \<and> 1 \<le> n \<and> us \<le> n * yc_frame_period_us cfg
    \<and> (n = 1 \<or> (n - 1) * yc_frame_period_us cfg < us)"
proof (cases "us = 0")
  case True
  then show ?thesis using assms by (simp add: yolo_stride_def)
next
  case False
  let ?p = "yc_frame_period_us cfg"
  let ?n = "(us + ?p - 1) div ?p"
  have d: "?n * ?p + (us + ?p - 1) mod ?p = us + ?p - 1" by (rule div_mult_mod_eq)
  have r: "0 \<le> (us + ?p - 1) mod ?p" "(us + ?p - 1) mod ?p < ?p" using assms(2) by simp_all
  have upper: "us \<le> ?n * ?p" using d r by linarith
  have "(?n - 1) * ?p = ?n * ?p - ?p" by (simp only: left_diff_distrib mult_1_left)
  then have lower: "(?n - 1) * ?p < us" using d r by linarith
  have one: "1 \<le> ?n" using False assms(2,3) by (simp add: pos_imp_zdiv_pos_iff int_one_le_iff_zero_less)
  have "(?n - 1) * ?p < 2147483647 * ?p" using lower assms(4) by linarith
  then have "?n - 1 < 2147483647" using assms(2) by (simp only: mult_less_cancel_right_pos)
  then have fits: "sint (word_of_int ?n :: u32) = ?n"
    using one by (simp add: signed_of_int signed_take_bit_int_eq_self)
  have "yolo_stride cfg us = Some ?n"
    using False assms one fits by (simp add: yolo_stride_def Let_def)
  then show ?thesis using one upper lower by (intro exI [of _ ?n]) simp
qed

lemma stride_paces_witness:
  "\<exists>n. yolo_stride yolo_config_default 100000 = Some n \<and> n = 4"
proof -
  have "yc_detect_every yolo_config_default \<le> 0" "0 < yc_frame_period_us yolo_config_default"
    "(100000 :: int) \<le> 2147483647 * yc_frame_period_us yolo_config_default"
    by (simp_all add: yolo_config_default_def)
  from stride_paces [OF this(1,2) _ this(3)] obtain n where
    "yolo_stride yolo_config_default 100000 = Some n" "1 \<le> n" "100000 \<le> n * 33333"
    "n = 1 \<or> (n - 1) * 33333 < 100000"
    by (auto simp: yolo_config_default_def)
  then show ?thesis by auto
qed

text \<open>
  C24. The mailbox between the streaming thread and the worker, under every interleaving: the frames
  that entered the slot are, in order and each once, those the worker has finished and at most one
  more, the one still in the slot, and the frame the worker holds is that one, unchanged since it was
  offered.
\<close>

theorem mailbox_one_slot:
  assumes "mb_reach m"
  shows "mb_accepted m = mb_processed m @ (if mb_pending m then [(mb_pixels m, mb_w m, mb_h m)] else [])
    \<and> (mb_taken m = None \<or> (mb_pending m \<and> mb_taken m = Some (mb_pixels m, mb_w m, mb_h m)))"
  using assms
proof (induction rule: mb_reach.induct)
  case mb_start
  then show ?case by (simp add: mailbox_init_def)
next
  case (mb_next m m')
  from mb_next(2) show ?case
  proof (cases rule: mb_step.cases)
    case (mb_offer got_lock v w h)
    then show ?thesis using mb_next(3) by (auto simp: offer_def start_worker_def Let_def split: if_splits)
  next
    case mb_take
    then show ?thesis using mb_next(3) by (auto simp: worker_take_def)
  next
    case (mb_release f)
    then show ?thesis using mb_next(3) by (auto simp: worker_release_def)
  next
    case mb_stop
    then show ?thesis using mb_next(3) by auto
  qed
qed

definition demo_frame :: frame_view where
  "demo_frame = \<lparr>fv_data = [1, 2, 3, 4], fv_width = 2, fv_height = 2, fv_stride = 0, fv_fmt = PF_nv12,
     fv_hw_ts_ns = 0, fv_seq = 0, fv_ch = 0\<rparr>"

theorem mailbox_one_slot_witness:
  "\<exists>m1. offer True demo_frame 2 2 mailbox_init = Some m1 \<and> mb_pixels m1 = [1, 2, 3, 4]
    \<and> (let m = worker_take m1
       in mb_accepted m = mb_processed m @ [(mb_pixels m, mb_w m, mb_h m)]
        \<and> mb_taken m = Some (mb_pixels m, mb_w m, mb_h m))"
proof -
  obtain m1 where m1: "offer True demo_frame 2 2 mailbox_init = Some m1" "mb_pixels m1 = [1, 2, 3, 4]"
    "mb_pending m1" "mb_worker m1" "\<not> mb_exited m1" "\<not> mb_stop m1" "mb_taken m1 = None"
    using offer_whole [of 2 2 demo_frame True mailbox_init]
    by (auto simp: demo_frame_def mailbox_init_def start_worker_def Let_def)
  have "mb_reach m1" by (rule mb_next [OF mb_start mb_offer [OF m1(1)]])
  then have "mb_reach (worker_take m1)"
    by (rule mb_next) (rule mb_take [OF m1(4,5,7)])
  from mailbox_one_slot [OF this] show ?thesis using m1
    by (simp add: Let_def worker_take_def)
qed

text \<open>
  C25. What an ONNX inference reports, with suppression as documented and whatever else OpenCV answers.
  It stores exactly the entries, at the positions that suppression keeps, of the rows that pass, in
  their order: the rows whose objectness and whose confidence, the product of the best class score and
  the objectness, are not below the threshold. An entry has that class and confidence, the class's name
  or a question mark, and the row's box: centre and extent scaled by image over input size on each axis,
  half the extent left and above the centre, cut to integers. Or OpenCV throws, and the last result stays.
  Or the inference is undefined, and then some row is too short or passes with a box that has no integer
  value (not a number, or too large).
\<close>

theorem detections_from_rows:
  assumes "yo_format yo \<noteq> MF_darknet" and "nms_documented dn"
  shows "case detect dn luma w h yo of
      None \<Rightarrow> \<exists>rows. dn_forward dn (yo_net yo) luma w h (yc_input_size (yo_cfg yo)) = Some rows
        \<and> (\<exists>p \<in> set rows. row_undefined (dn_max_loc dn) (yo_cfg yo) w h p)
    | Some yo' \<Rightarrow> (yo' = yo \<and> opencv_throws dn yo luma w h)
        \<or> (\<exists>rows raw keep. dn_forward dn (yo_net yo) luma w h (yc_input_size (yo_cfg yo)) = Some rows
            \<and> list_all2 (row_entry (dn_max_loc dn) (yo_cfg yo) w h)
                (filter (row_passes (dn_max_loc dn) (yo_cfg yo)) rows) raw
            \<and> dn_nms dn (map (snd \<circ> snd) raw) (map (fst \<circ> snd) raw) (yc_confidence_threshold (yo_cfg yo))
                (yc_nms_threshold (yo_cfg yo)) = Some keep
            \<and> distinct keep \<and> (\<forall>k \<in> set keep. k < length raw)
            \<and> yo_last yo' = map (\<lambda>k. entry_detection (yo_classes yo) (raw ! k)) keep)"
proof (cases "infer dn yo luma w h")
  case (Value v)
  obtain ids scores boxes where v: "infer dn yo luma w h = Value (ids, scores, boxes)"
    using Value by (cases v) auto
  from infer_onnx [OF assms v] obtain rows raw keep where
    r: "dn_forward dn (yo_net yo) luma w h (yc_input_size (yo_cfg yo)) = Some rows"
      "list_all2 (row_entry (dn_max_loc dn) (yo_cfg yo) w h) (filter (row_passes (dn_max_loc dn) (yo_cfg yo)) rows) raw"
      "dn_nms dn (map (snd \<circ> snd) raw) (map (fst \<circ> snd) raw) (yc_confidence_threshold (yo_cfg yo))
        (yc_nms_threshold (yo_cfg yo)) = Some keep"
      "distinct keep" "\<forall>k \<in> set keep. k < length raw"
    and eq: "ids = map (\<lambda>k. fst (raw ! k)) keep" "scores = map (\<lambda>k. fst (snd (raw ! k))) keep"
      "boxes = map (\<lambda>k. snd (snd (raw ! k))) keep"
    by blast
  obtain yo' where d: "detect dn luma w h yo = Some yo'"
    "yo_last yo' = map (\<lambda>i. entry_detection (yo_classes yo) (raw ! (keep ! i))) [0..<length keep]"
    by (auto simp: detect_def v eq Let_def entry_detection_def split: prod.split intro!: map_cong)
  have "yo_last yo' = map (\<lambda>k. entry_detection (yo_classes yo) (raw ! k)) keep"
    unfolding d(2) by (rule nth_equalityI) simp_all
  then show ?thesis using r unfolding d(1) option.case by blast
next
  case Throws
  then show ?thesis using infer_onnx_throws [OF assms(1) Throws] by (simp add: detect_def)
next
  case Undefined
  then show ?thesis using infer_onnx_undefined [OF assms Undefined] by (simp add: detect_def)
qed

text \<open>A network with one output row: one class, certain, a box of 10 by 20 around (50, 60).\<close>

definition demo_dnn :: "unit dnn" where
  "demo_dnn = \<lparr>dn_detect = (\<lambda>_ _ _ _ _ _ _. None),
     dn_forward = (\<lambda>_ _ _ _ _. Some [[0x42480000, 0x42700000, 0x41200000, 0x41A00000, 0x3F800000, 0x3F800000]]),
     dn_max_loc = (\<lambda>xs. case xs of [] \<Rightarrow> None | x # _ \<Rightarrow> Some (0, x)),
     dn_nms = (\<lambda>bs _ _ _. Some [0..<length bs]), dn_elapsed = (\<lambda>_ _. 1000)\<rparr>"

definition demo_yolo :: "unit yolo" where
  "demo_yolo = \<lparr>yo_cfg = yolo_config_default, yo_format = MF_onnx, yo_net = (), yo_classes = [''cat''],
     yo_last = [], yo_inference_us = 0, yo_frame = 0\<rparr>"

lemma demo_sel:
  "dn_forward demo_dnn n luma w h sz = Some [[0x42480000, 0x42700000, 0x41200000, 0x41A00000, 0x3F800000, 0x3F800000]]"
  "dn_max_loc demo_dnn (x # xs) = Some (0, x)" "dn_nms demo_dnn bs ss t u = Some [0..<length bs]"
  "yo_format demo_yolo = MF_onnx" "yo_classes demo_yolo = [''cat'']" "yo_last demo_yolo = []"
  "yc_input_size (yo_cfg demo_yolo) = 640" "yc_confidence_threshold (yo_cfg demo_yolo) = 0x3ECCCCCD"
  by (simp_all add: demo_dnn_def demo_yolo_def yolo_config_default_def)

lemma demo_infer:
  "infer demo_dnn (demo_yolo\<lparr>yo_frame := k\<rparr>) luma 640 640 = Value ([0], [0x3F800000], [(45, 50, 10, 20)])"
proof -
  let ?row = "[0x42480000, 0x42700000, 0x41200000, 0x41A00000, 0x3F800000, 0x3F800000] :: u32 list"
  have s: "f32_div (f32_of_int 640) (f32_of_int 640) = 0x3F800000" by (simp add: f32_eval)
  have m: "f32_mul 0x42480000 0x3F800000 = 0x42480000" "f32_mul 0x42700000 0x3F800000 = 0x42700000"
    "f32_mul 0x41200000 0x3F800000 = 0x41200000" "f32_mul 0x41A00000 0x3F800000 = 0x41A00000"
    "f32_mul 0x3F800000 0x3F800000 = 0x3F800000"
    by (simp_all add: f32_eval)
  have b: "int_box (f32_sub 0x42480000 (f32_div 0x41200000 (f32_of_int 2)))
      (f32_sub 0x42700000 (f32_div 0x41A00000 (f32_of_int 2))) 0x41200000 0x41A00000 = Some (45, 50, 10, 20)"
    by (simp add: int_box_def f32_eval)
  have l: "\<not> f32_less 0x3F800000 0x3ECCCCCD" by (simp add: f32_eval)
  have r: "decode_row (dn_max_loc demo_dnn) 0x3ECCCCCD 0x3F800000 0x3F800000 ?row
      = Value (Some (0, 0x3F800000, 45, 50, 10, 20))"
    by (simp add: decode_row_def demo_sel Let_def l m b)
  show ?thesis by (simp add: infer_def demo_sel decode_v5_def Let_def s r gather_def)
qed

lemma demo_detect:
  "detect demo_dnn luma 640 640 (demo_yolo\<lparr>yo_frame := k\<rparr>) =
     Some (demo_yolo\<lparr>yo_frame := k, yo_inference_us := 1000, yo_last :=
       [\<lparr>de_class_id = 0, de_confidence = 0x3F800000, de_x = 45, de_y = 50, de_w = 10, de_h = 20, de_label = ''cat''\<rparr>]\<rparr>)"
  by (simp add: detect_def demo_infer Let_def label_of_def demo_sel) (simp add: demo_dnn_def demo_yolo_def)

text \<open>The same row on an image twice as wide as the network's input: only the horizontal axis is scaled.\<close>

lemma wide_steps:
  "f32_div (f32_of_int 1280) (f32_of_int 640) = 0x40000000" "f32_div (f32_of_int 640) (f32_of_int 640) = 0x3F800000"
  "f32_mul 0x42480000 0x40000000 = 0x42C80000" "f32_mul 0x41200000 0x40000000 = 0x41A00000"
  "f32_mul 0x42700000 0x3F800000 = 0x42700000" "f32_mul 0x41A00000 0x3F800000 = 0x41A00000"
  "f32_div 0x41A00000 (f32_of_int 2) = 0x41200000"
  "f32_sub 0x42C80000 0x41200000 = 0x42B40000" "f32_sub 0x42700000 0x41200000 = 0x42480000"
  "f32_to_int 0x42B40000 = Some 90" "f32_to_int 0x42480000 = Some 50" "f32_to_int 0x41A00000 = Some 20"
  by (simp_all add: f32_eval)

lemma wide_axes:
  "axis_entry 0x42480000 0x41200000 1280 640 lo len \<longleftrightarrow> lo = 90 \<and> len = 20"
  "axis_entry 0x42700000 0x41A00000 640 640 lo len \<longleftrightarrow> lo = 50 \<and> len = 20"
  unfolding axis_entry_def Let_def wide_steps by auto

lemma wide_detect: "\<exists>yo'. detect demo_dnn luma 1280 640 demo_yolo = Some yo' \<and> length (yo_last yo') = 1"
proof -
  let ?row = "[0x42480000, 0x42700000, 0x41200000, 0x41A00000, 0x3F800000, 0x3F800000] :: u32 list"
  have l: "\<not> f32_less 0x3F800000 0x3ECCCCCD" "f32_mul 0x3F800000 0x3F800000 = 0x3F800000"
    by (simp_all add: f32_eval)
  have "decode_row (dn_max_loc demo_dnn) 0x3ECCCCCD 0x40000000 0x3F800000 ?row
      = Value (Some (0, 0x3F800000, 90, 50, 20, 20))"
    by (simp add: decode_row_def demo_sel Let_def l wide_steps int_box_def)
  then have "infer demo_dnn demo_yolo luma 1280 640 = Value ([0], [0x3F800000], [(90, 50, 20, 20)])"
    by (simp add: infer_def demo_sel decode_v5_def Let_def wide_steps gather_def)
  then show ?thesis by (simp add: detect_def Let_def)
qed

lemma wide_entry:
  "row_entry (dn_max_loc demo_dnn) (yo_cfg demo_yolo) 1280 640
      [0x42480000, 0x42700000, 0x41200000, 0x41A00000, 0x3F800000, 0x3F800000] e
   \<longleftrightarrow> e = (0, 0x3F800000, 90, 50, 20, 20)"
proof -
  have l: "\<not> f32_less 0x3F800000 0x3ECCCCCD" "f32_mul 0x3F800000 0x3F800000 = 0x3F800000"
    by (simp_all add: f32_eval)
  show ?thesis by (cases e) (auto simp: row_entry_def row_kept_def demo_sel wide_axes l)
qed

lemma wide_passes:
  "row_passes (dn_max_loc demo_dnn) (yo_cfg demo_yolo) [0x42480000, 0x42700000, 0x41200000, 0x41A00000, 0x3F800000, 0x3F800000]"
  using wide_entry [of "(0, 0x3F800000, 90, 50, 20, 20)"] by (auto simp: row_entry_def row_passes_def)

theorem detections_from_rows_witness:
  "\<exists>yo'. detect demo_dnn [] 1280 640 demo_yolo = Some yo'
     \<and> yo_last yo' = [\<lparr>de_class_id = 0, de_confidence = 0x3F800000, de_x = 90, de_y = 50, de_w = 20, de_h = 20,
          de_label = ''cat''\<rparr>]"
proof -
  have n: "yo_format demo_yolo \<noteq> MF_darknet" "nms_documented demo_dnn"
    by (simp_all add: nms_documented_def demo_sel)
  obtain yo' where d: "detect demo_dnn [] 1280 640 demo_yolo = Some yo'" "length (yo_last yo') = 1"
    using wide_detect by blast
  have ne: "yo' \<noteq> demo_yolo" using d(2) by (auto simp: demo_sel)
  have lab: "label_of [''cat''] 0 = ''cat''" by (simp add: label_of_def)
  from detections_from_rows [OF n, of "[]" 1280 640] obtain raw keep where
    r: "list_all2 (row_entry (dn_max_loc demo_dnn) (yo_cfg demo_yolo) 1280 640)
        [[0x42480000, 0x42700000, 0x41200000, 0x41A00000, 0x3F800000, 0x3F800000]] raw"
    and k: "Some [0..<length raw] = Some keep" "yo_last yo' = map (\<lambda>k. entry_detection [''cat''] (raw ! k)) keep"
    unfolding d(1) option.case using ne by (auto simp: demo_sel wide_passes)
  from r have raw: "raw = [(0, 0x3F800000, 90, 50, 20, 20)]" by (auto simp: list_all2_Cons1 wide_entry)
  then have "keep = [0]" using k(1) by simp
  with raw show ?thesis using d(1) k(2) by (simp add: entry_detection_def lab)
qed

end
