(* ===== verification/Service_Options.thy ===== *)
theory Service_Options
  imports Log_Record
begin

text \<open>
  The command line of \<^verbatim>\<open>main.cpp\<close>: the options with their defaults, \<^verbatim>\<open>parse_u32\<close> on top
  of \<^verbatim>\<open>std::from_chars\<close>, and \<^verbatim>\<open>parse_args\<close>.
\<close>

record options =
  op_gain :: u32
  op_width :: u32
  op_height :: u32
  op_fps :: u32
  op_host :: string
  op_port :: u16
  op_stream :: bool
  op_video :: bool
  op_camera :: bool
  op_device :: string
  op_pattern :: u32
  op_detect :: bool
  op_model :: string
  op_input_size :: u32
  op_detect_sync :: bool
  op_nuc_after :: int
  op_broker :: string
  op_node :: string
  op_seconds :: int
  op_level :: level

definition options_default :: options where
  "options_default = \<lparr>op_gain = 0x0100, op_width = 1280, op_height = 720, op_fps = 30,
     op_host = ''127.0.0.1'', op_port = 5600, op_stream = False, op_video = True, op_camera = False,
     op_device = ''/dev/video0'', op_pattern = 0, op_detect = False, op_model = '''', op_input_size = 0,
     op_detect_sync = False, op_nuc_after = 0, op_broker = '''', op_node = ''node1'', op_seconds = 0,
     op_level = L_info\<rparr>"

text \<open>
  \<^verbatim>\<open>std::from_chars\<close> for an unsigned 32-bit decimal: the unread rest of the text and the new
  value. Without a digit nothing is read; a number out of range is read to its end, and in both cases
  the value stays as it was.
\<close>

definition from_chars_u32 :: "string \<Rightarrow> u32 \<Rightarrow> string \<times> u32" where
  "from_chars_u32 s out =
     (let ds = takeWhile is_digit s
      in (dropWhile is_digit s,
          if ds \<noteq> [] \<and> digits_val ds < 4294967296 then of_nat (digits_val ds) else out))"

definition parse_u32 :: "string \<Rightarrow> u32 \<Rightarrow> bool \<times> u32" where
  "parse_u32 s out = (case from_chars_u32 s out of (rest, v) \<Rightarrow> (rest = '''', v))"

text \<open>
  One option: the argument \<open>nx\<close> is what \<^verbatim>\<open>next()\<close> would return, the flag of the result says whether it
  was called; \<open>None\<close> is \<^verbatim>\<open>return false\<close>.
\<close>

definition parse_option :: "string \<Rightarrow> string \<Rightarrow> options \<Rightarrow> (options \<times> bool) option" where
  "parse_option a nx ops =
    (if a = ''--gain'' then
       (case parse_u32 nx (op_gain ops) of (ok', v) \<Rightarrow>
          if \<not> ok' then None else Some (ops\<lparr>op_gain := v\<rparr>, True))
     else if a = ''--width'' then
       (case parse_u32 nx (op_width ops) of (ok', v) \<Rightarrow>
          if \<not> ok' \<or> v = 0 then None else Some (ops\<lparr>op_width := v\<rparr>, True))
     else if a = ''--height'' then
       (case parse_u32 nx (op_height ops) of (ok', v) \<Rightarrow>
          if \<not> ok' \<or> v = 0 then None else Some (ops\<lparr>op_height := v\<rparr>, True))
     else if a = ''--fps'' then
       (case parse_u32 nx (op_fps ops) of (ok', v) \<Rightarrow>
          if \<not> ok' \<or> v = 0 then None else Some (ops\<lparr>op_fps := v\<rparr>, True))
     else if a = ''--host'' then
       (if nx = '''' then None else Some (ops\<lparr>op_host := nx, op_stream := True\<rparr>, True))
     else if a = ''--port'' then
       (case parse_u32 nx 0 of (ok', v) \<Rightarrow>
          if \<not> ok' \<or> v = 0 \<or> v > 65535 then None
          else Some (ops\<lparr>op_port := ucast v, op_stream := True\<rparr>, True))
     else if a = ''--stream'' then Some (ops\<lparr>op_stream := True\<rparr>, False)
     else if a = ''--no-video'' then Some (ops\<lparr>op_video := False\<rparr>, False)
     else if a = ''--camera'' then Some (ops\<lparr>op_camera := True\<rparr>, False)
     else if a = ''--detect'' then Some (ops\<lparr>op_detect := True\<rparr>, False)
     else if a = ''--input-size'' then
       (case parse_u32 nx (op_input_size ops) of (ok', v) \<Rightarrow>
          if \<not> ok' \<or> v < 96 \<or> v > 1280 then None
          else Some (ops\<lparr>op_input_size := v, op_detect := True\<rparr>, True))
     else if a = ''--detect-sync'' then Some (ops\<lparr>op_detect_sync := True, op_detect := True\<rparr>, False)
     else if a = ''--model'' then
       (if nx = '''' then None else Some (ops\<lparr>op_model := nx, op_detect := True\<rparr>, True))
     else if a = ''--device'' then
       (if nx = '''' then None else Some (ops\<lparr>op_device := nx, op_camera := True\<rparr>, True))
     else if a = ''--pattern'' then
       (case parse_u32 nx (op_pattern ops) of (ok', v) \<Rightarrow>
          if \<not> ok' then None else Some (ops\<lparr>op_pattern := v\<rparr>, True))
     else if a = ''--nuc'' then
       (case parse_u32 nx 0 of (ok', v) \<Rightarrow>
          if \<not> ok' \<or> v = 0 then None else Some (ops\<lparr>op_nuc_after := sint v\<rparr>, True))
     else if a = ''--broker'' then
       (if nx = '''' then None else Some (ops\<lparr>op_broker := nx\<rparr>, True))
     else if a = ''--node'' then
       (if nx = '''' then None else Some (ops\<lparr>op_node := nx\<rparr>, True))
     else if a = ''--seconds'' then
       (case parse_u32 nx 0 of (ok', v) \<Rightarrow>
          if \<not> ok' then None else Some (ops\<lparr>op_seconds := sint v\<rparr>, True))
     else if a = ''--debug'' then Some (ops\<lparr>op_level := L_debug\<rparr>, False)
     else if a = ''--quiet'' then Some (ops\<lparr>op_level := L_warn\<rparr>, False)
     else None)"

text \<open>The arguments after the program's name; \<^verbatim>\<open>next()\<close> is an empty text when none is left.\<close>

function parse_args :: "string list \<Rightarrow> options \<Rightarrow> options option" where
  "parse_args [] ops = Some ops"
| "parse_args (a # rest) ops =
     (case parse_option a (case rest of [] \<Rightarrow> '''' | x # _ \<Rightarrow> x) ops of
        None \<Rightarrow> None
      | Some (ops1, took) \<Rightarrow> parse_args (if took then drop 1 rest else rest) ops1)"
  by pat_completeness auto
termination
  by (relation "measure (\<lambda>(as, ops). length as)") auto

section \<open>Properties\<close>

text \<open>
  What \<^verbatim>\<open>parse_u32\<close> accepts: exactly the texts made of digits only, the empty text included.
  A number below \<open>2 ^ 32\<close> is stored; the empty text and a number out of range are accepted too, and leave
  the value as it was, so an option without its argument, or with a number that does not fit, passes
  silently.
\<close>

lemma parse_u32_accepts:
  "(if list_all is_digit s
    then parse_u32 s old =
      (True, if s \<noteq> '''' \<and> digits_val s < 4294967296 then of_nat (digits_val s) else old)
    else fst (parse_u32 s old) = False)
   \<and> parse_u32 '''' old = (True, old)
   \<and> parse_u32 (dec n) old = (True, if n < 4294967296 then of_nat n else old)
   \<and> parse_args [''--gain''] options_default = Some options_default"
proof -
  have all: "takeWhile is_digit s = s \<and> dropWhile is_digit s = []" if "list_all is_digit s" for s
    using that by (induction s) simp_all
  have rest: "dropWhile is_digit s = [] \<longleftrightarrow> list_all is_digit s"
    by (simp add: dropWhile_eq_Nil_conv list_all_iff)
  have d: "list_all is_digit (dec n)" using dec_digits by (auto simp: list_all_iff)
  have e: "parse_u32 '''' x = (True, x)" for x by (simp add: parse_u32_def from_chars_u32_def)
  have "parse_args [''--gain''] options_default = Some options_default"
    by (simp add: parse_option_def e)
  moreover have "if list_all is_digit s
    then parse_u32 s old =
      (True, if s \<noteq> '''' \<and> digits_val s < 4294967296 then of_nat (digits_val s) else old)
    else fst (parse_u32 s old) = False"
  proof (cases "list_all is_digit s")
    case True
    have tw: "takeWhile is_digit s = s" "dropWhile is_digit s = []" using all [OF True] by blast+
    show ?thesis unfolding parse_u32_def from_chars_u32_def Let_def tw using True by simp
  next
    case False
    then show ?thesis using rest by (simp add: parse_u32_def from_chars_u32_def Let_def)
  qed
  moreover have "parse_u32 (dec n) old = (True, if n < 4294967296 then of_nat n else old)"
  proof -
    have tw: "takeWhile is_digit (dec n) = dec n" "dropWhile is_digit (dec n) = []"
      using all [OF d] by blast+
    show ?thesis unfolding parse_u32_def from_chars_u32_def Let_def tw by simp
  qed
  ultimately show ?thesis using e by blast
qed

definition options_ok :: "options \<Rightarrow> bool" where
  "options_ok ops \<longleftrightarrow> op_width ops \<noteq> 0 \<and> op_height ops \<noteq> 0 \<and> op_fps ops \<noteq> 0 \<and> op_port ops \<noteq> 0
     \<and> (op_input_size ops = 0 \<or> (96 \<le> op_input_size ops \<and> op_input_size ops \<le> 1280 \<and> op_detect ops))
     \<and> (op_detect_sync ops = False \<or> op_detect ops) \<and> (op_model ops = '''' \<or> op_detect ops)
     \<and> op_host ops \<noteq> '''' \<and> op_device ops \<noteq> '''' \<and> op_node ops \<noteq> ''''"

lemma ucast_port: "(v :: u32) \<noteq> 0 \<Longrightarrow> \<not> v > 65535 \<Longrightarrow> (ucast v :: u16) \<noteq> 0"
proof
  assume a: "v \<noteq> 0" "\<not> v > 65535" and z: "(ucast v :: u16) = 0"
  have "unat v < 65536" using a(2) by (simp add: not_less word_le_nat_alt)
  then have "unat (ucast v :: u16) = unat v" by (simp add: unsigned_ucast_eq take_bit_nat_eq_self)
  then show False using a(1) z by (simp add: word_unat_eq_iff)
qed

lemma opt_if:
  assumes "(if a = s then x else y) = Some r"
  obtains "x = Some r" | "y = Some r"
  using assms by (auto split: if_splits)

lemma opt_num:
  assumes "(case parse_u32 nx old of (ok', v) \<Rightarrow> if \<not> ok' \<or> P v then None else Some (f v, True)) = Some (ops', took)"
  obtains v where "\<not> P v" "ops' = f v"
  using assms by (auto split: prod.splits if_splits)

lemma opt_num_any:
  assumes "(case parse_u32 nx old of (ok', v) \<Rightarrow> if \<not> ok' then None else Some (f v, True)) = Some (ops', took)"
  obtains v where "ops' = f v"
  using assms by (auto split: prod.splits if_splits)

lemma opt_text:
  assumes "(if nx = '''' then None else Some (x, True)) = Some (ops', took)"
  obtains "nx \<noteq> ''''" "ops' = x"
  using assms by (auto split: if_splits)

lemma opt_flag:
  assumes "Some (x, False) = Some (ops', took)"
  obtains "ops' = x"
  using assms by simp

lemma port_small: "\<not> (v = 0 \<or> 65535 < (v :: u32)) \<Longrightarrow> (ucast v :: u16) \<noteq> 0"
  using ucast_port by blast

lemma parse_option_ok:
  "options_ok ops \<Longrightarrow> parse_option a nx ops = Some (ops', took) \<Longrightarrow> options_ok ops'"
  unfolding parse_option_def
  by (elim opt_if [where a = a] opt_num opt_num_any opt_text;
      (elim opt_num opt_num_any opt_text opt_flag)?; auto simp: options_ok_def not_less port_small)

lemma parse_args_ok: "options_ok ops \<Longrightarrow> parse_args as ops = Some ops' \<Longrightarrow> options_ok ops'"
proof (induction as ops rule: parse_args.induct)
  case (2 a rest ops)
  then show ?case using parse_option_ok [OF 2(2)]
    by (auto split: option.splits)
qed simp

text \<open>
  C40. Whatever the command line, the options the service runs with are usable: no zero width, height,
  frame rate or port, a network input size within its bounds and only together with detection, and no
  empty host, device or node name.
\<close>

theorem accepted_options_ok:
  assumes "parse_args as options_default = Some ops"
  shows "options_ok ops"
proof -
  have "options_ok options_default" by (simp add: options_ok_def options_default_def)
  then show ?thesis using assms by (rule parse_args_ok)
qed

theorem accepted_options_ok_witness:
  "\<exists>ops. parse_args [''--port'', ''6000'', ''--input-size'', ''320'', ''--quiet''] options_default = Some ops
    \<and> options_ok ops \<and> op_port ops = 6000 \<and> op_input_size ops = 320 \<and> op_stream ops"
proof -
  let ?ops = "options_default\<lparr>op_port := 6000, op_stream := True, op_input_size := 320, op_detect := True,
     op_level := L_warn\<rparr>"
  have n: "parse_u32 ''6000'' x = (True, 6000)" "parse_u32 ''320'' x = (True, 320)" for x
    by (simp_all add: parse_u32_def from_chars_u32_def Let_def is_digit_def digits_val_def digit_val_def)
  have "parse_args [''--port'', ''6000'', ''--input-size'', ''320'', ''--quiet''] options_default = Some ?ops"
    by (simp add: parse_option_def n)
  with accepted_options_ok [OF this] show ?thesis by auto
qed

end
