(* ===== verification/Service_Main.thy ===== *)
theory Service_Main
  imports App_Lifecycle Logger Sensor_Nuc Telemetry Video_Pipeline Detect_Yolo Service_Options
begin

text \<open>
  \<^verbatim>\<open>main.cpp\<close>: the four service components over one world, the registration order, and
  \<^verbatim>\<open>main\<close> itself with its exit codes. The build has video, detection and telemetry. What the
  services call outside the repository (broker library, GStreamer, OpenCV, clocks) comes with the
  environment record. Everything here runs on the main thread, thread 0 of the logger; the telemetry
  worker is modelled by one turn of its loop.
\<close>

section \<open>World and environment\<close>

record ('c, 'n) env =
  ev_clock :: steady
  ev_stamp :: "u64 \<Rightarrow> u64"
  ev_now :: int
  ev_mosq :: "'c mosq"
  ev_parse :: "string \<Rightarrow> bool \<times> bool"
  ev_by_name :: "string \<Rightarrow> string \<Rightarrow> bool"
  ev_set_ok :: bool
  ev_get_ok :: bool
  ev_names :: "string \<Rightarrow> string list option"
  ev_onnx :: "string \<Rightarrow> 'n model_read"
  ev_darknet :: "string \<Rightarrow> string \<Rightarrow> 'n model_read"
  ev_dnn :: "'n dnn"

record ('c, 'n) world =
  sv_log :: "tls \<times> logger"
  sv_isp :: isp_fake
  sv_nuc :: bool
  sv_yolo :: "'n yolo option"
  sv_mail :: mailbox
  sv_pipe :: "pipeline option"
  sv_pub :: "'c publisher option"
  sv_lib :: mosq_lib
  sv_worker :: bool
  sv_events :: "(string \<times> u16 \<times> string) list"

definition slog :: "('c, 'n) env \<Rightarrow> level \<Rightarrow> string \<Rightarrow> string \<Rightarrow> key_value list \<Rightarrow> ('c, 'n) world \<Rightarrow> ('c, 'n) world" where
  "slog ev l cname msg kvs w =
     w\<lparr>sv_log := logger_log 0 (ev_stamp ev (lg_seq (snd (sv_log w)))) l cname msg kvs (sv_log w)\<rparr>"

text \<open>A call of the publisher, and the lines it logged passed on to the logger.\<close>

definition relay :: "('c, 'n) env \<Rightarrow> log_line list \<Rightarrow> ('c, 'n) world \<Rightarrow> ('c, 'n) world" where
  "relay ev ls w = fold (\<lambda>(l, cname, msg, kvs). slog ev l cname msg kvs) ls w"

definition pub_do :: "('c, 'n) env \<Rightarrow> ('c publisher \<Rightarrow> 'c publisher) \<Rightarrow> ('c, 'n) world \<Rightarrow> ('c, 'n) world" where
  "pub_do ev f w =
     (case sv_pub w of
        None \<Rightarrow> w
      | Some p \<Rightarrow> let p1 = f p in relay ev (p_logs p1) (w\<lparr>sv_pub := Some (p1\<lparr>p_logs := []\<rparr>)\<rparr>))"

section \<open>LogService\<close>

definition log_init :: "('c, 'n) world \<Rightarrow> status \<times> ('c, 'n) world" where
  "log_init w = (Inr (), w)"

definition log_start :: "('c, 'n) env \<Rightarrow> ('c, 'n) world \<Rightarrow> status \<times> ('c, 'n) world" where
  "log_start ev w =
     (Inr (), slog ev L_info ''log'' ''sink thread running'' []
                (w\<lparr>sv_log := (fst (sv_log w), logger_start (ev_now ev) (snd (sv_log w)))\<rparr>))"

text \<open>A stop that did not return would leave the logger as it was; \<open>logger_stop_ok\<close> shows it returns.\<close>

definition log_stop :: "('c, 'n) env \<Rightarrow> ('c, 'n) world \<Rightarrow> ('c, 'n) world" where
  "log_stop ev w =
     (let st = logger_stats (snd (sv_log w));
          w1 = slog ev L_info ''log'' ''sink stopping''
                 [kv_of_int ''written'' (st_written st), kv_of_int ''dropped'' (st_dropped st)] w
      in case logger_stop (snd (sv_log w1)) of
           None \<Rightarrow> w1
         | Some lg \<Rightarrow> w1\<lparr>sv_log := (fst (sv_log w1), lg)\<rparr>)"

section \<open>SensorService\<close>

definition isp_backend :: "('c, 'n) env \<Rightarrow> isp_fake backend" where
  "isp_backend ev = fake_backend (ev_clock ev)"

definition sensor_init :: "('c, 'n) env \<Rightarrow> ('c, 'n) world \<Rightarrow> status \<times> ('c, 'n) world" where
  "sensor_init ev w =
     (case power_on_bit (isp_backend ev) (install_isp_model (ev_clock ev) isp_model_default (sv_isp w)) of
        (Inl e, m) \<Rightarrow> (Inl e, slog ev L_error ''sensor'' ''power-on BIT failed''
                          [kv_of_int ''code'' (ucast (code_val (err_code e)))] (w\<lparr>sv_isp := m\<rparr>))
      | (Inr _, m) \<Rightarrow> (Inr (), slog ev L_info ''sensor'' ''power-on BIT passed'' [] (w\<lparr>sv_isp := m\<rparr>)))"

definition sensor_start :: "('c, 'n) env \<Rightarrow> options \<Rightarrow> ('c, 'n) world \<Rightarrow> status \<times> ('c, 'n) world" where
  "sensor_start ev ops w =
     (let bk = isp_backend ev;
          m1 = clear_bits bk isp_ctrl ctrl_enable (sv_isp w);
          m2 = reg_write bk isp_frame_w (op_width ops) m1;
          m3 = reg_write bk isp_frame_h (op_height ops) m2;
          m4 = reg_write bk isp_gain (op_gain ops AND kGainMask) m3;
          m5 = set_bits bk isp_ctrl ctrl_enable m4
      in case any_bit bk isp_status status_running m5 of
           (run, m6) \<Rightarrow>
             if \<not> run then (fail not_ready ''SensorService::start'', w\<lparr>sv_isp := m6\<rparr>)
             else (Inr (), slog ev L_info ''sensor'' ''running''
                     [kv_of_int ''gain'' (ucast (op_gain ops)), kv_of_int ''w'' (ucast (op_width ops)),
                      kv_of_int ''h'' (ucast (op_height ops))] (w\<lparr>sv_isp := m6\<rparr>)))"

definition sensor_stop :: "('c, 'n) env \<Rightarrow> ('c, 'n) world \<Rightarrow> ('c, 'n) world" where
  "sensor_stop ev w =
     slog ev L_info ''sensor'' ''stopped'' []
       (w\<lparr>sv_isp := clear_bits (isp_backend ev) isp_ctrl ctrl_enable (sv_isp w)\<rparr>)"

text \<open>
  \<^verbatim>\<open>emit\<close>: with a broker configured the sink is \<^verbatim>\<open>TelemetryService::publish_event\<close>; the
  events are also recorded in \<open>sv_events\<close> for the statements.
\<close>

definition emit :: "('c, 'n) env \<Rightarrow> options \<Rightarrow> string \<Rightarrow> u16 \<Rightarrow> string \<Rightarrow> ('c, 'n) world \<Rightarrow> ('c, 'n) world" where
  "emit ev ops id' cd body w =
     (let w1 = w\<lparr>sv_events := sv_events w @ [(id', cd, body)]\<rparr>
      in if op_broker ops = '''' then w1
         else pub_do ev (publish_event (ev_mosq ev) id' cd body) w1)"

definition sensor_run_nuc :: "('c, 'n) env \<Rightarrow> options \<Rightarrow> ('c, 'n) world \<Rightarrow> ('c, 'n) world option" where
  "sensor_run_nuc ev ops w =
     (let w1 = slog ev L_warn ''sensor'' ''NUC started - channel DEGRADED, shutter closing'' [] (w\<lparr>sv_nuc := True\<rparr>);
          w2 = emit ev ops ''NUC_STARTED'' 0 ''shutter closing, channel degraded'' w1
      in map_option (\<lambda>(r, m).
           let w3 = w2\<lparr>sv_isp := m, sv_nuc := False\<rparr>
           in case r of
                Inl e \<Rightarrow> emit ev ops ''NUC_FAILED'' (code_val (err_code e)) (err_where e)
                          (slog ev L_error ''sensor'' ''NUC failed''
                             [kv_of_int ''code'' (ucast (code_val (err_code e)))] w3)
              | Inr res \<Rightarrow> emit ev ops ''NUC_DONE'' 0 ''channel OK''
                          (slog ev L_info ''sensor'' ''NUC done - channel OK''
                             [kv_of_int ''ms'' (word_of_int (nr_duration res)),
                              kv_of_int ''mean_offset'' (word_of_int (nr_mean_offset res))] w3))
           (run_nuc (isp_backend ev) nuc_config_default (sv_isp w2)))"

section \<open>VideoService\<close>

definition video_spec :: "options \<Rightarrow> pipeline_spec" where
  "video_spec ops = pipeline_spec_default
     \<lparr>ps_source := source_spec_default
        \<lparr>sp_kind := (if op_camera ops then SK_v4l2 else SK_test_pattern), sp_device := op_device ops,
         sp_pattern := op_pattern ops, sp_width := op_width ops, sp_height := op_height ops,
         sp_fps := op_fps ops\<rparr>,
      ps_output := output_spec_default
        \<lparr>ou_kind := (if op_stream ops then OK_rtp_udp else OK_none), ou_host := op_host ops,
         ou_port := op_port ops\<rparr>\<rparr>"

definition video_yolo_config :: "options \<Rightarrow> yolo_config" where
  "video_yolo_config ops =
     (let y0 = yolo_config_default;
          y1 = (if op_model ops \<noteq> '''' then y0\<lparr>yc_weights := op_model ops\<rparr> else y0);
          y2 = y1\<lparr>yc_frame_period_us := uint (1000000 div op_fps ops)\<rparr>;
          y3 = (if op_input_size ops \<noteq> 0 then y2\<lparr>yc_input_size := sint (op_input_size ops)\<rparr> else y2)
      in y3\<lparr>yc_async := \<not> op_detect_sync ops\<rparr>)"

text \<open>The transform given to the pipeline is \<^verbatim>\<open>Yolo::process\<close>; its frames are a parameter here.\<close>

definition video_init ::
  "('c, 'n) env \<Rightarrow> options \<Rightarrow> transform \<Rightarrow> ('c, 'n) world \<Rightarrow> status \<times> ('c, 'n) world" where
  "video_init ev ops tr w =
     (let spec = video_spec ops;
          w1 = slog ev L_debug ''video'' (c_str (launch_string spec)) [] w;
          build = (\<lambda>t w2. case pipeline_create (ev_parse ev) (ev_by_name ev) spec t of
                     Inl e \<Rightarrow> (Inl e, w2)
                   | Inr p \<Rightarrow> (Inr (), w2\<lparr>sv_pipe := Some p\<rparr>))
      in if op_detect ops
         then (case yolo_create (ev_names ev) (ev_onnx ev) (ev_darknet ev) (video_yolo_config ops) of
                 Inl e \<Rightarrow> (Inl e, slog ev L_error ''detect'' ''model not loaded - run tools/get_model.sh'' [] w1)
               | Inr y \<Rightarrow> build (Some tr) (slog ev L_info ''detect'' (c_str (yolo_model y)) []
                            (w1\<lparr>sv_yolo := Some y\<rparr>)))
         else build None w1)"

text \<open>\<^verbatim>\<open>start\<close> is only called after an \<^verbatim>\<open>init\<close> that made a pipeline; without one there is nothing to play.\<close>

definition video_start :: "('c, 'n) env \<Rightarrow> options \<Rightarrow> ('c, 'n) world \<Rightarrow> status \<times> ('c, 'n) world" where
  "video_start ev ops w =
     (case sv_pipe w of
        None \<Rightarrow> (fail vid_state ''Pipeline::play'', w)
      | Some p \<Rightarrow>
          (case pipeline_play (ev_set_ok ev) (ev_get_ok ev) p of
             (Inl e, p1) \<Rightarrow> (Inl e, w\<lparr>sv_pipe := Some p1\<rparr>)
           | (Inr _, p1) \<Rightarrow> (Inr (), slog ev L_info ''video'' ''pipeline PLAYING''
                [kv_of_int ''fps'' (ucast (op_fps ops)), kv_of_int ''stream'' (if op_stream ops then 1 else 0)]
                (w\<lparr>sv_pipe := Some p1\<rparr>))))"

definition video_stop :: "('c, 'n) env \<Rightarrow> ('c, 'n) world \<Rightarrow> ('c, 'n) world" where
  "video_stop ev w =
     (case sv_pipe w of
        None \<Rightarrow> w
      | Some p \<Rightarrow>
          let st = pipeline_stats p
          in (slog ev L_info ''video'' ''pipeline stopped''
                [kv_of_int ''frames'' (pst_frames_in st), kv_of_int ''drops'' (pst_drops st)]
                (w\<lparr>sv_pipe := Some (snd (pipeline_stop p))\<rparr>))\<lparr>sv_pipe := None\<rparr>)"

definition video_frames :: "('c, 'n) world \<Rightarrow> u64" where
  "video_frames w = (case sv_pipe w of None \<Rightarrow> 0 | Some p \<Rightarrow> pst_frames_in (pipeline_stats p))"

definition video_on_bus :: "('c, 'n) env \<Rightarrow> bus_event \<Rightarrow> ('c, 'n) world \<Rightarrow> ('c, 'n) world" where
  "video_on_bus ev e w =
     (if be_kind e \<noteq> BK_error then w
      else slog ev L_error ''video'' ''bus error'' [kv_of_int ''code'' (ucast (be_code e))] w)"

text \<open>
  \<^verbatim>\<open>on_frame\<close>, called on a streaming thread (its log line is written here as if by thread 0):
  once per \<^verbatim>\<open>fps\<close> frames the detections of the latest inference go to the publisher, when a
  broker is configured, and one line to the log. \<open>None\<close> is a division by zero (a zero \<^verbatim>\<open>fps\<close>, which
  the command line cannot give, or a zero frame period in \<^verbatim>\<open>stride()\<close>), or a payload that gives the
  broker library more bytes than the buffer has. Detections are the only payload of the service that can:
  the others are shown to fit (\<open>payloads_fit\<close>; the state is \<^verbatim>\<open>OK\<close>, the identifiers are three).
\<close>

definition report_overruns :: "u64 \<Rightarrow> detected_object list \<Rightarrow> ('c, 'n) world \<Rightarrow> bool" where
  "report_overruns sq objects w \<longleftrightarrow>
     (case sv_pub w of
        None \<Rightarrow> False
      | Some p \<Rightarrow> p_client p \<noteq> None \<and>
          (case detections_payload sq objects of None \<Rightarrow> False | Some pl \<Rightarrow> 0 < pl_over pl))"

definition detected :: "detection \<Rightarrow> detected_object" where
  "detected d = \<lparr>do_label = de_label d, do_confidence = de_confidence d, do_x = word_of_int (de_x d),
     do_y = word_of_int (de_y d), do_w = word_of_int (de_w d), do_h = word_of_int (de_h d)\<rparr>"

definition video_on_frame ::
  "('c, 'n) env \<Rightarrow> options \<Rightarrow> frame_view \<Rightarrow> ('c, 'n) world \<Rightarrow> (flow_result \<times> ('c, 'n) world) option" where
  "video_on_frame ev ops f w =
     (if op_fps ops = 0 then None
      else if fv_seq f mod ucast (op_fps ops) \<noteq> 0 then Some (FR_ok, w)
      else case sv_yolo w of
             Some y \<Rightarrow>
               let objects = map detected (yolo_last y);
                   w1 = (if op_broker ops = '''' then w
                         else pub_do ev (publish_detections (ev_mosq ev) (fv_seq f) objects) w)
               in if op_broker ops \<noteq> '''' \<and> report_overruns (fv_seq f) objects w then None
                  else map_option (\<lambda>n. (FR_ok, slog ev L_info ''detect'' ''frame''
                       [kv_of_int ''objects'' (of_nat (length (yolo_last y))),
                        kv_of_int ''infer_ms'' (word_of_int (yolo_last_inference y div 1000)),
                        kv_of_int ''every'' (word_of_int n)] w1))
                    (yolo_stride (yo_cfg y) (yo_inference_us y))
           | None \<Rightarrow> Some (FR_ok, slog ev L_info ''video'' ''frame''
                       [kv_of_int ''seq'' (fv_seq f), kv_of_int ''bytes'' (of_nat (length (fv_data f)))] w))"

section \<open>TelemetryService\<close>

definition telemetry_init :: "('c, 'n) env \<Rightarrow> options \<Rightarrow> ('c, 'n) world \<Rightarrow> status \<times> ('c, 'n) world" where
  "telemetry_init ev ops w =
     (case publisher_create (ev_mosq ev)
             (telemetry_config_default\<lparr>tc_name := op_node ops, tc_host := op_broker ops\<rparr>) (sv_lib w) of
        (Inl e, l) \<Rightarrow> (Inl e, w\<lparr>sv_lib := l\<rparr>)
      | (Inr p, l) \<Rightarrow> (Inr (), w\<lparr>sv_lib := l, sv_pub := Some p\<rparr>))"

definition telemetry_start :: "('c, 'n) env \<Rightarrow> ('c, 'n) world \<Rightarrow> status \<times> ('c, 'n) world" where
  "telemetry_start ev w =
     (case sv_pub w of
        None \<Rightarrow> (fail mqtt_connect ''mosquitto_loop_start'', w)
      | Some p \<Rightarrow>
          (case publisher_start (ev_mosq ev) p of
             (r, p1) \<Rightarrow>
               let w1 = relay ev (p_logs p1) (w\<lparr>sv_pub := Some (p1\<lparr>p_logs := []\<rparr>)\<rparr>)
               in case r of
                    Inl e \<Rightarrow> (Inl e, w1)
                  | Inr _ \<Rightarrow> (Inr (), slog ev L_info ''telemetry'' ''publishing'' [] (w1\<lparr>sv_worker := True\<rparr>))))"

text \<open>The sampler and one turn of the worker, \<open>up\<close> seconds after the start.\<close>

definition sample_sensor :: "('c, 'n) env \<Rightarrow> ('c, 'n) world \<Rightarrow> sensor_sample \<times> ('c, 'n) world" where
  "sample_sensor ev w =
     (case reg_read (isp_backend ev) isp_gain (sv_isp w) of
        (g, m1) \<Rightarrow> (case reg_read (isp_backend ev) isp_temp_mc m1 of
          (t, m2) \<Rightarrow> (\<lparr>ss_gain = ucast g, ss_nuc = sv_nuc w, ss_temp_mc = scast t, ss_frame_cnt = video_frames w\<rparr>,
                      w\<lparr>sv_isp := m2\<rparr>)))"

definition telemetry_tick :: "('c, 'n) env \<Rightarrow> u64 \<Rightarrow> ('c, 'n) world \<Rightarrow> ('c, 'n) world" where
  "telemetry_tick ev up w =
     (let w1 = pub_do ev (publish_health (ev_mosq ev) \<lparr>hs_state = ''OK'', hs_uptime_s = up, hs_faults = 0\<rparr>) w
      in case sample_sensor ev w1 of
           (s, w2) \<Rightarrow> pub_do ev (publish_sensor (ev_mosq ev) s) w2)"

definition telemetry_stop :: "('c, 'n) env \<Rightarrow> ('c, 'n) world \<Rightarrow> ('c, 'n) world" where
  "telemetry_stop ev w =
     (let w1 = w\<lparr>sv_worker := False\<rparr>
      in case sv_pub w1 of
           None \<Rightarrow> w1
         | Some p \<Rightarrow>
             let st = publisher_stats p;
                 w2 = pub_do ev (publisher_stop (ev_mosq ev)) w1;
                 w3 = slog ev L_info ''telemetry'' ''stopped''
                        [kv_of_int ''published'' (ts_published st), kv_of_int ''failed'' (ts_failed st)] w2
             in case sv_pub w3 of
                  None \<Rightarrow> w3
                | Some p1 \<Rightarrow> w3\<lparr>sv_pub := None, sv_lib := snd (impl_dtor (ev_mosq ev) (p1, sv_lib w3))\<rparr>)"

section \<open>The correction timer\<close>

text \<open>
  The body of the timer thread: it sleeps 100 ms at a time, up to ten times per second asked for, and
  runs the correction unless a stop was requested. \<open>stop i\<close> is what the stop token says when it is
  read for the \<open>i\<close>th time round the loop; the read after the loop sees the same value. \<open>None\<close> when
  \<^verbatim>\<open>after * 10\<close> does not fit \<^verbatim>\<open>int\<close>, which the thread computes before its first sleep.
\<close>

definition timer_overflows :: "options \<Rightarrow> bool" where
  "timer_overflows ops \<longleftrightarrow> 0 < op_nuc_after ops \<and> 2 ^ 31 \<le> 10 * op_nuc_after ops"

primrec timer_sleeps :: "(nat \<Rightarrow> bool) \<Rightarrow> nat \<Rightarrow> nat \<Rightarrow> nat" where
  "timer_sleeps stop i 0 = i"
| "timer_sleeps stop i (Suc k) = (if stop i then i else timer_sleeps stop (Suc i) k)"

definition nuc_timer ::
  "('c, 'n) env \<Rightarrow> options \<Rightarrow> (nat \<Rightarrow> bool) \<Rightarrow> ('c, 'n) world \<Rightarrow> ('c, 'n) world option" where
  "nuc_timer ev ops stop w =
     (if op_nuc_after ops \<le> 0 then Some w
      else if timer_overflows ops then None
      else if stop (timer_sleeps stop 0 (nat (10 * op_nuc_after ops))) then Some w
      else sensor_run_nuc ev ops w)"

lemma nuc_timer_const [simp]:
  "nuc_timer ev ops (\<lambda>_. b) w = (if op_nuc_after ops \<le> 0 then Some w else if timer_overflows ops then None
     else if b then Some w else sensor_run_nuc ev ops w)"
  by (simp add: nuc_timer_def)

section \<open>The registered components\<close>

datatype svc = K_log | K_sensor | K_video | K_telemetry

definition svc_kinds :: "options \<Rightarrow> svc list" where
  "svc_kinds ops = [K_log, K_sensor] @ (if op_video ops then [K_video] else [])
     @ (if op_broker ops \<noteq> '''' then [K_telemetry] else [])"

primrec svc_component ::
  "('c, 'n) env \<Rightarrow> options \<Rightarrow> transform \<Rightarrow> svc \<Rightarrow> ('c, 'n) world component" where
  "svc_component ev ops tr K_log =
     \<lparr>comp_name = ''log'', comp_init = log_init, comp_start = log_start ev, comp_stop = log_stop ev\<rparr>"
| "svc_component ev ops tr K_sensor =
     \<lparr>comp_name = ''sensor'', comp_init = sensor_init ev, comp_start = sensor_start ev ops,
      comp_stop = sensor_stop ev\<rparr>"
| "svc_component ev ops tr K_video =
     \<lparr>comp_name = ''video'', comp_init = video_init ev ops tr, comp_start = video_start ev ops,
      comp_stop = video_stop ev\<rparr>"
| "svc_component ev ops tr K_telemetry =
     \<lparr>comp_name = ''telemetry'', comp_init = telemetry_init ev ops, comp_start = telemetry_start ev,
      comp_stop = telemetry_stop ev\<rparr>"

definition services :: "('c, 'n) env \<Rightarrow> options \<Rightarrow> transform \<Rightarrow> ('c, 'n) world component list" where
  "services ev ops tr = map (svc_component ev ops tr) (svc_kinds ops)"

definition initial_world :: "options \<Rightarrow> u64 \<Rightarrow> ('c, 'n) world" where
  "initial_world ops next_id =
     \<lparr>sv_log = (Map.empty, set_level (op_level ops) (fst (logger_ctor next_id))), sv_isp = fake_ctor [],
      sv_nuc = False, sv_yolo = None, sv_mail = mailbox_init, sv_pipe = None, sv_pub = None,
      sv_lib = \<lparr>lib_users = 0, lib_ready = False\<rparr>, sv_worker = False, sv_events = []\<rparr>"

text \<open>What \<^verbatim>\<open>main\<close> does between the start and the wait: one register read and one line.\<close>

definition service_up :: "('c, 'n) env \<Rightarrow> ('c, 'n) world \<Rightarrow> ('c, 'n) world" where
  "service_up ev w = (case reg_read (isp_backend ev) isp_temp_mc (sv_isp w) of
     (t, m) \<Rightarrow> slog ev L_info ''main'' ''service up'' [kv_of_int ''temp_mc'' (scast t)] (w\<lparr>sv_isp := m\<rparr>))"

section \<open>The logger and the publisher inside the world\<close>

lemma logger_log_joinable: "lg_joinable (snd (logger_log tid now l cname msg kvs st)) = lg_joinable (snd st)"
  by (cases st) (auto simp: logger_log_def producer_for_this_thread_def Let_def split: option.splits)

lemma slog_frame [simp]:
  "sv_isp (slog ev l cn msg kvs w) = sv_isp w" "sv_pipe (slog ev l cn msg kvs w) = sv_pipe w"
  "sv_pub (slog ev l cn msg kvs w) = sv_pub w" "sv_worker (slog ev l cn msg kvs w) = sv_worker w"
  "sv_lib (slog ev l cn msg kvs w) = sv_lib w" "sv_nuc (slog ev l cn msg kvs w) = sv_nuc w"
  "sv_events (slog ev l cn msg kvs w) = sv_events w" "sv_yolo (slog ev l cn msg kvs w) = sv_yolo w"
  "sv_mail (slog ev l cn msg kvs w) = sv_mail w"
  "lg_joinable (snd (sv_log (slog ev l cn msg kvs w))) = lg_joinable (snd (sv_log w))"
  "logger_ok (sv_log w) \<Longrightarrow> logger_ok (sv_log (slog ev l cn msg kvs w))"
  by (simp_all add: slog_def logger_log_joinable logger_log_ok)

lemma relay_frame [simp]:
  "sv_isp (relay ev ls w) = sv_isp w" "sv_pipe (relay ev ls w) = sv_pipe w"
  "sv_pub (relay ev ls w) = sv_pub w" "sv_worker (relay ev ls w) = sv_worker w"
  "sv_lib (relay ev ls w) = sv_lib w" "sv_nuc (relay ev ls w) = sv_nuc w"
  "sv_events (relay ev ls w) = sv_events w" "sv_yolo (relay ev ls w) = sv_yolo w"
  "sv_mail (relay ev ls w) = sv_mail w"
  "lg_joinable (snd (sv_log (relay ev ls w))) = lg_joinable (snd (sv_log w))"
  "logger_ok (sv_log w) \<Longrightarrow> logger_ok (sv_log (relay ev ls w))"
  unfolding relay_def by (induction ls arbitrary: w) (simp_all add: case_prod_beta)

lemma pub_do_frame [simp]:
  "sv_isp (pub_do ev f w) = sv_isp w" "sv_pipe (pub_do ev f w) = sv_pipe w"
  "sv_worker (pub_do ev f w) = sv_worker w" "sv_lib (pub_do ev f w) = sv_lib w"
  "sv_nuc (pub_do ev f w) = sv_nuc w" "sv_events (pub_do ev f w) = sv_events w" "sv_yolo (pub_do ev f w) = sv_yolo w"
  "sv_mail (pub_do ev f w) = sv_mail w"
  "(sv_pub (pub_do ev f w) = None) = (sv_pub w = None)"
  "lg_joinable (snd (sv_log (pub_do ev f w))) = lg_joinable (snd (sv_log w))"
  "logger_ok (sv_log w) \<Longrightarrow> logger_ok (sv_log (pub_do ev f w))"
  by (auto simp: pub_do_def Let_def split: option.splits)

end
