(* ===== verification/Service_Run.thy ===== *)
theory Service_Run
  imports Service_Main
begin

text \<open>
  The service while it runs (\<^verbatim>\<open>main.cpp\<close>, \<^verbatim>\<open>pipeline.cpp\<close>, \<^verbatim>\<open>yolo.cpp\<close>).
  One frame: the sample callback maps the buffer, the transform installed by
  \<^verbatim>\<open>VideoService::init\<close> runs the detector on it and draws, \<^verbatim>\<open>on_frame\<close> reports, and the
  frame is pushed on; the worker of the detector takes its frames from the mailbox. What the threads do
  between the start and the stop is a list of events, each one whole callback or turn, in any order;
  \<^verbatim>\<open>main\<close> is the start, such a list, and the stop.
\<close>

section \<open>Operations\<close>

text \<open>\<open>None\<close> inside is a pipeline without a transform, \<open>None\<close> outside behaviour that is not defined.\<close>

definition detector_turn ::
  "('c, 'n) env \<Rightarrow> bool \<Rightarrow> frame_view \<Rightarrow> ('c, 'n) world \<Rightarrow> ((process_result \<times> u8 list) option \<times> ('c, 'n) world) option" where
  "detector_turn ev got_lock v w =
     (case sv_yolo w of
        None \<Rightarrow> Some (None, w)
      | Some y \<Rightarrow>
          map_option (\<lambda>(r, out, y1, mb). (Some (r, wf_data out), w\<lparr>sv_yolo := Some y1, sv_mail := mb\<rparr>))
            (yolo_process (ev_dnn ev) got_lock v (writable_of v) (y, sv_mail w)))"

text \<open>The view the frame sink is shown: the same memory, after the transform.\<close>

definition shown :: "frame_view \<Rightarrow> (process_result \<times> u8 list) option \<Rightarrow> frame_view" where
  "shown v answer = (case answer of None \<Rightarrow> v | Some (r, bytes) \<Rightarrow> v\<lparr>fv_data := bytes\<rparr>)"

definition sample_buffer :: "gst_sample option \<Rightarrow> (gst_sample \<times> gst_buffer) option" where
  "sample_buffer sample =
     (case sample of None \<Rightarrow> None
      | Some sm \<Rightarrow> (case sm_buffer sm of None \<Rightarrow> None
          | Some b \<Rightarrow> if bf_map_ok b then Some (sm, b) else None))"

text \<open>
  The callback with the service behind it: the transform's answer and the sink's verdict are those of
  the service, in the order the callback asks for them.
\<close>

definition video_new_sample ::
  "('c, 'n) env \<Rightarrow> options \<Rightarrow> gst_sample option \<Rightarrow> bool \<Rightarrow> bool \<Rightarrow> pipeline \<Rightarrow> ('c, 'n) world \<Rightarrow>
   (gst_flow \<times> ('c, 'n) world) option" where
  "video_new_sample ev ops sample got_lock push_ok p w =
     (case sample_buffer sample of
        None \<Rightarrow> (case on_new_sample sample FR_ok push_ok p of (fl, p1) \<Rightarrow> Some (fl, w\<lparr>sv_pipe := Some p1\<rparr>))
      | Some (sm, b) \<Rightarrow>
          let v = sample_view sm b p in
          (case detector_turn ev got_lock v w of
             None \<Rightarrow> None
           | Some (answer, w1) \<Rightarrow>
               (case video_on_frame ev ops (shown v answer) w1 of
                  None \<Rightarrow> None
                | Some (verdict, w2) \<Rightarrow>
                    (case on_new_sample sample verdict push_ok
                            (p\<lparr>pl_transform := map_option (\<lambda>a u out. a) answer\<rparr>) of
                       (fl, p1) \<Rightarrow> Some (fl, w2\<lparr>sv_pipe := Some (p1\<lparr>pl_transform := pl_transform p\<rparr>)\<rparr>)))))"

text \<open>One turn of the detector's worker: take, detect, release.\<close>

definition detector_worker :: "('c, 'n) env \<Rightarrow> ('c, 'n) world \<Rightarrow> ('c, 'n) world option" where
  "detector_worker ev w =
     (case sv_yolo w of
        None \<Rightarrow> Some w
      | Some y \<Rightarrow>
          let mb = worker_take (sv_mail w) in
          (case mb_taken mb of
             None \<Rightarrow> Some (w\<lparr>sv_mail := mb\<rparr>)
           | Some (pix, fw, fh) \<Rightarrow>
               map_option (\<lambda>y1. w\<lparr>sv_yolo := Some y1, sv_mail := worker_release (pix, fw, fh) mb\<rparr>)
                 (detect (ev_dnn ev) pix fw fh y)))"

section \<open>What happens between the start and the stop\<close>

text \<open>
  A frame, a bus message, a turn of the detector's worker, a turn of the telemetry worker, the
  correction timer going off (with no stop requested; the program's timer goes off once, a list may have
  it more often), and the two callbacks of the broker library.
\<close>

datatype run_event =
    Ev_frame "gst_sample option" bool bool
  | Ev_bus gst_message
  | Ev_detector
  | Ev_tick u64
  | Ev_nuc
  | Ev_connect int
  | Ev_disconnect

definition video_bus :: "('c, 'n) env \<Rightarrow> gst_message \<Rightarrow> pipeline \<Rightarrow> ('c, 'n) world \<Rightarrow> ('c, 'n) world" where
  "video_bus ev msg p w =
     (let p1 = dispatch msg p
      in fold (video_on_bus ev) (drop (length (pl_bus_log p)) (pl_bus_log p1)) (w\<lparr>sv_pipe := Some p1\<rparr>))"

fun run_step :: "('c, 'n) env \<Rightarrow> options \<Rightarrow> run_event \<Rightarrow> ('c, 'n) world \<Rightarrow> ('c, 'n) world option" where
  "run_step ev ops (Ev_frame sample got_lock push_ok) w =
     (case sv_pipe w of
        Some p \<Rightarrow> if pl_callbacks p then map_option snd (video_new_sample ev ops sample got_lock push_ok p w) else Some w
      | None \<Rightarrow> Some w)"
| "run_step ev ops (Ev_bus msg) w =
     (case sv_pipe w of
        Some p \<Rightarrow> Some (if pl_bus_thread p then video_bus ev msg p w else w)
      | None \<Rightarrow> Some w)"
| "run_step ev ops Ev_detector w = (if mb_worker (sv_mail w) then detector_worker ev w else Some w)"
| "run_step ev ops (Ev_tick up) w = Some (if sv_worker w then telemetry_tick ev up w else w)"
| "run_step ev ops Ev_nuc w = nuc_timer ev ops (\<lambda>_. False) w"
| "run_step ev ops (Ev_connect rc) w = Some (pub_do ev (on_connect rc) w)"
| "run_step ev ops Ev_disconnect w = Some (pub_do ev on_disconnect w)"

fun run_events :: "('c, 'n) env \<Rightarrow> options \<Rightarrow> run_event list \<Rightarrow> ('c, 'n) world \<Rightarrow> ('c, 'n) world option" where
  "run_events ev ops [] w = Some w"
| "run_events ev ops (e # es) w = Option.bind (run_step ev ops e w) (run_events ev ops es)"

text \<open>From the start of the timer thread to the stop.\<close>

definition service_run :: "('c, 'n) env \<Rightarrow> options \<Rightarrow> run_event list \<Rightarrow> ('c, 'n) world \<Rightarrow> ('c, 'n) world option" where
  "service_run ev ops evs w = (if timer_overflows ops then None else run_events ev ops evs w)"

section \<open>The program\<close>

text \<open>
  The locals of \<^verbatim>\<open>main\<close> are destroyed when it returns: the video service with its detector, whose
  worker is joined, and the logger last. The publisher and the pipeline are gone by then
  (\<open>Service_Suite\<close> shows it), so their destructors have nothing left to do.
\<close>

definition service_exit :: "('c, 'n) world \<Rightarrow> ('c, 'n) world" where
  "service_exit w =
     (let w1 = w\<lparr>sv_yolo := None, sv_mail := stop_worker (sv_mail w)\<rparr>
      in case logger_dtor (snd (sv_log w1)) of
           None \<Rightarrow> w1
         | Some lg \<Rightarrow> w1\<lparr>sv_log := (fst (sv_log w1), lg)\<rparr>)"

text \<open>
  The timer thread is joined only when \<^verbatim>\<open>main\<close> returns, after \<^verbatim>\<open>app.stop()\<close>: its
  correction can still run on the stopped service. \<open>late\<close> says whether it does, or the timer sees the
  stop request that comes with the join.
\<close>

definition late_nuc :: "('c, 'n) env \<Rightarrow> options \<Rightarrow> bool \<Rightarrow> ('c, 'n) world \<Rightarrow> ('c, 'n) world option" where
  "late_nuc ev ops late w = nuc_timer ev ops (\<lambda>_. \<not> late) w"

section \<open>What is printed besides the log\<close>

definition usage_lines :: "string list" where
  "usage_lines =
     [''usage: optronic [--gain N] [--width N] [--height N] [--fps N]'',
      ''                [--stream] [--host H] [--port P] [--seconds N]'',
      ''                [--broker HOST] [--node NAME] [--no-video] [--nuc N]'',
      ''                [--camera] [--device /dev/videoN] [--pattern N]'',
      ''                [--detect] [--model models/yolov5s.onnx]'',
      ''                [--input-size N] [--detect-sync]'',
      ''                [--debug|--quiet]'',
      [],
      ''Without --stream the encoded frames are discarded, so the service'',
      ''runs anywhere. With it, receive them e.g. with'',
      ''  gst-launch-1.0 udpsrc port=5600 ! application/x-rtp,encoding-name=H264 '' @ [CHR 0x5C],
      ''    ! rtph264depay ! avdec_h264 ! autovideosink'',
      [],
      ''--broker enables MQTT telemetry; watch it with'',
      ''  mosquitto_sub -v -t '' @ [CHR 0x27] @ ''optronic/#'' @ [CHR 0x27]]"

definition usage_text :: string where
  "usage_text = concat (map (\<lambda>l. l @ [NL]) usage_lines)"

text \<open>\<^verbatim>\<open>%04x\<close>\<close>

definition hex_digit :: "nat \<Rightarrow> char" where
  "hex_digit d = ''0123456789abcdef'' ! (d mod 16)"

fun hex :: "nat \<Rightarrow> string" where
  "hex n = (if n < 16 then [hex_digit n] else hex (n div 16) @ [hex_digit n])"

declare hex.simps [simp del]

text \<open>A failed start: the line printed straight to \<^verbatim>\<open>stderr\<close>, where the logger writes too.\<close>

definition abort_line :: "error_t \<Rightarrow> string" where
  "abort_line e = ''startup aborted at '' @ [CHR 0x27] @ c_str (err_where e) @ [CHR 0x27] @
     '' (code 0x'' @ pad_left 4 (CHR ''0'') (hex (unat (code_val (err_code e)))) @ '')'' @ [NL]"

definition startup_aborted :: "error_t \<Rightarrow> ('c, 'n) world \<Rightarrow> ('c, 'n) world" where
  "startup_aborted e w =
     (let lg = snd (sv_log w) in w\<lparr>sv_log := (fst (sv_log w), lg\<lparr>lg_out := lg_out lg @ abort_line e\<rparr>)\<rparr>)"

text \<open>
  \<^verbatim>\<open>main\<close>: the arguments after the program name, what happens while the service runs, whether the
  correction runs late, the schedule of the stop request, and the world at the exit. \<open>None\<close> when the stop
  never comes, or the timer or an event has no defined behaviour.
\<close>

definition service_main ::
  "('c, 'n) env \<Rightarrow> transform \<Rightarrow> run_event list \<Rightarrow> bool \<Rightarrow> u64 \<Rightarrow> string list \<Rightarrow> bool list \<Rightarrow>
   (int \<times> ('c, 'n) world option) option" where
  "service_main ev tr evs late next_id args sched =
     (case parse_args args options_default of
        None \<Rightarrow> Some (2, None)
      | Some ops \<Rightarrow>
          (case app_start (app_of (services ev ops tr)) (initial_world ops next_id) of
             (Inl e, a, w) \<Rightarrow> Some (1, Some (service_exit (startup_aborted e w)))
           | (Inr _, a, w) \<Rightarrow>
               (case app_wait_for_stop sched a of
                  None \<Rightarrow> None
                | Some a1 \<Rightarrow>
                    map_option (\<lambda>w2. (0, Some (service_exit w2)))
                      (Option.bind (service_run ev ops evs (service_up ev w))
                        (\<lambda>w1. late_nuc ev ops late (snd (app_stop a1 w1)))))))"

text \<open>The exit code with everything \<^verbatim>\<open>stderr\<close> has received.\<close>

definition service_stderr ::
  "('c, 'n) env \<Rightarrow> transform \<Rightarrow> run_event list \<Rightarrow> bool \<Rightarrow> u64 \<Rightarrow> string list \<Rightarrow> bool list \<Rightarrow> (int \<times> string) option" where
  "service_stderr ev tr evs late next_id args sched =
     map_option (\<lambda>(code, wo). (code, case wo of None \<Rightarrow> usage_text | Some w \<Rightarrow> lg_out (snd (sv_log w))))
       (service_main ev tr evs late next_id args sched)"

section \<open>Drawing keeps the chroma rows\<close>

lemma draw_rect_length [simp]: "length (draw_rect plane stride height x y w h) = length plane"
proof -
  have "length (fold (\<lambda>(px, py). put stride height px py) pts plane) = length plane" for pts
    by (induction pts arbitrary: plane) auto
  then show ?thesis by (simp add: draw_rect_points)
qed

lemma draw_rect_below:
  assumes "stride * height \<le> i"
  shows "draw_rect plane stride height x y w h ! i = plane ! i"
proof -
  have "put stride height px py pl ! i = pl ! i" for px py and pl :: "u8 list"
  proof -
    have "nat py * stride + nat px < stride * height" if "nat px < stride" "nat py < height"
    proof -
      have "nat py * stride + nat px < Suc (nat py) * stride" using that(1) by simp
      also have "\<dots> \<le> height * stride" using that(2) by (intro mult_le_mono) auto
      finally show ?thesis by (simp add: mult.commute)
    qed
    then show ?thesis using assms by (auto simp: put_def Let_def)
  qed
  then have "fold (\<lambda>(px, py). put stride height px py) pts pl ! i = pl ! i" for pts pl
    by (induction pts arbitrary: pl) auto
  then show ?thesis by (simp add: draw_rect_points)
qed

lemma draw_boxes_outside:
  assumes "(if wf_stride out \<noteq> 0 then unat (wf_stride out) else unat (fv_width inp)) * unat (fv_height inp) \<le> i"
  shows "draw_boxes inp out ds ! i = wf_data out ! i"
proof -
  have "fold (\<lambda>d pl. draw_rect pl s h (de_x d) (de_y d) (de_w d) (de_h d)) ds pl ! i = pl ! i"
    if "s * h \<le> i" for s h and pl :: "u8 list"
    using that by (induction ds arbitrary: pl) (simp_all add: draw_rect_below)
  then show ?thesis using assms by (simp add: draw_boxes_def)
qed

lemma draw_boxes_length [simp]: "length (draw_boxes inp out ds) = length (wf_data out)"
proof -
  have "length (fold (\<lambda>d pl. draw_rect pl s h (de_x d) (de_y d) (de_w d) (de_h d)) ds pl) = length pl"
    for s h and pl :: "u8 list"
    by (induction ds arbitrary: pl) simp_all
  then show ?thesis by (simp add: draw_boxes_def)
qed

section \<open>The pieces of one frame\<close>

text \<open>A frame of the given geometry that holds its luma plane; the mailbox afterwards.\<close>

definition whole_plane :: "u32 \<Rightarrow> u32 \<Rightarrow> u8 list \<Rightarrow> bool" where
  "whole_plane width height bytes \<longleftrightarrow> 0 < sint width \<and> 0 < sint height
     \<and> unat height * unat width \<le> length bytes"

definition luma_plane :: "u32 \<Rightarrow> u32 \<Rightarrow> u8 list \<Rightarrow> u8 list" where
  "luma_plane width height bytes = take (unat height * unat width) bytes"

definition offered :: "bool \<Rightarrow> u32 \<Rightarrow> u32 \<Rightarrow> u8 list \<Rightarrow> mailbox \<Rightarrow> mailbox" where
  "offered got_lock width height bytes m =
     (let m1 = m\<lparr>mb_worker := True\<rparr>; pix = luma_plane width height bytes
      in if \<not> got_lock \<or> mb_pending m then m1
         else m1\<lparr>mb_pixels := pix, mb_w := sint width, mb_h := sint height, mb_pending := True,
                 mb_accepted := mb_accepted m @ [(pix, sint width, sint height)]\<rparr>)"

lemma sint_positive:
  "0 < sint (x :: u32) \<Longrightarrow> nat (sint x) = unat x \<and> sint x < 2 ^ 31"
proof -
  assume p: "0 < sint x"
  have b: "sint x < 2 ^ 31" using sint_lt [of x] by simp
  have "word_of_int (sint x) = x" by simp
  then have "uint x = uint (word_of_int (sint x) :: u32)" by simp
  also have "\<dots> = sint x" using p b by (subst unsigned_of_int) (simp add: take_bit_int_eq_self)
  finally have "uint x = sint x" .
  then show ?thesis using b by (simp add: unat_eq_nat_uint)
qed

lemma offer_plane:
  assumes "whole_plane (fv_width v) (fv_height v) (fv_data v)" and "fv_stride v = fv_width v"
  shows "offer got_lock v (sint (fv_width v)) (sint (fv_height v)) m
    = Some (offered got_lock (fv_width v) (fv_height v) (fv_data v) m)"
proof -
  have w: "0 < sint (fv_width v)" "nat (sint (fv_width v)) = unat (fv_width v)" "sint (fv_width v) < 2 ^ 31"
    and h: "0 < sint (fv_height v)" "nat (sint (fv_height v)) = unat (fv_height v)" "sint (fv_height v) < 2 ^ 31"
    using assms(1) sint_positive [of "fv_width v"] sint_positive [of "fv_height v"] by (auto simp: whole_plane_def)
  have "(if fv_stride v \<noteq> 0 then unat (fv_stride v) else nat (sint (fv_width v))) = nat (sint (fv_width v))"
    using w(2) assms(2) by simp
  from offer_whole [OF h(1) _ w(3) h(3) this, of got_lock m] w h assms(1) show ?thesis
    by (cases "mb_worker m") (simp_all add: whole_plane_def offered_def luma_plane_def start_worker_def Let_def)
qed

lemma yolo_process_async:
  assumes "yc_async (yo_cfg y)" and "fv_data v \<noteq> []" and "fv_stride v = fv_width v"
    and "whole_plane (fv_width v) (fv_height v) (fv_data v)" and "\<forall>d \<in> set (yo_last y). drawable d"
  shows "yolo_process dn got_lock v (writable_of v) (y, mb) =
     Some (PR_kept, (writable_of v)\<lparr>wf_data := draw_boxes v (writable_of v) (yo_last y)\<rparr>,
           y\<lparr>yo_frame := yo_frame y + 1\<rparr>, offered got_lock (fv_width v) (fv_height v) (fv_data v) mb)"
  using assms offer_plane [OF assms(4,3)] by (simp add: yolo_process_def writable_of_def Let_def)

text \<open>A list of detections whose text is sure to fit the payload, when it is published at all.\<close>

definition report_fits :: "options \<Rightarrow> detection list \<Rightarrow> bool" where
  "report_fits ops ds \<longleftrightarrow> op_broker ops = [] \<or> length (objects_json 0 (map detected ds)) \<le> 1943"

lemma report_within:
  assumes "report_fits ops (yo_last y)"
  shows "\<not> (op_broker ops \<noteq> [] \<and> report_overruns sq (map detected (yo_last y)) w)"
proof
  let ?obs = "map detected (yo_last y)"
  assume o: "op_broker ops \<noteq> [] \<and> report_overruns sq ?obs w"
  then have l: "length (objects_json 0 ?obs) \<le> 1943" using assms by (simp add: report_fits_def)
  obtain m pl where d: "detections_payload sq ?obs = Some pl"
    "let full = detections_head sq (of_nat (length ?obs)) @ objects_json 0 (take m ?obs) @ detections_tail (m < length ?obs)
     in (if length full < 2048 then pl = \<lparr>pl_bytes = full, pl_over = 0\<rparr>
         else pl_over pl = length full - 2048 \<and> length full \<le> 2051 \<and> length (pl_bytes pl) = 2048)"
    "length (detections_head sq (of_nat (length ?obs))) + length (objects_json 0 ?obs) \<le> 2031 \<longrightarrow> m = length ?obs"
    using detections_payload_spec [of sq ?obs] by blast
  have h: "length (detections_head sq (of_nat (length ?obs))) \<le> 85" by (rule length_detections_head)
  then have m: "m = length ?obs" using d(3) l by simp
  have "length (detections_head sq (of_nat (length ?obs)) @ objects_json 0 (take m ?obs) @ detections_tail (m < length ?obs)) \<le> 2048"
    using h l unfolding m by (simp add: length_detections_tail)
  then have "pl_over pl = 0" using d(2) unfolding Let_def by (simp split: if_splits)
  then show False using o d(1) by (auto simp: report_overruns_def split: option.splits)
qed

lemma on_frame_answers:
  assumes "sv_yolo w = Some y" and "op_fps ops \<noteq> 0" and "yc_frame_period_us (yo_cfg y) \<noteq> 0"
    and "report_fits ops (yo_last y)"
  obtains w' where "video_on_frame ev ops f w = Some (FR_ok, w')" and "sv_yolo w' = sv_yolo w"
    and "sv_mail w' = sv_mail w" and "sv_pipe w' = sv_pipe w" and "sv_isp w' = sv_isp w"
proof -
  have "\<exists>n. yolo_stride (yo_cfg y) (yo_inference_us y) = Some n"
    using assms(3) by (simp add: yolo_stride_def Let_def)
  then obtain n where "yolo_stride (yo_cfg y) (yo_inference_us y) = Some n" ..
  then show ?thesis using that assms(1-3) report_within [OF assms(4), of "fv_seq f" w]
    by (cases "fv_seq f mod ucast (op_fps ops) = 0") (auto simp: video_on_frame_def Let_def)
qed

lemma callback_with_answer:
  assumes "sample_buffer sample = Some (sm, b)" and "pl_has_appsrc p"
  shows "on_new_sample sample FR_ok push_ok (p\<lparr>pl_transform := map_option (\<lambda>a u out. a) (Some (PR_kept, bytes))\<rparr>) =
    (Flow_ok, let p3 = p\<lparr>pl_transform := Some (\<lambda>u out. (PR_kept, bytes)), pl_frames_in := pl_frames_in p + 1,
         pl_views := pl_views p @ [(sample_view sm b p)\<lparr>fv_data := bytes\<rparr>]\<rparr>
       in if push_ok then p3\<lparr>pl_frames_out := pl_frames_out p + 1, pl_pushed := pl_pushed p @ [bytes]\<rparr>
          else p3\<lparr>pl_drops := pl_drops p + 1\<rparr>)"
  using assms by (auto simp: sample_buffer_def on_new_sample_def sample_view_def Let_def split: option.splits if_splits)

lemma frame_async:
  assumes "sample_buffer sample = Some (sm, b)" and "bf_data b \<noteq> []" and "sv_yolo w = Some y"
    and "yc_async (yo_cfg y)" and "yc_frame_period_us (yo_cfg y) \<noteq> 0" and "op_fps ops \<noteq> 0"
    and "pl_has_appsrc p"
    and "whole_plane (sp_width (ps_source (pl_spec p))) (sp_height (ps_source (pl_spec p))) (bf_data b)"
    and "\<forall>d \<in> set (yo_last y). drawable d" and "report_fits ops (yo_last y)"
  shows "\<exists>w' p' bytes. video_new_sample ev ops sample got_lock push_ok p w = Some (Flow_ok, w') \<and> sv_pipe w' = Some p'
    \<and> bytes = draw_boxes (sample_view sm b p) (writable_of (sample_view sm b p)) (yo_last y)
    \<and> pl_pushed p' = pl_pushed p @ (if push_ok then [bytes] else []) \<and> fv_data (last (pl_views p')) = bytes
    \<and> length bytes = length (bf_data b)
    \<and> (\<forall>i \<ge> unat (sp_width (ps_source (pl_spec p))) * unat (sp_height (ps_source (pl_spec p))). bytes ! i = bf_data b ! i)
    \<and> sv_mail w' = offered got_lock (sp_width (ps_source (pl_spec p))) (sp_height (ps_source (pl_spec p))) (bf_data b) (sv_mail w)
    \<and> sv_yolo w' = Some (y\<lparr>yo_frame := yo_frame y + 1\<rparr>)
    \<and> pl_frames_in p' = pl_frames_in p + 1
    \<and> pl_frames_out p' = pl_frames_out p + (if push_ok then 1 else 0)
    \<and> pl_drops p' = pl_drops p + (if push_ok then 0 else 1) \<and> pl_transform p' = pl_transform p
    \<and> pl_spec p' = pl_spec p \<and> pl_has_appsrc p' \<and> pl_callbacks p' = pl_callbacks p"
proof -
  let ?v = "sample_view sm b p"
  let ?bytes = "draw_boxes ?v (writable_of ?v) (yo_last y)"
  let ?mb = "offered got_lock (fv_width ?v) (fv_height ?v) (fv_data ?v) (sv_mail w)"
  let ?w1 = "w\<lparr>sv_yolo := Some (y\<lparr>yo_frame := yo_frame y + 1\<rparr>), sv_mail := ?mb\<rparr>"
  have turn: "detector_turn ev got_lock ?v w = Some (Some (PR_kept, ?bytes), ?w1)"
    using assms(2-4,8,9) yolo_process_async [of y ?v] by (simp add: detector_turn_def sample_view_def)
  obtain w2 where w2: "video_on_frame ev ops (shown ?v (Some (PR_kept, ?bytes))) ?w1 = Some (FR_ok, w2)"
    "sv_yolo w2 = sv_yolo ?w1" "sv_mail w2 = sv_mail ?w1" "sv_pipe w2 = sv_pipe ?w1"
    by (rule on_frame_answers [of ?w1 "y\<lparr>yo_frame := yo_frame y + 1\<rparr>" ops]) (use assms in auto)
  have out: "?bytes ! i = bf_data b ! i"
    if "unat (sp_width (ps_source (pl_spec p))) * unat (sp_height (ps_source (pl_spec p))) \<le> i" for i
    using draw_boxes_outside [of "writable_of ?v" ?v i "yo_last y"] that
    by (simp add: writable_of_def sample_view_def)
  show ?thesis
    using assms(1,7) turn w2 out callback_with_answer [OF assms(1,7), of push_ok ?bytes]
    by (auto simp: video_new_sample_def Let_def writable_of_def sample_view_def)
qed

lemma detect_keeps: "detect dn luma fw fh y = Some y2 \<Longrightarrow> yo_cfg y2 = yo_cfg y \<and> yo_frame y2 = yo_frame y"
  by (auto simp: detect_def Let_def split: outcome.splits prod.splits if_splits)

section \<open>Properties\<close>

text \<open>
  C5. A frame through the service with inference in the worker. The frame holds its luma plane, as the
  negotiated caps promise; the boxes to draw and the report to publish are within their bounds (what
  happens otherwise is undefined). Then the callback returns, what is pushed to the delivery side and
  what the frame sink was shown is the captured frame with the boxes of the latest finished inference
  drawn in; it has the captured frame's length and every byte behind the luma plane is as captured; the
  worker is there, and a free mailbox takes exactly the luma plane as captured, without boxes; the
  counters move by one frame in and one frame out, or one drop when the delivery side refuses it.
\<close>

theorem frame_through_detector:
  assumes "sample_buffer sample = Some (sm, b)" and "bf_data b \<noteq> []" and "sv_yolo w = Some y"
    and "yc_async (yo_cfg y)" and "yc_frame_period_us (yo_cfg y) \<noteq> 0" and "op_fps ops \<noteq> 0"
    and "pl_has_appsrc p"
    and "whole_plane (sp_width (ps_source (pl_spec p))) (sp_height (ps_source (pl_spec p))) (bf_data b)"
    and "\<forall>d \<in> set (yo_last y). drawable d" and "report_fits ops (yo_last y)"
  shows "\<exists>w' p' bytes. video_new_sample ev ops sample got_lock push_ok p w = Some (Flow_ok, w') \<and> sv_pipe w' = Some p'
    \<and> bytes = draw_boxes (sample_view sm b p) (writable_of (sample_view sm b p)) (yo_last y)
    \<and> pl_pushed p' = pl_pushed p @ (if push_ok then [bytes] else []) \<and> fv_data (last (pl_views p')) = bytes
    \<and> length bytes = length (bf_data b)
    \<and> (\<forall>i \<ge> unat (sp_width (ps_source (pl_spec p))) * unat (sp_height (ps_source (pl_spec p))). bytes ! i = bf_data b ! i)
    \<and> sv_mail w' = offered got_lock (sp_width (ps_source (pl_spec p))) (sp_height (ps_source (pl_spec p))) (bf_data b) (sv_mail w)
    \<and> sv_yolo w' = Some (y\<lparr>yo_frame := yo_frame y + 1\<rparr>)
    \<and> pl_frames_in p' = pl_frames_in p + 1
    \<and> pl_frames_out p' = pl_frames_out p + (if push_ok then 1 else 0)
    \<and> pl_drops p' = pl_drops p + (if push_ok then 0 else 1) \<and> pl_transform p' = pl_transform p
    \<and> pl_spec p' = pl_spec p \<and> pl_has_appsrc p' \<and> pl_callbacks p' = pl_callbacks p"
  by (rule frame_async [OF assms])

text \<open>A world with a detector, a pipeline and one captured frame.\<close>

definition demo_env :: "(unit, unit) env" where
  "demo_env = \<lparr>ev_clock = steady_every 0, ev_stamp = (\<lambda>n. n), ev_now = 0, ev_mosq = refusing_mosq,
     ev_parse = (\<lambda>_. (True, False)), ev_by_name = (\<lambda>_ _. True), ev_set_ok = True, ev_get_ok = True,
     ev_names = (\<lambda>_. None), ev_onnx = (\<lambda>_. Read_throws), ev_darknet = (\<lambda>_ _. Read_throws),
     ev_dnn = \<lparr>dn_detect = (\<lambda>_ _ _ _ _ _ _. None), dn_forward = (\<lambda>_ _ _ _ _. None), dn_max_loc = (\<lambda>_. None),
       dn_nms = (\<lambda>_ _ _ _. None), dn_elapsed = (\<lambda>_ _. 0)\<rparr>\<rparr>"

definition demo_world :: "(unit, unit) world" where
  "demo_world = (initial_world options_default 0)\<lparr>sv_yolo := Some demo_yolo, sv_pipe := Some demo_pipeline\<rparr>"

definition demo_bytes :: "u8 list" where
  "demo_bytes = replicate 1382400 16"

lemma length_demo_bytes [simp]: "length demo_bytes = 1382400"
  unfolding demo_bytes_def by (rule length_replicate)

definition demo_sample :: gst_sample where
  "demo_sample = \<lparr>sm_buffer = Some \<lparr>bf_map_ok = True, bf_data = demo_bytes, bf_pts = None\<rparr>, sm_caps = None\<rparr>"

lemma demo_bytes_nonempty: "demo_bytes \<noteq> []"
  using length_demo_bytes by fastforce

lemma demo_frame_facts:
  "sample_buffer (Some demo_sample) = Some (demo_sample, \<lparr>bf_map_ok = True, bf_data = demo_bytes, bf_pts = None\<rparr>)"
  "sv_yolo demo_world = Some demo_yolo" "yc_async (yo_cfg demo_yolo)"
  "yc_frame_period_us (yo_cfg demo_yolo) \<noteq> 0" "op_fps options_default \<noteq> 0" "pl_has_appsrc demo_pipeline"
  "whole_plane (sp_width (ps_source (pl_spec demo_pipeline))) (sp_height (ps_source (pl_spec demo_pipeline))) demo_bytes"
  "\<forall>d \<in> set (yo_last demo_yolo). drawable d" "report_fits options_default (yo_last demo_yolo)"
  by (simp_all add: sample_buffer_def demo_sample_def demo_world_def demo_yolo_def yolo_config_default_def
      options_default_def demo_pipeline_def pipeline_spec_default_def source_spec_default_def whole_plane_def
      report_fits_def)

theorem frame_through_detector_witness:
  "\<exists>w' p'. video_new_sample demo_env options_default (Some demo_sample) True False demo_pipeline demo_world
      = Some (Flow_ok, w') \<and> sv_pipe w' = Some p' \<and> pl_drops p' = 1 \<and> pl_frames_in p' = 1
     \<and> length (mb_pixels (sv_mail w')) = 1280 * 720"
proof -
  have b: "bf_data \<lparr>bf_map_ok = True, bf_data = demo_bytes, bf_pts = None\<rparr> \<noteq> []" by (simp add: demo_bytes_nonempty)
  show ?thesis
    using frame_through_detector [OF demo_frame_facts(1) b demo_frame_facts(2-6) _ demo_frame_facts(8,9), of demo_env True False]
      demo_frame_facts(7)
    by (auto simp: demo_pipeline_def offered_def demo_world_def initial_world_def mailbox_init_def luma_plane_def
        pipeline_spec_default_def source_spec_default_def Let_def)
qed

text \<open>
  C4. A captured frame reaches the overlay: when the slot is free and frames hold their luma planes, a
  frame is offered as captured, the worker's next turn runs the network on exactly its luma plane, the
  slot is free again, and what is pushed for the following frame is that frame with the boxes of this
  inference drawn in.
\<close>

theorem detections_reach_overlay:
  assumes "sample_buffer s1 = Some (sm1, b1)" and "bf_data b1 \<noteq> []"
    and "sample_buffer s2 = Some (sm2, b2)" and "bf_data b2 \<noteq> []"
    and "sv_yolo w = Some y" and "yc_async (yo_cfg y)" and "yc_frame_period_us (yo_cfg y) \<noteq> 0"
    and "op_fps ops \<noteq> 0" and "sv_pipe w = Some p" and "pl_has_appsrc p" and "pl_callbacks p"
    and "\<not> mb_pending (sv_mail w)" and "mb_taken (sv_mail w) = None" and "\<not> mb_stop (sv_mail w)"
    and "width = sp_width (ps_source (pl_spec p))" and "height = sp_height (ps_source (pl_spec p))"
    and "whole_plane width height (bf_data b1)" and "whole_plane width height (bf_data b2)"
    and "\<forall>d \<in> set (yo_last y) \<union> set (yo_last y2). drawable d"
    and "report_fits ops (yo_last y)" and "report_fits ops (yo_last y2)"
    and "detect (ev_dnn ev) (take (unat height * unat width) (bf_data b1)) (sint width) (sint height)
           (y\<lparr>yo_frame := yo_frame y + 1\<rparr>) = Some y2"
  shows "\<exists>w1 w2 p'. run_events ev ops [Ev_frame s1 True ok1, Ev_detector] w = Some w1
    \<and> sv_yolo w1 = Some y2 \<and> \<not> mb_pending (sv_mail w1)
    \<and> mb_processed (sv_mail w1) = mb_processed (sv_mail w)
        @ [(take (unat height * unat width) (bf_data b1), sint width, sint height)]
    \<and> run_events ev ops [Ev_frame s2 got_lock True] w1 = Some w2 \<and> sv_pipe w2 = Some p'
    \<and> last (pl_pushed p') = draw_boxes (sample_view sm2 b2 p) (writable_of (sample_view sm2 b2 p)) (yo_last y2)"
proof -
  let ?pix = "take (unat height * unat width) (bf_data b1)"
  let ?y1 = "y\<lparr>yo_frame := yo_frame y + 1\<rparr>"
  have d: "\<forall>d \<in> set (yo_last y). drawable d" "\<forall>d \<in> set (yo_last y2). drawable d" using assms(19) by auto
  obtain wa pa where a: "video_new_sample ev ops s1 True ok1 p w = Some (Flow_ok, wa)" "sv_pipe wa = Some pa"
    "sv_mail wa = offered True width height (bf_data b1) (sv_mail w)" "sv_yolo wa = Some ?y1"
    "pl_spec pa = pl_spec p" "pl_has_appsrc pa" "pl_callbacks pa"
    using frame_async [OF assms(1,2,5,6,7,8,10) _ d(1) assms(20), of ev True ok1] assms(11,15-17) by auto
  have mb: "mb_worker (sv_mail wa)" "worker_take (sv_mail wa) = (sv_mail wa)\<lparr>mb_taken := Some (?pix, sint width, sint height)\<rparr>"
    "mb_processed (sv_mail wa) = mb_processed (sv_mail w)"
    using assms(12-14) unfolding a(3)
    by (auto simp: offered_def luma_plane_def worker_take_def Let_def)
  let ?wb = "wa\<lparr>sv_yolo := Some y2, sv_mail := worker_release (?pix, sint width, sint height) (worker_take (sv_mail wa))\<rparr>"
  have b: "detector_worker ev wa = Some ?wb"
    using a(4) mb(2) assms(22) by (simp add: detector_worker_def Let_def)
  have y2: "yc_async (yo_cfg y2)" "yc_frame_period_us (yo_cfg y2) \<noteq> 0"
    using detect_keeps [OF assms(22)] assms(6,7) by simp_all
  obtain wc pc where c: "video_new_sample ev ops s2 got_lock True pa ?wb = Some (Flow_ok, wc)" "sv_pipe wc = Some pc"
    "pl_pushed pc = pl_pushed pa @ [draw_boxes (sample_view sm2 b2 pa) (writable_of (sample_view sm2 b2 pa)) (yo_last y2)]"
    using frame_async [OF assms(3,4) _ y2 assms(8) a(6) _ d(2) assms(21), of ?wb ev got_lock True] assms(15,16,18) a(5) by auto
  have "draw_boxes (sample_view sm2 b2 pa) (writable_of (sample_view sm2 b2 pa)) ds
      = draw_boxes (sample_view sm2 b2 p) (writable_of (sample_view sm2 b2 p)) ds" for ds
    by (simp add: draw_boxes_def sample_view_def writable_of_def a(5))
  then show ?thesis using a(1,2,7) mb(1,2,3) b c assms(9,11) by (simp add: worker_release_def)
qed

definition demo_square :: pipeline where
  "demo_square = demo_pipeline\<lparr>pl_spec := pipeline_spec_default
     \<lparr>ps_source := source_spec_default\<lparr>sp_width := 640, sp_height := 640\<rparr>\<rparr>\<rparr>"

theorem detections_reach_overlay_witness:
  "\<exists>w1 y. run_events (demo_env\<lparr>ev_dnn := demo_dnn\<rparr>) options_default [Ev_frame (Some demo_sample) True True, Ev_detector]
      (demo_world\<lparr>sv_pipe := Some demo_square\<rparr>) = Some w1 \<and> sv_yolo w1 = Some y \<and> length (yo_last y) = 1"
proof -
  let ?w = "demo_world\<lparr>sv_pipe := Some demo_square\<rparr>"
  let ?b = "\<lparr>bf_map_ok = True, bf_data = demo_bytes, bf_pts = None\<rparr>"
  let ?y2 = "demo_yolo\<lparr>yo_frame := yo_frame demo_yolo + 1, yo_inference_us := 1000, yo_last := [\<lparr>de_class_id = 0,
      de_confidence = 0x3F800000, de_x = 45, de_y = 50, de_w = 10, de_h = 20, de_label = ''cat''\<rparr>]\<rparr>"
  have f: "sv_yolo ?w = Some demo_yolo" "sv_pipe ?w = Some demo_square" "pl_has_appsrc demo_square"
    "pl_callbacks demo_square" "\<not> mb_pending (sv_mail ?w)" "mb_taken (sv_mail ?w) = None" "\<not> mb_stop (sv_mail ?w)"
    "640 = sp_width (ps_source (pl_spec demo_square))" "640 = sp_height (ps_source (pl_spec demo_square))"
    by (simp_all add: demo_world_def demo_square_def demo_pipeline_def initial_world_def mailbox_init_def)
  have b: "bf_data ?b \<noteq> []" "whole_plane 640 640 (bf_data ?b)" by (simp_all add: demo_bytes_nonempty whole_plane_def)
  have d: "\<forall>d \<in> set (yo_last demo_yolo) \<union> set (yo_last ?y2). drawable d"
    "report_fits options_default (yo_last ?y2)"
    by (simp_all add: demo_sel drawable_def rect_defined_def fits_int_def report_fits_def options_default_def)
  have r: "detect (ev_dnn (demo_env\<lparr>ev_dnn := demo_dnn\<rparr>)) (take (unat (640 :: u32) * unat (640 :: u32)) (bf_data ?b))
      (sint (640 :: u32)) (sint (640 :: u32)) (demo_yolo\<lparr>yo_frame := yo_frame demo_yolo + 1\<rparr>) = Some ?y2"
    by (simp add: demo_detect)
  note s = demo_frame_facts(1)
  show ?thesis
    using detections_reach_overlay [OF s b(1) s b(1) f(1) demo_frame_facts(3-5) f(2-9) b(2) b(2) d(1) demo_frame_facts(9) d(2) r]
    by fastforce
qed

end
