(* ===== verification/Service_Suite.thy ===== *)
theory Service_Suite
  imports Service_Run
begin

text \<open>
  The contracts of \<open>App_Lifecycle\<close> on the service's own components: the invariant of the world (a
  sound logger, a valid device whose hooks never set a control bit), what it means for each service to
  be quiet, and the shutdown properties of the whole program that follow.
\<close>

section \<open>The device: nothing but a write sets a control bit\<close>

definition ctrl_word :: "'e dev \<Rightarrow> u32" where
  "ctrl_word d = dv_words d ! 2"

text \<open>From \<open>d\<close> to \<open>d'\<close> the device stays valid and its control word is kept or cleared.\<close>

definition tame :: "'e dev \<Rightarrow> 'e dev \<Rightarrow> bool" where
  "tame d d' \<longleftrightarrow> dev_ok d' \<and> dv_reads d \<le> dv_reads d' \<and> dv_ro d' = dv_ro d
     \<and> (ctrl_word d' = ctrl_word d \<or> ctrl_word d' = 0)"

definition tame_hook :: "('e dev \<Rightarrow> 'e dev) \<Rightarrow> bool" where
  "tame_hook fn \<longleftrightarrow> (\<forall>d. dev_ok d \<longrightarrow> tame d (fn d))"

lemma tame_refl: "dev_ok d \<Longrightarrow> tame d d"
  by (simp add: tame_def)

lemma tame_trans: "tame d d1 \<Longrightarrow> tame d1 d2 \<Longrightarrow> tame d d2"
  by (auto simp: tame_def)

lemma tame_ok: "tame d d' \<Longrightarrow> dev_ok d'"
  by (simp add: tame_def)

lemma tame_poke:
  assumes "tame d d1" and "aligned_and_inside (off64 r)" and "idx (off64 r) \<noteq> 2 \<or> v = 0"
  shows "tame d (poke_reg r v d1)"
  using assms reg_idx_inside [OF assms(2)]
  by (auto simp: tame_def poke_reg_eq dev_ok_def ctrl_word_def)

lemma tame_now: "tame d d1 \<Longrightarrow> tame d (snd (dev_now c d1))"
  by (simp add: tame_def dev_now_def dev_ok_def ctrl_word_def)

lemma tame_cell: "tame d d1 \<Longrightarrow> tame d (cell_upd k f d1)"
  by (simp add: tame_def cell_upd_def dev_ok_def ctrl_word_def)

lemmas tame_intros = tame_poke tame_now tame_cell tame_refl

lemma tame_model_hooks:
  "tame_hook (ctrl_hook v)" "tame_hook (irq_clr_hook v)" "tame_hook (shutter_write_hook c model k v)"
  "tame_hook (shutter_read_hook c model k)" "tame_hook (acc_write_hook c model k v)"
  "tame_hook (acc_read_hook c k)" "tame_hook (table_write_hook k v)" "tame_hook (table_read_hook k)"
  by (auto simp: tame_hook_def ctrl_hook_def irq_clr_hook_def shutter_write_hook_def shutter_read_hook_def
      acc_write_hook_def acc_read_hook_def table_write_hook_def table_read_hook_def Let_def case_prod_beta
      intro!: tame_intros)

lemma tame_read_hooks:
  "\<forall>(o', fn) \<in> set hs. tame_hook fn \<Longrightarrow> tame d d1 \<Longrightarrow> tame d (run_read_hooks off hs d1)"
  unfolding run_read_hooks_def
proof (induction hs arbitrary: d1)
  case (Cons h hs)
  obtain o' fn where h: "h = (o', fn)" by fastforce
  have "tame d (if o' = off then fn d1 else d1)"
    using Cons.prems h tame_trans [of d d1 "fn d1"] tame_ok [of d d1] by (auto simp: tame_hook_def)
  then show ?case using Cons.IH Cons.prems h by simp
qed simp

lemma tame_hooks:
  "\<forall>(o', fn) \<in> set hs. \<forall>v. tame_hook (fn v) \<Longrightarrow> tame d d1 \<Longrightarrow> tame d (run_hooks off v hs d1)"
  unfolding run_hooks_def
proof (induction hs arbitrary: d1)
  case (Cons h hs)
  obtain o' fn where h: "h = (o', fn)" by fastforce
  have "tame d (if o' = off then fn v d1 else d1)"
    using Cons.prems h tame_trans [of d d1 "fn v d1"] tame_ok [of d d1] by (auto simp: tame_hook_def)
  then show ?case using Cons.IH Cons.prems h by simp
qed simp

definition isp_ok :: "'e fake \<Rightarrow> bool" where
  "isp_ok m \<longleftrightarrow> dev_ok (fk_dev m)
     \<and> (\<forall>(o', fn) \<in> set (fk_hooks m). \<forall>v. tame_hook (fn v))
     \<and> (\<forall>(o', fn) \<in> set (fk_read_hooks m). tame_hook fn)
     \<and> \<not> (length (dv_ro (fk_dev m)) > 2 \<and> dv_ro (fk_dev m) ! 2)"

definition disabled :: "'e fake \<Rightarrow> bool" where
  "disabled m \<longleftrightarrow> ctrl_word (fk_dev m) AND ctrl_enable = 0"

lemma tame_disabled: "tame (fk_dev m) (fk_dev m') \<Longrightarrow> disabled m \<Longrightarrow> disabled m'"
  by (auto simp: tame_def disabled_def)

text \<open>A read, and a write to any register but \<^verbatim>\<open>CTRL\<close>, keep the device valid and \<^verbatim>\<open>CTRL\<close> tame.\<close>

lemma isp_read_step:
  assumes "isp_ok m"
  shows "isp_ok (snd (fake_read32 (off64 r) m)) \<and> tame (fk_dev m) (fk_dev (snd (fake_read32 (off64 r) m)))"
proof (cases "aligned_and_inside (off64 r)")
  case True
  let ?d = "run_read_hooks (off64 r) (fk_read_hooks m) (fk_dev m)"
  have t: "tame (fk_dev m) ?d"
    using assms by (intro tame_read_hooks tame_refl) (auto simp: isp_ok_def)
  have "idx (off64 r) < length (dv_words ?d)"
    using t reg_idx_inside [OF True] by (simp add: tame_def dev_ok_def)
  then have "snd (fake_read32 (off64 r) m) = m\<lparr>fk_dev := ?d\<rparr>"
    using True by (simp add: fake_read32_def load_word_def)
  then show ?thesis using t assms by (simp add: isp_ok_def tame_def)
next
  case False
  then show ?thesis using assms
    by (simp add: fake_read32_def isp_ok_def fault_def tame_def dev_ok_def ctrl_word_def)
qed

lemma isp_write_step:
  assumes "isp_ok m" and "off64 r \<noteq> off64 isp_ctrl \<or> v AND ctrl_enable = 0"
  shows "isp_ok (fake_write32 (off64 r) v m) \<and> (disabled m \<longrightarrow> disabled (fake_write32 (off64 r) v m))
    \<and> (off64 r = off64 isp_ctrl \<longrightarrow> disabled (fake_write32 (off64 r) v m))"
proof (cases "aligned_and_inside (off64 r)")
  case True
  let ?s = "store_word (off64 r) v (fk_dev m)"
  let ?d = "run_hooks (off64 r) v (fk_hooks m) ?s"
  have l: "idx (off64 r) < length (dv_words (fk_dev m))"
    using assms(1) reg_idx_inside [OF True] by (simp add: isp_ok_def dev_ok_def)
  then have s: "dev_ok ?s" "dv_ro ?s = dv_ro (fk_dev m)"
    "ctrl_word ?s = (if idx (off64 r) = 2 then v else ctrl_word (fk_dev m))"
    using assms(1) by (auto simp: store_word_def isp_ok_def dev_ok_def ctrl_word_def)
  have t: "tame ?s ?d" using assms(1) s by (intro tame_hooks tame_refl) (auto simp: isp_ok_def)
  have two: "idx (off64 r) = 2 \<longleftrightarrow> off64 r = off64 isp_ctrl"
    using idx_inject [OF True isp_inside(3)] by auto
  show ?thesis
  proof (cases "length (dv_ro (fk_dev m)) > idx (off64 r) \<and> dv_ro (fk_dev m) ! idx (off64 r)")
    case ro: True
    then have "off64 r \<noteq> off64 isp_ctrl" using assms(1) two by (auto simp: isp_ok_def)
    then show ?thesis using ro True assms(1)
      by (simp add: fake_write32_def isp_ok_def fault_def dev_ok_def disabled_def ctrl_word_def)
  next
    case False
    then have "fake_write32 (off64 r) v m = m\<lparr>fk_dev := ?d\<rparr>" using True by (auto simp: fake_write32_def)
    then show ?thesis using t s two assms
      by (auto simp: isp_ok_def tame_def disabled_def)
  qed
next
  case False
  then show ?thesis using assms
    by (auto simp: fake_write32_def isp_ok_def fault_def dev_ok_def disabled_def ctrl_word_def)
qed

lemma isp_write_any:
  assumes "isp_ok m"
  shows "isp_ok (fake_write32 (off64 r) v m)"
proof (cases "off64 r = off64 isp_ctrl \<and> v AND ctrl_enable \<noteq> 0")
  case True
  let ?s = "store_word (off64 r) v (fk_dev m)"
  have a: "aligned_and_inside (off64 r)" using True isp_inside(3) by simp
  have "idx (off64 r) < length (dv_words (fk_dev m))"
    using assms reg_idx_inside [OF a] by (simp add: isp_ok_def dev_ok_def)
  then have s: "dev_ok ?s" "dv_ro ?s = dv_ro (fk_dev m)"
    using assms by (auto simp: store_word_def isp_ok_def dev_ok_def)
  have "tame ?s (run_hooks (off64 r) v (fk_hooks m) ?s)"
    using assms s by (intro tame_hooks tame_refl) (auto simp: isp_ok_def)
  moreover have "fake_write32 (off64 r) v m = m\<lparr>fk_dev := run_hooks (off64 r) v (fk_hooks m) ?s\<rparr>"
    using a assms True by (auto simp: fake_write32_def isp_ok_def)
  ultimately show ?thesis using assms s by (simp add: isp_ok_def tame_def)
qed (use isp_write_step [OF assms, of r v] in blast)

lemma read_ctrl_value:
  assumes "isp_ok m"
  shows "fst (fake_read32 (off64 isp_ctrl) m) = ctrl_word (fk_dev (snd (fake_read32 (off64 isp_ctrl) m)))"
proof -
  let ?d = "run_read_hooks (off64 isp_ctrl) (fk_read_hooks m) (fk_dev m)"
  have "tame (fk_dev m) ?d"
    using assms by (intro tame_read_hooks tame_refl) (auto simp: isp_ok_def)
  then show ?thesis
    by (simp add: fake_read32_def load_word_def ctrl_word_def tame_def dev_ok_def word_count_def)
qed

lemma isp_set_clear:
  assumes "isp_ok m"
  shows "isp_ok (set_bits (fake_backend c) r msk m)" "isp_ok (clear_bits (fake_backend c) r msk m)"
  using isp_read_step [OF assms, of r] by (simp_all add: set_bits_def clear_bits_def case_prod_beta isp_write_any)

lemma clear_enable_disables:
  assumes "isp_ok m"
  shows "disabled (clear_bits (fake_backend c) isp_ctrl ctrl_enable m)"
  using isp_write_step [of "snd (fake_read32 (off64 isp_ctrl) m)" isp_ctrl] isp_read_step [OF assms, of isp_ctrl]
  by (simp add: clear_bits_def case_prod_beta and.assoc)

lemma hook_dev:
  "fk_dev (on_read o' f m) = fk_dev m" "fk_dev (on_write o' g m) = fk_dev m" "fk_dev (m\<lparr>fk_dev := d\<rparr>) = d"
  by (simp_all add: on_read_def on_write_def)

lemma install_ok:
  assumes "isp_ok m"
  shows "isp_ok (install_isp_model c model m) \<and> (disabled m \<longrightarrow> disabled (install_isp_model c model m))"
proof -
  let ?d1 = "poke_reg isp_temp_mc 41250 (poke_reg isp_frame_h 1080 (poke_reg isp_frame_w 1920
                 (poke_reg isp_gain 0x0100 (poke_reg isp_version 0x00010000
                   (poke_reg isp_id kIdMagic (fk_dev m))))))"
  have t1: "tame (fk_dev m) ?d1"
    using assms by (intro tame_intros) (auto simp: isp_ok_def)
  have ro: "dv_words (set_read_only off d) = dv_words d \<and> dv_wild (set_read_only off d) = dv_wild d
      \<and> (idx off \<noteq> 2 \<longrightarrow> \<not> (length (dv_ro d) > 2 \<and> dv_ro d ! 2) \<longrightarrow>
          \<not> (length (dv_ro (set_read_only off d)) > 2 \<and> dv_ro (set_read_only off d) ! 2))"
    for off and d :: "isp_dev"
    by (auto simp: set_read_only_def Let_def)
  let ?rs = "[isp_id, isp_version, isp_status, isp_frame_cnt, isp_irq_stat, isp_temp_mc, isp_ts_lo, isp_ts_hi]"
  let ?d2 = "fold (\<lambda>r d. set_read_only (ucast (offset_of r)) d) ?rs ?d1"
  have r1: "\<not> (length (dv_ro ?d1) > 2 \<and> dv_ro ?d1 ! 2)"
    using t1 assms by (simp add: tame_def isp_ok_def)
  have d2: "dv_words (fold (\<lambda>r d. set_read_only (ucast (offset_of r)) d) rs d) = dv_words d
      \<and> dv_wild (fold (\<lambda>r d. set_read_only (ucast (offset_of r)) d) rs d) = dv_wild d
      \<and> ((\<forall>r \<in> set rs. idx (off64 r) \<noteq> 2) \<longrightarrow> \<not> (length (dv_ro d) > 2 \<and> dv_ro d ! 2) \<longrightarrow>
          \<not> (length (dv_ro (fold (\<lambda>r d. set_read_only (ucast (offset_of r)) d) rs d)) > 2
             \<and> dv_ro (fold (\<lambda>r d. set_read_only (ucast (offset_of r)) d) rs d) ! 2))" for rs and d :: "isp_dev"
  proof (induction rs arbitrary: d)
    case (Cons r rs)
    show ?case using ro [of "off64 r" d] Cons.IH [of "set_read_only (off64 r) d"] by auto
  qed simp
  have w2: "dv_words ?d2 = dv_words ?d1" "dv_wild ?d2 = dv_wild ?d1"
    "\<not> (length (dv_ro ?d2) > 2 \<and> dv_ro ?d2 ! 2)"
    using d2 [of ?rs ?d1] r1 by auto
  have fld: "fk_dev (install_isp_model c model m) = ?d2\<lparr>dv_env := dv_env ?d2 @
      [\<lparr>ic_shutter_ready = 0, ic_accum_ready = 0, ic_table = replicate 1024 0\<rparr>]\<rparr>"
    by (simp only: install_isp_model_def Let_def hook_dev)
  have "dev_ok (fk_dev (install_isp_model c model m))"
    unfolding fld using t1 w2 by (simp add: dev_ok_def tame_def)
  moreover have "ctrl_word (fk_dev (install_isp_model c model m)) = ctrl_word ?d1"
    unfolding fld using w2 by (simp add: ctrl_word_def)
  moreover have "\<not> (length (dv_ro (fk_dev (install_isp_model c model m))) > 2
      \<and> dv_ro (fk_dev (install_isp_model c model m)) ! 2)"
    unfolding fld using w2 by simp
  moreover have "(\<forall>(o', fn) \<in> set (fk_hooks (install_isp_model c model m)). \<forall>v. tame_hook (fn v))
      \<and> (\<forall>(o', fn) \<in> set (fk_read_hooks (install_isp_model c model m)). tame_hook fn)"
    using assms tame_model_hooks
    by (auto simp: install_isp_model_def Let_def on_read_def on_write_def isp_ok_def)
  ultimately show ?thesis using t1 by (auto simp: isp_ok_def disabled_def tame_def)
qed

lemma power_on_bit_ok:
  assumes "isp_ok m"
  shows "isp_ok (snd (power_on_bit (fake_backend c) m))
    \<and> (disabled m \<longrightarrow> disabled (snd (power_on_bit (fake_backend c) m)))"
proof -
  let ?m1 = "snd (fake_read32 (off64 isp_id) m)"
  let ?m2 = "snd (fake_read32 (off64 isp_version) ?m1)"
  let ?w = "fake_write32 (off64 isp_ctrl) ctrl_sw_reset ?m2"
  let ?m3 = "snd (fake_read32 (off64 isp_ctrl) ?w)"
  let ?m4 = "snd (fake_read32 (off64 isp_temp_mc) ?m3)"
  note r1 = isp_read_step [OF assms, of isp_id]
  have r2: "isp_ok ?m2 \<and> tame (fk_dev ?m1) (fk_dev ?m2)" using isp_read_step r1 by blast
  have w: "isp_ok ?w \<and> disabled ?w"
    using isp_write_step [of ?m2 isp_ctrl ctrl_sw_reset] r2 by (simp add: ctrl_sw_reset_def ctrl_enable_def)
  have r3: "isp_ok ?m3 \<and> tame (fk_dev ?w) (fk_dev ?m3)" using isp_read_step w by blast
  have r4: "isp_ok ?m4 \<and> tame (fk_dev ?m3) (fk_dev ?m4)" using isp_read_step r3 by blast
  have d: "disabled m \<Longrightarrow> disabled ?m1" "disabled ?m1 \<Longrightarrow> disabled ?m2" "disabled ?m3" "disabled ?m4"
    using tame_disabled r1 r2 r3 r4 w by blast+
  show ?thesis
    using r1 r2 r3 r4 d by (auto simp: power_on_bit_def case_prod_beta)
qed

lemma isp_reads_ok: "isp_ok m \<Longrightarrow> isp_ok (snd (any_bit (fake_backend c) r msk m))"
  using isp_read_step [of m r] by (simp add: any_bit_def case_prod_beta)

section \<open>Invariant and quietness\<close>

definition svc_inv :: "('c, 'n) world \<Rightarrow> bool" where
  "svc_inv w \<longleftrightarrow> logger_ok (sv_log w) \<and> isp_ok (sv_isp w)"

primrec kquiet :: "svc \<Rightarrow> ('c, 'n) world \<Rightarrow> bool" where
  "kquiet K_log w = (\<not> lg_joinable (snd (sv_log w)))"
| "kquiet K_sensor w = disabled (sv_isp w)"
| "kquiet K_video w = (sv_pipe w = None)"
| "kquiet K_telemetry w = (sv_pub w = None \<and> \<not> sv_worker w)"

lemmas log_ops = log_init_def log_start_def log_stop_def Let_def
lemmas sensor_ops = sensor_init_def sensor_start_def sensor_stop_def isp_backend_def Let_def
lemmas video_ops = video_init_def video_start_def video_stop_def Let_def
lemmas telemetry_ops = telemetry_init_def telemetry_start_def telemetry_stop_def Let_def

lemma logger_start_log_ok: "logger_ok (t, lg) \<Longrightarrow> logger_ok (t, logger_start now lg)"
  by (simp add: logger_start_def logger_ok_cong [of _ lg])

lemma log_stop_spec:
  assumes "logger_ok (sv_log w)"
  shows "logger_ok (sv_log (log_stop ev w)) \<and> \<not> lg_joinable (snd (sv_log (log_stop ev w)))
    \<and> sv_isp (log_stop ev w) = sv_isp w \<and> sv_pipe (log_stop ev w) = sv_pipe w
    \<and> sv_pub (log_stop ev w) = sv_pub w \<and> sv_worker (log_stop ev w) = sv_worker w"
proof -
  let ?st = "logger_stats (snd (sv_log w))"
  let ?w = "slog ev L_info ''log'' ''sink stopping''
     [kv_of_int ''written'' (st_written ?st), kv_of_int ''dropped'' (st_dropped ?st)] w"
  have "logger_ok (fst (sv_log ?w), snd (sv_log ?w))" using assms by simp
  from logger_stop_ok [OF this] obtain lg where
    "logger_stop (snd (sv_log ?w)) = Some lg" "logger_ok (fst (sv_log ?w), lg)" "\<not> lg_joinable lg"
    by blast
  then show ?thesis by (simp add: log_stop_def Let_def)
qed

lemma logger_start_frame [simp]: "logger_ok st \<Longrightarrow> logger_ok (fst st, logger_start now (snd st))"
  using logger_start_log_ok [of "fst st" "snd st" now] by simp

lemma svc_init_inv: "svc_inv w \<Longrightarrow> svc_inv (snd (comp_init (svc_component ev ops tr k) w))"
proof (cases k)
  case K_sensor
  assume "svc_inv w"
  then show ?thesis
    using K_sensor power_on_bit_ok [OF conjunct1 [OF install_ok], of "sv_isp w" "ev_clock ev" "ev_clock ev" isp_model_default]
    by (auto simp: svc_inv_def sensor_ops split: prod.splits sum.splits)
qed (auto simp: svc_inv_def log_ops video_ops telemetry_ops split: sum.splits prod.splits)

lemma svc_start_inv: "svc_inv w \<Longrightarrow> svc_inv (snd (comp_start (svc_component ev ops tr k) w))"
proof (cases k)
  case K_sensor
  assume "svc_inv w"
  then show ?thesis using K_sensor
    by (simp add: svc_inv_def sensor_ops case_prod_beta isp_set_clear isp_write_any isp_reads_ok)
qed (auto simp: svc_inv_def log_ops video_ops telemetry_ops split: sum.splits prod.splits option.splits)

lemma svc_stop_inv: "svc_inv w \<Longrightarrow> svc_inv (comp_stop (svc_component ev ops tr k) w)"
proof (cases k)
  case K_log
  assume "svc_inv w"
  then show ?thesis using K_log log_stop_spec [of w ev] by (simp add: svc_inv_def)
qed (auto simp: svc_inv_def sensor_ops video_ops telemetry_ops isp_set_clear split: option.splits)

lemma svc_init_other:
  "svc_inv w \<Longrightarrow> k' \<noteq> k \<Longrightarrow> kquiet k' w \<Longrightarrow> kquiet k' (snd (comp_init (svc_component ev ops tr k) w))"
  by (cases k; cases k')
    (auto simp: log_ops sensor_ops video_ops telemetry_ops split: sum.splits prod.splits)

lemma svc_start_other:
  "svc_inv w \<Longrightarrow> k' \<noteq> k \<Longrightarrow> kquiet k' w \<Longrightarrow> kquiet k' (snd (comp_start (svc_component ev ops tr k) w))"
  by (cases k; cases k')
    (auto simp: log_ops sensor_ops video_ops telemetry_ops case_prod_beta
      split: sum.splits prod.splits option.splits)

lemma svc_stop_other:
  "svc_inv w \<Longrightarrow> k' \<noteq> k \<Longrightarrow> kquiet k' w \<Longrightarrow> kquiet k' (comp_stop (svc_component ev ops tr k) w)"
  using log_stop_spec [of w ev]
  by (cases k; cases k')
    (auto simp: svc_inv_def sensor_ops video_ops telemetry_ops split: option.splits)

lemma svc_init_failed:
  assumes "svc_inv w" and "kquiet k w" and "comp_init (svc_component ev ops tr k) w = (Inl e, w')"
  shows "kquiet k w'"
proof (cases k)
  case K_sensor
  let ?m = "install_isp_model (ev_clock ev) isp_model_default (sv_isp w)"
  have "isp_ok ?m" "disabled ?m" using install_ok [of "sv_isp w"] assms(1,2) K_sensor by (auto simp: svc_inv_def)
  then show ?thesis using power_on_bit_ok [of ?m "ev_clock ev"] assms(3) K_sensor
    by (auto simp: sensor_ops split: prod.splits sum.splits)
qed (use assms in \<open>auto simp: log_ops video_ops telemetry_ops split: prod.splits sum.splits if_splits\<close>)

lemma svc_stop_quiets: "svc_inv w \<Longrightarrow> kquiet k (comp_stop (svc_component ev ops tr k) w)"
  using log_stop_spec [of w ev] clear_enable_disables [of "sv_isp w"]
  by (cases k) (auto simp: svc_inv_def sensor_ops video_ops telemetry_ops split: option.splits)

section \<open>The service fulfils the lifecycle contracts\<close>

text \<open>
  The services registered, in their order, then the two that the options may leave out: a service that
  was never made is quiet throughout.
\<close>

definition all_kinds :: "options \<Rightarrow> svc list" where
  "all_kinds ops = svc_kinds ops @ (if op_video ops then [] else [K_video])
     @ (if op_broker ops \<noteq> [] then [] else [K_telemetry])"

definition quiet_at :: "options \<Rightarrow> nat \<Rightarrow> ('c, 'n) world \<Rightarrow> bool" where
  "quiet_at ops j w \<longleftrightarrow> (j < 4 \<longrightarrow> kquiet (all_kinds ops ! j) w)"

lemma distinct_kinds: "distinct (all_kinds ops)"
  by (simp add: all_kinds_def svc_kinds_def)

lemma length_kinds: "length (all_kinds ops) = 4"
  by (simp add: all_kinds_def svc_kinds_def)

lemma kinds_prefix: "i < length (svc_kinds ops) \<Longrightarrow> all_kinds ops ! i = svc_kinds ops ! i \<and> i < 4"
  using length_kinds [of ops] by (auto simp: all_kinds_def nth_append)

definition all_quiet :: "('c, 'n) world \<Rightarrow> bool" where
  "all_quiet w \<longleftrightarrow> \<not> lg_joinable (snd (sv_log w)) \<and> disabled (sv_isp w) \<and> sv_pipe w = None
     \<and> sv_pub w = None \<and> \<not> sv_worker w"

lemma all_quiet_iff: "all_quiet w \<longleftrightarrow> (\<forall>j. quiet_at ops j w)"
proof -
  have "all_quiet w \<longleftrightarrow> (\<forall>k \<in> set (all_kinds ops). kquiet k w)"
    by (auto simp: all_quiet_def all_kinds_def svc_kinds_def)
  also have "\<dots> \<longleftrightarrow> (\<forall>j < 4. kquiet (all_kinds ops ! j) w)"
    using all_set_conv_all_nth [of "all_kinds ops" "\<lambda>k. kquiet k w"] by (simp only: length_kinds)
  finally show ?thesis by (simp add: quiet_at_def)
qed

interpretation svc: quiet_suite "services ev ops tr" svc_inv "quiet_at ops"
  for ev :: "('c, 'n) env" and ops tr
proof unfold_locales
  fix i j :: nat and w w' :: "('c, 'n) world" and e
  assume i: "i < length (services ev ops tr)" and w: "svc_inv w"
  then have n: "services ev ops tr ! i = svc_component ev ops tr (all_kinds ops ! i)" "i < 4"
    using kinds_prefix [of i ops] by (simp_all add: services_def)
  have ne: "all_kinds ops ! j \<noteq> all_kinds ops ! i" if "j \<noteq> i" "j < 4"
    using that n(2) distinct_kinds [of ops] by (simp add: nth_eq_iff_index_eq length_kinds)
  show "svc_inv (snd (comp_init (services ev ops tr ! i) w))" "svc_inv (snd (comp_start (services ev ops tr ! i) w))"
    "svc_inv (comp_stop (services ev ops tr ! i) w)"
    unfolding n by (rule svc_init_inv [OF w] svc_start_inv [OF w] svc_stop_inv [OF w])+
  show "quiet_at ops j (snd (comp_init (services ev ops tr ! i) w))" if "j \<noteq> i" "quiet_at ops j w"
    using that ne svc_init_other [OF w] unfolding n quiet_at_def by (auto split: if_splits)
  show "quiet_at ops j (snd (comp_start (services ev ops tr ! i) w))" if "j \<noteq> i" "quiet_at ops j w"
    using that ne svc_start_other [OF w] unfolding n quiet_at_def by (auto split: if_splits)
  show "quiet_at ops j (comp_stop (services ev ops tr ! i) w)" if "j \<noteq> i" "quiet_at ops j w"
    using that ne svc_stop_other [OF w] unfolding n quiet_at_def by (auto split: if_splits)
  show "quiet_at ops i w'" if "quiet_at ops i w" "comp_init (services ev ops tr ! i) w = (Inl e, w')"
    using that svc_init_failed [OF w, of "all_kinds ops ! i"] n unfolding quiet_at_def by auto
  show "quiet_at ops i (comp_stop (services ev ops tr ! i) w)"
    using svc_stop_quiets [OF w] unfolding n quiet_at_def by auto
qed

section \<open>While the service runs\<close>

text \<open>The device seen as a polled window, so that the correction keeps it valid.\<close>

lemma isp_ok_fake: "isp_ok m \<Longrightarrow> fake_ok m"
  by (auto simp: isp_ok_def fake_ok_def tame_hook_def hook_ok_def tame_def)

interpretation isp: polled_window "fake_backend c" aligned_and_inside isp_ok c
  "\<lambda>m. dv_reads (fk_dev m)" for c
proof unfold_locales
  fix m :: "'a fake" and r v
  assume m: "isp_ok m"
  note f = isp_ok_fake [OF m]
  show "isp_ok (snd (reg_read (fake_backend c) r m))" "isp_ok (reg_write (fake_backend c) r v m)"
    using isp_read_step [OF m, of r] isp_write_any [OF m, of r v] by simp_all
  show "isp_ok (snd (bk_now (fake_backend c) m))"
    using m by (simp add: fake_now_def dev_now_def isp_ok_def dev_ok_def)
  show "\<not> aligned_and_inside (off64 r) \<Longrightarrow> fst (reg_read (fake_backend c) r m) = 0"
    by (rule fake.read_outside [OF f])
  show "fst (bk_now (fake_backend c) m) = reading c (dv_reads (fk_dev m))"
    "dv_reads (fk_dev (snd (bk_now (fake_backend c) m))) = Suc (dv_reads (fk_dev m))"
    "dv_reads (fk_dev m) \<le> dv_reads (fk_dev (snd (reg_read (fake_backend c) r m)))"
    "dv_reads (fk_dev m) \<le> dv_reads (fk_dev (reg_write (fake_backend c) r v m))"
    by (rule fake.now_reading [OF f] fake.now_reads [OF f] fake.read_reads [OF f] fake.write_reads [OF f])+
qed

text \<open>What an event may do: keep the invariant, and make neither a pipeline nor a publisher nor a worker.\<close>

definition calm :: "('c, 'n) world \<Rightarrow> ('c, 'n) world \<Rightarrow> bool" where
  "calm w w' \<longleftrightarrow> (svc_inv w \<longrightarrow> svc_inv w') \<and> (sv_pipe w = None \<longrightarrow> sv_pipe w' = None)
     \<and> (sv_pub w = None \<longrightarrow> sv_pub w' = None) \<and> sv_worker w' = sv_worker w"

lemma calm_refl: "calm w w"
  by (simp add: calm_def)

lemma calm_trans: "calm w w1 \<Longrightarrow> calm w1 w2 \<Longrightarrow> calm w w2"
  by (simp add: calm_def)

lemma calm_slog: "calm w1 w2 \<Longrightarrow> calm w1 (slog ev l cn msg kvs w2)"
  by (simp add: calm_def svc_inv_def)

lemma calm_pub: "calm w1 w2 \<Longrightarrow> calm w1 (pub_do ev f w2)"
  by (simp add: calm_def svc_inv_def)

lemma calm_other:
  "calm w1 w2 \<Longrightarrow> calm w1 (w2\<lparr>sv_yolo := y\<rparr>)" "calm w1 w2 \<Longrightarrow> calm w1 (w2\<lparr>sv_mail := m\<rparr>)"
  "calm w1 w2 \<Longrightarrow> calm w1 (w2\<lparr>sv_nuc := n\<rparr>)" "calm w1 w2 \<Longrightarrow> calm w1 (w2\<lparr>sv_events := es\<rparr>)"
  "calm w1 w2 \<Longrightarrow> sv_pipe w1 \<noteq> None \<Longrightarrow> calm w1 (w2\<lparr>sv_pipe := q\<rparr>)"
  "calm w1 w2 \<Longrightarrow> (svc_inv w1 \<longrightarrow> isp_ok d) \<Longrightarrow> calm w1 (w2\<lparr>sv_isp := d\<rparr>)"
  by (auto simp: calm_def svc_inv_def)

lemmas calm_rules = calm_refl calm_slog calm_pub calm_other

lemma on_frame_calm: "video_on_frame ev ops f w = Some (v, w') \<Longrightarrow> calm w w'"
  by (auto simp: video_on_frame_def Let_def split: if_splits option.splits intro!: calm_rules)

lemma detector_turn_calm: "detector_turn ev got_lock v w = Some (r, w') \<Longrightarrow> calm w w'"
  by (auto simp: detector_turn_def split: option.splits intro!: calm_rules)

lemma new_sample_calm:
  assumes "video_new_sample ev ops sample got_lock push_ok p w = Some (fl, w')" and "sv_pipe w = Some p"
  shows "calm w w'"
proof (cases "sample_buffer sample")
  case None
  then show ?thesis using assms by (auto simp: video_new_sample_def split: prod.splits intro!: calm_rules)
next
  case (Some x)
  obtain sm b where x: "x = (sm, b)" by fastforce
  obtain r w1 v w2 p1 where w: "detector_turn ev got_lock (sample_view sm b p) w = Some (r, w1)"
    "video_on_frame ev ops (shown (sample_view sm b p) r) w1 = Some (v, w2)" "w' = w2\<lparr>sv_pipe := Some p1\<rparr>"
    using assms(1) Some x by (auto simp: video_new_sample_def Let_def split: option.splits prod.splits)
  have "calm w w2" using detector_turn_calm [OF w(1)] on_frame_calm [OF w(2)] by (rule calm_trans)
  then show ?thesis using assms(2) unfolding w(3) by (auto intro: calm_other)
qed

lemma bus_calm:
  assumes "sv_pipe w = Some p"
  shows "calm w (video_bus ev msg p w)"
proof -
  have step: "calm w (fold (video_on_bus ev) es w1)" if "calm w w1" for es w1
    using that by (induction es arbitrary: w1) (auto simp: video_on_bus_def intro!: calm_rules)
  show ?thesis unfolding video_bus_def Let_def by (intro step calm_rules) (simp add: assms)
qed

lemma emit_calm: "calm w w1 \<Longrightarrow> calm w (emit ev ops i cd body w1)"
  by (auto simp: emit_def Let_def intro!: calm_rules)

lemma emit_isp [simp]: "sv_isp (emit ev ops i cd body w) = sv_isp w"
  "lg_joinable (snd (sv_log (emit ev ops i cd body w))) = lg_joinable (snd (sv_log w))"
  by (simp_all add: emit_def Let_def)

lemma nuc_calm:
  assumes "sensor_run_nuc ev ops w = Some w'"
  shows "calm w w'"
proof -
  obtain r m where run: "run_nuc (isp_backend ev) nuc_config_default (sv_isp w) = Some (r, m)"
    using assms by (auto simp: sensor_run_nuc_def Let_def)
  have "svc_inv w \<longrightarrow> isp_ok m"
    using isp.run_nuc_returns [of "sv_isp w" "ev_clock ev" nuc_config_default] run
    by (auto simp: isp_backend_def svc_inv_def)
  then show ?thesis using assms run
    by (cases r) (auto simp: sensor_run_nuc_def Let_def intro!: emit_calm calm_rules)
qed

lemma tick_calm: "calm w (telemetry_tick ev up w)"
  using isp.read_ok [of _ "ev_clock ev"]
  by (auto simp: telemetry_tick_def sample_sensor_def isp_backend_def Let_def case_prod_beta calm_def svc_inv_def)

lemma run_step_calm: "run_step ev ops e w = Some w' \<Longrightarrow> calm w w'"
proof (cases e)
  case Ev_detector
  assume "run_step ev ops e w = Some w'"
  then show ?thesis using Ev_detector
    by (auto simp: detector_worker_def Let_def split: option.splits if_splits intro!: calm_rules)
qed (auto simp: nuc_calm tick_calm split: option.splits if_splits intro!: calm_rules
    dest: new_sample_calm bus_calm)

lemma run_events_calm: "run_events ev ops es w = Some w' \<Longrightarrow> calm w w'"
proof (induction es arbitrary: w)
  case (Cons e es)
  then obtain w1 where "run_step ev ops e w = Some w1" "run_events ev ops es w1 = Some w'"
    by (auto simp: bind_eq_Some_conv)
  then show ?case using Cons.IH run_step_calm calm_trans by blast
qed (simp add: calm_refl)

section \<open>A correction on the stopped service\<close>

text \<open>The correction writes no control bit, so it keeps a disabled device disabled.\<close>

interpretation quiet_isp: polled_window "ctrl_guarded (fake_backend c)" aligned_and_inside
  "\<lambda>m. isp_ok m \<and> disabled m" c "\<lambda>m. dv_reads (fk_dev m)" for c
proof unfold_locales
  fix m :: "'a fake" and r v
  assume "isp_ok m \<and> disabled m"
  then have m: "isp_ok m" and d: "disabled m" by auto
  show "isp_ok (snd (reg_read (ctrl_guarded (fake_backend c)) r m)) \<and> disabled (snd (reg_read (ctrl_guarded (fake_backend c)) r m))"
    using isp_read_step [OF m, of r] tame_disabled [OF _ d] by simp
  show "isp_ok (reg_write (ctrl_guarded (fake_backend c)) r v m) \<and> disabled (reg_write (ctrl_guarded (fake_backend c)) r v m)"
    using isp_write_step [OF m, of r v] m d by (auto simp: ctrl_guarded_def reg_write_def fake_backend_def)
  show "dv_reads (fk_dev m) \<le> dv_reads (fk_dev (reg_write (ctrl_guarded (fake_backend c)) r v m))"
    using isp.write_reads [OF m, of c r v] by (auto simp: ctrl_guarded_def reg_write_def fake_backend_def)
  show "isp_ok (snd (bk_now (ctrl_guarded (fake_backend c)) m)) \<and> disabled (snd (bk_now (ctrl_guarded (fake_backend c)) m))"
    using isp.now_ok [OF m, of c] d by (simp add: fake_now_def dev_now_def disabled_def ctrl_word_def)
qed (use isp.read_outside isp.now_reading isp.now_reads isp.read_reads in auto)

lemma late_nuc_quiet:
  assumes "svc_inv w \<and> all_quiet w" and "\<not> timer_overflows ops"
  shows "\<exists>w'. late_nuc ev ops late w = Some w' \<and> svc_inv w' \<and> all_quiet w'"
proof (cases "late \<and> 0 < op_nuc_after ops")
  case True
  have "isp_ok (sv_isp w) \<and> disabled (sv_isp w)" using assms by (simp add: svc_inv_def all_quiet_def)
  then obtain r m where "run_nuc (ctrl_guarded (fake_backend (ev_clock ev))) nuc_config_default (sv_isp w) = Some (r, m)"
    and m: "isp_ok m" "disabled m"
    using quiet_isp.run_nuc_returns by blast
  then have run: "run_nuc (isp_backend ev) nuc_config_default (sv_isp w) = Some (r, m)"
    unfolding isp_backend_def by (rule_tac run_nuc_guarded)
  have "\<exists>w'. sensor_run_nuc ev ops w = Some w' \<and> sv_isp w' = m
      \<and> lg_joinable (snd (sv_log w')) = lg_joinable (snd (sv_log w))"
    using run by (cases r) (simp_all add: sensor_run_nuc_def Let_def)
  then obtain w' where w': "sensor_run_nuc ev ops w = Some w'" "sv_isp w' = m"
    "lg_joinable (snd (sv_log w')) = lg_joinable (snd (sv_log w))" by blast
  have "calm w w'" by (rule nuc_calm [OF w'(1)])
  then show ?thesis using True assms w' m
    by (auto simp: late_nuc_def calm_def all_quiet_def)
qed (use assms in \<open>auto simp: late_nuc_def\<close>)

section \<open>The whole program\<close>

lemma initial_world_ok: "svc_inv (initial_world ops i) \<and> all_quiet (initial_world ops i)"
proof -
  have wc: "2 < word_count" by (simp add: word_count_def)
  have "logger_ok (Map.empty, set_level l (fst (logger_ctor i)))" for l
    using fresh_logger_ok [of Map.empty i] logger_ok_cong [of "set_level l (fst (logger_ctor i))" "fst (logger_ctor i)"]
    by (simp add: set_level_def)
  moreover have "isp_ok (fake_ctor [])" "disabled (fake_ctor [])"
    using wc by (simp_all add: isp_ok_def disabled_def fake_ctor_def dev_ok_def ctrl_word_def)
  ultimately show ?thesis
    by (simp add: svc_inv_def all_quiet_def initial_world_def)
      (simp add: set_level_def logger_ctor_def)
qed

lemma reg_read_ok:
  assumes "isp_ok m"
  shows "isp_ok (snd (reg_read (fake_backend c) r m)) \<and> (disabled m \<longrightarrow> disabled (snd (reg_read (fake_backend c) r m)))"
  using isp_read_step [OF assms, of r] tame_disabled [of m "snd (fake_read32 (off64 r) m)"]
  by (auto simp: reg_read_def fake_backend_def)

lemma service_up_ok:
  assumes "svc_inv w"
  shows "svc_inv (service_up ev w) \<and> (kquiet k w \<longrightarrow> kquiet k (service_up ev w))"
  using assms reg_read_ok [of "sv_isp w" "ev_clock ev" isp_temp_mc]
  by (cases k) (auto simp: service_up_def svc_inv_def isp_backend_def split: prod.splits)

lemma failed_service_quiet:
  assumes "app_start (app_of (services ev ops tr)) (initial_world ops i) = (Inl e, a, w)"
  shows "svc_inv w \<and> all_quiet w"
  using svc.failed_start_quiet [OF _ _ assms] svc.app_start_keeps [OF _ assms] initial_world_ok [of ops i]
    all_quiet_iff by blast

lemma startup_aborted_ok: "svc_inv w \<Longrightarrow> all_quiet w \<Longrightarrow> svc_inv (startup_aborted e w) \<and> all_quiet (startup_aborted e w)"
  by (simp add: startup_aborted_def Let_def svc_inv_def all_quiet_def logger_ok_def tls_ok_def balanced_def total_dropped_def)

lemma stopped_service_quiet:
  assumes "app_start (app_of (services ev ops tr)) (initial_world ops i) = (Inr u, a, w)"
    and "app_wait_for_stop sched a = Some a1" and "run_events ev ops evs (service_up ev w) = Some w1"
  shows "svc_inv (snd (app_stop a1 w1)) \<and> all_quiet (snd (app_stop a1 w1))"
proof -
  have w0: "svc_inv (initial_world ops i)" "\<And>j. quiet_at ops j (initial_world ops i)"
    using initial_world_ok [of ops i] all_quiet_iff by blast+
  have inv: "svc_inv w" by (rule svc.app_start_keeps [OF w0(1) assms(1)])
  have calm: "calm (service_up ev w) w1" by (rule run_events_calm [OF assms(3)])
  have n: "length (services ev ops tr) = length (svc_kinds ops)" by (simp add: services_def)
  have k: "all_kinds ops ! j \<in> {K_video, K_telemetry}" if "length (svc_kinds ops) \<le> j" "j < 4" for j
    using that by (auto simp: all_kinds_def svc_kinds_def nth_append nth_Cons' split: if_splits)
  have up: "svc_inv w1" "\<And>j. length (services ev ops tr) \<le> j \<Longrightarrow> quiet_at ops j w \<Longrightarrow> quiet_at ops j w1"
    using service_up_ok [OF inv] calm k unfolding n by (fastforce simp: quiet_at_def calm_def)+
  have "svc_inv (snd (app_stop a1 w1)) \<and> quiet_at ops j (snd (app_stop a1 w1))" for j
    using wait_keeps [OF assms(2)] by (intro svc.stopped_quiet_later [OF w0 assms(1) up]) auto
  then show ?thesis using all_quiet_iff by blast
qed

definition log_settled :: "('c, 'n) world \<Rightarrow> bool" where
  "log_settled w \<longleftrightarrow> (let lg = snd (sv_log w)
     in drained lg \<and> lg_seq lg = lg_written lg + total_dropped lg)"

lemma service_exit_ok:
  assumes "svc_inv w" and "all_quiet w"
  shows "all_quiet (service_exit w) \<and> log_settled (service_exit w) \<and> \<not> mb_worker (sv_mail (service_exit w))"
proof -
  have ok: "logger_ok (fst (sv_log w), snd (sv_log w))" and nj: "\<not> lg_joinable (snd (sv_log w))"
    using assms by (simp_all add: svc_inv_def all_quiet_def)
  obtain n lg where d: "drain_now (snd (sv_log w)) = Some (n, lg)" "logger_ok (fst (sv_log w), lg)"
    "drained lg" "lg_joinable lg = lg_joinable (snd (sv_log w))"
    using drain_now_ok [OF ok] by blast
  have "lg_seq lg = lg_written lg + total_dropped lg"
  proof -
    have s: "sum_list (map pending (lg_producers lg)) = 0" using d(3) by (simp add: drained_def)
    have z: "of_nat (sum_list (map pending (lg_producers lg))) = (0 :: u64)" unfolding s by simp
    have "lg_seq lg = lg_written lg + total_dropped lg + of_nat (sum_list (map pending (lg_producers lg)))"
      using d(2) by (simp only: logger_ok_def balanced_def snd_conv)
    then show ?thesis by (simp only: z add_0_right)
  qed
  then show ?thesis using d nj assms(2)
    by (simp add: service_exit_def logger_dtor_def logger_stop_def all_quiet_def log_settled_def stop_worker_def)
qed

section \<open>Runs whose behaviour is defined\<close>

text \<open>
  What OpenCV documents of \<^verbatim>\<open>DetectionModel::detect\<close>: identifiers, scores and boxes come in equal
  number.
\<close>

definition detect_documented :: "'n dnn \<Rightarrow> bool" where
  "detect_documented dn \<longleftrightarrow> (\<forall>n l fw fh sz c t ids ss bs. dn_detect dn n l fw fh sz c t = Some (ids, ss, bs)
     \<longrightarrow> length ss = length ids \<and> length bs = length ids)"

text \<open>Options that leave the detector out, or run it in its worker on a darknet model.\<close>

definition detector_allowed :: "options \<Rightarrow> bool" where
  "detector_allowed ops \<longleftrightarrow> (op_detect ops \<longrightarrow> op_fps ops \<noteq> 0 \<and> op_fps ops \<le> 1000000 \<and> \<not> op_detect_sync ops
     \<and> op_model ops \<noteq> [] \<and> format_of (op_model ops) = MF_darknet)"

text \<open>
  Answers small enough: boxes whose coordinates add up within \<^verbatim>\<open>int\<close> and, when they are published,
  at most twelve of them with class names of at most 32 characters, which is sure to fit the payload.
\<close>

definition modest :: "('c, 'n) env \<Rightarrow> options \<Rightarrow> bool" where
  "modest ev ops \<longleftrightarrow>
     (\<forall>n l fw fh sz c t ids ss bs. dn_detect (ev_dnn ev) n l fw fh sz c t = Some (ids, ss, bs) \<longrightarrow>
        (\<forall>(x, y, bw, bh) \<in> set bs. rect_defined x y bw bh) \<and> (op_broker ops \<noteq> [] \<longrightarrow> length bs \<le> 12))
     \<and> (op_broker ops \<noteq> [] \<longrightarrow> (\<forall>f ls. ev_names ev f = Some ls \<longrightarrow> (\<forall>l \<in> set ls. length l \<le> 32)))"

text \<open>
  The frames of a run hold their luma planes, as GStreamer documents for buffers of negotiated caps; this
  matters only to the detector. A buffer without bytes is refused by it.
\<close>

definition frames_whole :: "options \<Rightarrow> run_event list \<Rightarrow> bool" where
  "frames_whole ops evs \<longleftrightarrow> (op_detect ops \<longrightarrow> list_all (\<lambda>e. case e of
       Ev_frame sample got_lock push_ok \<Rightarrow>
         (case sample_buffer sample of None \<Rightarrow> True
          | Some (sm, b) \<Rightarrow> bf_data b = [] \<or> whole_plane (op_width ops) (op_height ops) (bf_data b))
     | _ \<Rightarrow> True) evs)"

definition yolo_ready :: "options \<Rightarrow> 'n yolo \<Rightarrow> bool" where
  "yolo_ready ops y \<longleftrightarrow> op_detect ops \<and> yc_async (yo_cfg y) \<and> yc_frame_period_us (yo_cfg y) \<noteq> 0
     \<and> yo_format y = MF_darknet \<and> (\<forall>d \<in> set (yo_last y). drawable d) \<and> report_fits ops (yo_last y)
     \<and> (op_broker ops \<noteq> [] \<longrightarrow> (\<forall>l \<in> set (yo_classes y). length l \<le> 32))"

definition detector_ready :: "options \<Rightarrow> ('c, 'n) world \<Rightarrow> bool" where
  "detector_ready ops w \<longleftrightarrow> (\<forall>y. sv_yolo w = Some y \<longrightarrow> yolo_ready ops y)
     \<and> (\<forall>p. sv_pipe w = Some p \<longrightarrow> pl_spec p = video_spec ops)"

lemma yolo_ready_frame [simp]: "yolo_ready ops (y\<lparr>yo_frame := k\<rparr>) = yolo_ready ops y"
  by (simp add: yolo_ready_def)

text \<open>Twelve objects with short labels fit.\<close>

lemma length_object_text:
  assumes "length (do_label ob) \<le> 32"
  shows "length (object_text c ob) \<le> 160"
  using assms length_c_str [of "do_label ob"] length_fmt_float [of "do_confidence ob"] length_dec_sint32 [of "do_x ob"]
    length_dec_sint32 [of "do_y ob"] length_dec_sint32 [of "do_w ob"] length_dec_sint32 [of "do_h ob"]
  by (simp add: object_text_def length_qt)

lemma length_objects_json:
  "\<forall>ob \<in> set obs. length (do_label ob) \<le> 32 \<Longrightarrow> length (objects_json k obs) \<le> 160 * length obs"
proof (induction obs arbitrary: k)
  case (Cons ob obs)
  have "length (objects_json (k + 1) obs) \<le> 160 * length obs" by (rule Cons.IH) (use Cons.prems in simp)
  moreover have "length (object_text (k > 0) ob) \<le> 160" by (rule length_object_text) (use Cons.prems in simp)
  ultimately show ?case by simp
qed simp

lemma few_fit:
  assumes "length ds \<le> 12" and "\<forall>d \<in> set ds. length (de_label d) \<le> 32"
  shows "report_fits ops ds"
proof -
  have "\<forall>ob \<in> set (map detected ds). length (do_label ob) \<le> 32" using assms(2) by (simp add: detected_def)
  from length_objects_json [OF this, of 0] assms(1) show ?thesis by (simp add: report_fits_def)
qed

lemma label_short: "\<forall>l \<in> set cls. length l \<le> 32 \<Longrightarrow> length (label_of cls i) \<le> 32"
  by (simp add: label_of_def Let_def)

lemma detect_darknet:
  assumes "detect_documented (ev_dnn ev)" and "modest ev ops" and "yolo_ready ops y"
  shows "\<exists>y2. detect (ev_dnn ev) luma fw fh y = Some y2 \<and> yolo_ready ops y2"
proof (cases "dn_detect (ev_dnn ev) (yo_net y) luma fw fh (yc_input_size (yo_cfg y))
    (yc_confidence_threshold (yo_cfg y)) (yc_nms_threshold (yo_cfg y))")
  case None
  then show ?thesis using assms(3) by (simp add: detect_def infer_def yolo_ready_def)
next
  case (Some r)
  obtain ids ss bs where r: "r = (ids, ss, bs)" by (cases r)
  have len: "length ss = length ids" "length bs = length ids"
    using assms(1) Some unfolding r detect_documented_def by blast+
  have bs: "\<forall>(x, y, bw, bh) \<in> set bs. rect_defined x y bw bh" "op_broker ops \<noteq> [] \<longrightarrow> length bs \<le> 12"
    using assms(2) Some unfolding r modest_def by blast+
  let ?last = "map (\<lambda>i. case bs ! i of (bx, by', bw, bh) \<Rightarrow>
      \<lparr>de_class_id = ids ! i, de_confidence = ss ! i, de_x = bx, de_y = by', de_w = bw,
       de_h = bh, de_label = label_of (yo_classes y) (ids ! i)\<rparr>) [0..<length ids]"
  let ?y2 = "y\<lparr>yo_last := ?last, yo_inference_us := dn_elapsed (ev_dnn ev) (yo_net y) luma\<rparr>"
  have d: "detect (ev_dnn ev) luma fw fh y = Some ?y2"
    using assms(3) Some len by (simp add: detect_def infer_def yolo_ready_def r Let_def)
  have "rect_defined x y' bw bh" if "i < length ids" "bs ! i = (x, y', bw, bh)" for i x y' bw bh
    using bs(1) nth_mem [of i bs] that len(2) by fastforce
  then have dr: "\<forall>d \<in> set ?last. drawable d" by (auto simp: drawable_def split: prod.split)
  have fit: "report_fits ops ?last"
  proof (cases "op_broker ops = []")
    case False
    then have "\<forall>l \<in> set (yo_classes y). length l \<le> 32" using assms(3) by (simp add: yolo_ready_def)
    then have "\<forall>d \<in> set ?last. length (de_label d) \<le> 32" by (auto simp: label_short split: prod.split)
    moreover have "length ?last \<le> 12" using bs(2) len(2) False by simp
    ultimately show ?thesis by (intro few_fit)
  qed (simp add: report_fits_def)
  have "yolo_ready ops ?y2" using assms(3) dr fit by (simp add: yolo_ready_def)
  with d show ?thesis by blast
qed

lemma frame_period: "f \<noteq> 0 \<Longrightarrow> f \<le> 1000000 \<Longrightarrow> uint (1000000 div f :: u32) \<noteq> 0"
proof -
  assume f: "f \<noteq> 0" "f \<le> (1000000 :: u32)"
  then have u: "0 < unat f" "unat f \<le> 1000000" by (simp_all add: word_le_nat_alt unat_gt_0)
  have "unat (1000000 div f) = 1000000 div unat f" by (simp add: unat_div)
  moreover have "0 < 1000000 div unat f" using u by (simp add: div_greater_zero_iff)
  ultimately have "1000000 div f \<noteq> 0" by (metis less_irrefl unat_0)
  then show "uint (1000000 div f) \<noteq> 0" by (simp only: uint_0_iff not_False_eq_True)
qed

lemma created_ready:
  assumes "yolo_create (ev_names ev) onnx darknet (video_yolo_config ops) = Inr y" and "detector_allowed ops"
    and "op_detect ops" and "modest ev ops"
  shows "yolo_ready ops y"
proof -
  have keep: "yc_async (derive_files c) = yc_async c" "yc_frame_period_us (derive_files c) = yc_frame_period_us c" for c
    by (simp_all add: derive_files_def Let_def split: option.splits)
  obtain ls where "yo_cfg y = derive_files (video_yolo_config ops)" "yo_last y = []"
    "yo_format y = format_of (yc_weights (video_yolo_config ops))"
    "ev_names ev (yc_names (derive_files (video_yolo_config ops))) = Some ls" "set (yo_classes y) \<subseteq> set ls"
    using assms(1) by (auto simp: yolo_create_def Let_def fail_def split: option.splits model_read.splits)
  moreover from this(4,5) assms(4) have "op_broker ops \<noteq> [] \<longrightarrow> (\<forall>l \<in> set (yo_classes y). length l \<le> 32)"
    unfolding modest_def by blast
  ultimately show ?thesis using assms(2,3) frame_period [of "op_fps ops"]
    by (simp add: yolo_ready_def keep video_yolo_config_def Let_def detector_allowed_def report_fits_def)
qed

text \<open>Nothing but the sample callback and the bus dispatch makes a new pipeline state, and the graph's description stays.\<close>

lemma spec_kept:
  "pl_spec (snd (on_new_sample sample verdict push_ok p)) = pl_spec p" "pl_spec (dispatch msg p) = pl_spec p"
  "pl_spec (snd (pipeline_play a b p)) = pl_spec p"
  by (simp_all add: on_new_sample_def dispatch_def on_bus_def pipeline_play_def Let_def
      split: option.split prod.split flow_result.split gst_message_type.split)

lemma spec_made: "pipeline_create parse by_name spec t = Inr q \<Longrightarrow> pl_spec q = spec"
  by (auto simp: pipeline_create_def fail_def Let_def split: prod.splits if_splits)

lemma ready_cong:
  "sv_yolo w' = sv_yolo w \<Longrightarrow> sv_pipe w' = sv_pipe w \<Longrightarrow> detector_ready ops w' = detector_ready ops w"
  by (simp add: detector_ready_def)

lemma ready_pipe: "detector_ready ops w \<Longrightarrow> pl_spec q = video_spec ops \<Longrightarrow> sv_yolo w' = sv_yolo w \<Longrightarrow> sv_pipe w' = Some q
    \<Longrightarrow> detector_ready ops w'"
  by (simp add: detector_ready_def)

definition ready_env :: "('c, 'n) env \<Rightarrow> options \<Rightarrow> bool" where
  "ready_env ev ops \<longleftrightarrow> detector_allowed ops \<and> modest ev ops"

text \<open>Only the video service touches the detector and the pipeline.\<close>

lemma others_keep_video:
  assumes "k \<noteq> K_video"
  shows "sv_yolo (snd (comp_init (svc_component ev ops tr k) w)) = sv_yolo w"
    "sv_pipe (snd (comp_init (svc_component ev ops tr k) w)) = sv_pipe w"
    "sv_yolo (snd (comp_start (svc_component ev ops tr k) w)) = sv_yolo w"
    "sv_pipe (snd (comp_start (svc_component ev ops tr k) w)) = sv_pipe w"
    "sv_yolo (comp_stop (svc_component ev ops tr k) w) = sv_yolo w"
    "sv_pipe (comp_stop (svc_component ev ops tr k) w) = sv_pipe w"
  using assms by (cases k; simp add: log_ops sensor_ops telemetry_ops case_prod_beta split: sum.split prod.split option.split)+

lemma video_init_ready:
  assumes "ready_env ev ops" and "detector_ready ops w"
  shows "detector_ready ops (snd (video_init ev ops tr w))"
proof -
  have build: "detector_ready ops (snd (case pipeline_create (ev_parse ev) (ev_by_name ev) (video_spec ops) t of
      Inl e \<Rightarrow> (Inl e, w2) | Inr p \<Rightarrow> (Inr (), w2\<lparr>sv_pipe := Some p\<rparr>)))" if "detector_ready ops w2" for t w2
    using that by (cases "pipeline_create (ev_parse ev) (ev_by_name ev) (video_spec ops) t")
      (simp_all add: detector_ready_def spec_made)
  have s: "detector_ready ops (slog ev l cn msg kvs w3) = detector_ready ops w3" for l cn msg kvs w3
    by (simp add: detector_ready_def)
  show ?thesis
  proof (cases "op_detect ops")
    case False
    then show ?thesis using assms(2) by (simp add: video_init_def Let_def build s)
  next
    case True
    show ?thesis
    proof (cases "yolo_create (ev_names ev) (ev_onnx ev) (ev_darknet ev) (video_yolo_config ops)")
      case (Inr y)
      then have "yolo_ready ops y" using created_ready [OF Inr _ True] assms(1) by (simp add: ready_env_def)
      then have "detector_ready ops ((slog ev l cn msg kvs w)\<lparr>sv_yolo := Some y\<rparr>)" for l cn msg kvs
        using assms(2) by (simp add: detector_ready_def)
      then show ?thesis using True Inr by (simp add: video_init_def Let_def build s)
    qed (use True assms(2) in \<open>simp add: video_init_def Let_def s\<close>)
  qed
qed

lemma video_start_ready:
  assumes "detector_ready ops w"
  shows "detector_ready ops (snd (video_start ev ops w))"
proof (cases "sv_pipe w")
  case (Some p)
  have "pl_spec (snd (pipeline_play (ev_set_ok ev) (ev_get_ok ev) p)) = video_spec ops"
    using assms Some by (simp add: spec_kept(3) detector_ready_def)
  then show ?thesis using assms Some
    by (auto simp: video_start_def detector_ready_def split: prod.split sum.split)
qed (use assms in \<open>simp add: video_start_def\<close>)

interpretation ready: component_suite "services ev ops tr" "\<lambda>w. ready_env ev ops \<longrightarrow> detector_ready ops w"
  for ev :: "('c, 'n) env" and ops tr
proof unfold_locales
  fix i :: nat and w :: "('c, 'n) world"
  assume i: "i < length (services ev ops tr)" and w: "ready_env ev ops \<longrightarrow> detector_ready ops w"
  let ?k = "svc_kinds ops ! i"
  have n: "services ev ops tr ! i = svc_component ev ops tr ?k"
    using i by (simp add: services_def)
  have stop: "detector_ready ops w \<Longrightarrow> detector_ready ops (video_stop ev w)"
    by (simp add: video_stop_def detector_ready_def Let_def split: option.split)
  have "(ready_env ev ops \<longrightarrow> detector_ready ops (snd (comp_init (svc_component ev ops tr ?k) w)))
    \<and> (ready_env ev ops \<longrightarrow> detector_ready ops (snd (comp_start (svc_component ev ops tr ?k) w)))
    \<and> (ready_env ev ops \<longrightarrow> detector_ready ops (comp_stop (svc_component ev ops tr ?k) w))"
  proof (cases "?k = K_video")
    case True
    then show ?thesis using w video_init_ready [of ev ops w tr] video_start_ready [of ops w ev] stop by auto
  next
    case False
    then show ?thesis using w by (simp add: ready_cong [OF others_keep_video(1,2)] ready_cong [OF others_keep_video(3,4)]
          ready_cong [OF others_keep_video(5,6)])
  qed
  then show "ready_env ev ops \<longrightarrow> detector_ready ops (snd (comp_init (services ev ops tr ! i) w))"
    "ready_env ev ops \<longrightarrow> detector_ready ops (snd (comp_start (services ev ops tr ! i) w))"
    "ready_env ev ops \<longrightarrow> detector_ready ops (comp_stop (services ev ops tr ! i) w)"
    unfolding n by blast+
qed

lemma turn_defined:
  assumes "detector_ready ops w" and "fv_stride v = fv_width v"
    and "op_detect ops \<Longrightarrow> fv_data v = [] \<or> whole_plane (fv_width v) (fv_height v) (fv_data v)"
  shows "\<exists>r w1. detector_turn ev got_lock v w = Some (r, w1) \<and> detector_ready ops w1 \<and> sv_pipe w1 = sv_pipe w"
proof (cases "sv_yolo w")
  case None
  then show ?thesis using assms(1) by (simp add: detector_turn_def)
next
  case (Some y)
  then have y: "yolo_ready ops y" using assms(1) by (simp add: detector_ready_def)
  show ?thesis
  proof (cases "fv_data v = []")
    case True
    then show ?thesis using Some assms(1) by (simp add: detector_turn_def yolo_process_def detector_ready_def)
  next
    case False
    then have "whole_plane (fv_width v) (fv_height v) (fv_data v)" using assms(3) y by (simp add: yolo_ready_def)
    from yolo_process_async [OF _ False assms(2) this, of y "ev_dnn ev" got_lock "sv_mail w"] show ?thesis
      using Some y assms(1) by (auto simp: detector_turn_def detector_ready_def yolo_ready_def)
  qed
qed

lemma on_frame_defined:
  assumes "detector_ready ops w" and "op_fps ops \<noteq> 0"
  shows "\<exists>v w1. video_on_frame ev ops f w = Some (v, w1) \<and> detector_ready ops w1"
proof (cases "sv_yolo w")
  case (Some y)
  then have "yc_frame_period_us (yo_cfg y) \<noteq> 0" "report_fits ops (yo_last y)"
    using assms by (simp_all add: detector_ready_def yolo_ready_def)
  then obtain w1 where "video_on_frame ev ops f w = Some (FR_ok, w1)" "sv_yolo w1 = sv_yolo w" "sv_pipe w1 = sv_pipe w"
    using on_frame_answers [OF Some assms(2)] by blast
  then show ?thesis using assms(1) by (simp add: detector_ready_def)
qed (use assms in \<open>auto simp: video_on_frame_def detector_ready_def\<close>)

lemma new_sample_defined:
  assumes "detector_ready ops w" and "op_fps ops \<noteq> 0" and "sv_pipe w = Some p"
    and "frames_whole ops [Ev_frame sample got_lock push_ok]"
  shows "\<exists>fl w'. video_new_sample ev ops sample got_lock push_ok p w = Some (fl, w') \<and> detector_ready ops w'"
proof (cases "sample_buffer sample")
  case None
  then show ?thesis using assms(1,3) spec_kept(1) [of sample FR_ok push_ok p]
    by (auto simp: video_new_sample_def detector_ready_def split: prod.split)
next
  case (Some x)
  obtain sm b where x: "x = (sm, b)" by fastforce
  let ?v = "sample_view sm b p"
  have spec: "pl_spec p = video_spec ops" using assms(1,3) by (simp add: detector_ready_def)
  have "op_detect ops \<Longrightarrow> fv_data ?v = [] \<or> whole_plane (fv_width ?v) (fv_height ?v) (fv_data ?v)"
    using assms(4) Some x by (simp add: frames_whole_def sample_view_def spec video_spec_def)
  then obtain r w1 where w1: "detector_turn ev got_lock ?v w = Some (r, w1)" "detector_ready ops w1"
    using turn_defined [OF assms(1), of ?v ev got_lock] by (auto simp: sample_view_def)
  obtain v w2 where w2: "video_on_frame ev ops (shown ?v r) w1 = Some (v, w2)" "detector_ready ops w2"
    using on_frame_defined [OF w1(2) assms(2)] by blast
  obtain fl p1 where p1: "on_new_sample sample v push_ok (p\<lparr>pl_transform := map_option (\<lambda>a u out. a) r\<rparr>) = (fl, p1)"
    by fastforce
  have "pl_spec p1 = video_spec ops"
    using spec spec_kept(1) [of sample v push_ok "p\<lparr>pl_transform := map_option (\<lambda>a u out. a) r\<rparr>"] by (simp add: p1)
  then have "detector_ready ops (w2\<lparr>sv_pipe := Some (p1\<lparr>pl_transform := pl_transform p\<rparr>)\<rparr>)"
    using w2(2) by (simp add: detector_ready_def)
  then show ?thesis using Some x w1 w2 p1 by (simp add: video_new_sample_def Let_def)
qed

lemma nuc_defined:
  assumes "svc_inv w"
  shows "\<exists>w'. sensor_run_nuc ev ops w = Some w' \<and> sv_yolo w' = sv_yolo w \<and> sv_pipe w' = sv_pipe w"
proof -
  obtain r m where "run_nuc (isp_backend ev) nuc_config_default (sv_isp w) = Some (r, m)"
    using isp.run_nuc_returns [of "sv_isp w" "ev_clock ev" nuc_config_default] assms
    by (auto simp: isp_backend_def svc_inv_def)
  then show ?thesis by (cases r) (simp_all add: sensor_run_nuc_def emit_def Let_def)
qed

lemma bus_yolo: "sv_yolo (video_bus ev msg p w) = sv_yolo w" "sv_pipe (video_bus ev msg p w) = Some (dispatch msg p)"
proof -
  have "sv_yolo (fold (video_on_bus ev) es w1) = sv_yolo w1 \<and> sv_pipe (fold (video_on_bus ev) es w1) = sv_pipe w1" for es w1
    by (induction es arbitrary: w1) (simp_all add: video_on_bus_def)
  then show "sv_yolo (video_bus ev msg p w) = sv_yolo w" "sv_pipe (video_bus ev msg p w) = Some (dispatch msg p)"
    by (simp_all add: video_bus_def Let_def)
qed

lemma tick_yolo: "sv_yolo (telemetry_tick ev up w) = sv_yolo w" "sv_pipe (telemetry_tick ev up w) = sv_pipe w"
  by (simp_all add: telemetry_tick_def sample_sensor_def Let_def case_prod_beta)

lemma run_step_defined:
  assumes "svc_inv w" and "detector_ready ops w" and "op_fps ops \<noteq> 0" and "detect_documented (ev_dnn ev)"
    and "modest ev ops" and "\<not> timer_overflows ops" and "frames_whole ops [e]"
  shows "\<exists>w'. run_step ev ops e w = Some w' \<and> detector_ready ops w'"
proof (cases e)
  case (Ev_frame sample got_lock push_ok)
  then show ?thesis using assms(2,7) new_sample_defined [OF assms(2,3), of _ sample got_lock push_ok ev]
    by (fastforce split: option.splits)
next
  case Ev_detector
  show ?thesis
  proof (cases "sv_yolo w")
    case (Some y)
    then have "yolo_ready ops y" using assms(2) by (simp add: detector_ready_def)
    from detect_darknet [OF assms(4,5) this] show ?thesis
      using Some Ev_detector assms(2) by (fastforce simp: detector_worker_def detector_ready_def Let_def split: option.splits)
  qed (use Ev_detector assms(2) in \<open>simp add: detector_worker_def\<close>)
next
  case Ev_nuc
  obtain w1 where "sensor_run_nuc ev ops w = Some w1" "sv_yolo w1 = sv_yolo w" "sv_pipe w1 = sv_pipe w"
    using nuc_defined [OF assms(1), of ev ops] by blast
  then show ?thesis using Ev_nuc assms(2,6) ready_cong [of w1 w ops] by simp
next
  case (Ev_bus msg)
  have "detector_ready ops (video_bus ev msg p w)" if "sv_pipe w = Some p" for p
  proof -
    have "pl_spec (dispatch msg p) = video_spec ops" using assms(2) that by (simp add: spec_kept(2) detector_ready_def)
    from ready_pipe [OF assms(2) this bus_yolo] show ?thesis .
  qed
  then show ?thesis using Ev_bus assms(2) by (simp split: option.split)
next
  case (Ev_tick secs)
  then show ?thesis using assms(2) by (simp add: ready_cong [OF tick_yolo])
next
  case (Ev_connect rc)
  have "detector_ready ops (pub_do ev (on_connect rc) w)" by (rule ready_cong [THEN iffD2, OF _ _ assms(2)]) simp_all
  then show ?thesis using Ev_connect by simp
next
  case Ev_disconnect
  have "detector_ready ops (pub_do ev on_disconnect w)" by (rule ready_cong [THEN iffD2, OF _ _ assms(2)]) simp_all
  then show ?thesis using Ev_disconnect by simp
qed

lemma run_events_defined:
  assumes "svc_inv w" and "detector_ready ops w" and "op_fps ops \<noteq> 0" and "detect_documented (ev_dnn ev)"
    and "modest ev ops" and "\<not> timer_overflows ops" and "frames_whole ops es"
  shows "\<exists>w'. run_events ev ops es w = Some w'"
  using assms(1,2,7)
proof (induction es arbitrary: w)
  case (Cons e es)
  have f: "frames_whole ops [e]" "frames_whole ops es" using Cons.prems(3) by (simp_all add: frames_whole_def)
  obtain w1 where w1: "run_step ev ops e w = Some w1" "detector_ready ops w1"
    using run_step_defined [OF Cons.prems(1,2) assms(3-6) f(1)] by blast
  have "svc_inv w1" using run_step_calm [OF w1(1)] Cons.prems(1) by (simp add: calm_def)
  from Cons.IH [OF this w1(2) f(2)] w1(1) show ?case by auto
qed simp

lemma service_outcome:
  assumes "True \<in> set sched"
  shows "let result = service_main ev tr evs late i args sched;
      clean = (\<lambda>wo. \<exists>w. wo = Some w \<and> all_quiet w \<and> log_settled w \<and> \<not> mb_worker (sv_mail w))
    in case parse_args args options_default of
         None \<Rightarrow> result = Some (2, None)
       | Some ops \<Rightarrow>
           (case app_start (app_of (services ev ops tr)) (initial_world ops i) of
              (Inl e, a, w) \<Rightarrow> \<exists>wo. result = Some (1, wo) \<and> clean wo
            | (Inr u, a, w) \<Rightarrow>
                (case service_run ev ops evs (service_up ev w) of
                   None \<Rightarrow> result = None
                 | Some w1 \<Rightarrow> \<exists>wo. result = Some (0, wo) \<and> clean wo))"
proof (cases "parse_args args options_default")
  case None
  then show ?thesis by (simp add: service_main_def)
next
  case (Some ops)
  obtain r a w where run: "app_start (app_of (services ev ops tr)) (initial_world ops i) = (r, a, w)"
    by (metis prod.collapse)
  obtain a1 where a1: "app_wait_for_stop sched a = Some a1" using wait_returns [OF assms] by blast
  show ?thesis
  proof (cases r)
    case (Inl e)
    then show ?thesis
      using Some run failed_service_quiet [of ev ops tr i e a w] startup_aborted_ok [of w e]
        service_exit_ok [of "startup_aborted e w"]
      by (simp add: service_main_def)
  next
    case (Inr u)
    show ?thesis
    proof (cases "service_run ev ops evs (service_up ev w)")
      case (Some w1)
      then have "run_events ev ops evs (service_up ev w) = Some w1" "\<not> timer_overflows ops"
        by (simp_all add: service_run_def split: if_splits)
      then show ?thesis
        using Some \<open>parse_args args options_default = Some ops\<close> run a1 Inr
          stopped_service_quiet [of ev ops tr i u a w sched a1 evs w1] service_exit_ok
          late_nuc_quiet [of "snd (app_stop a1 w1)" ops ev late]
        by (auto simp: service_main_def)
    qed (use Some run a1 Inr in \<open>simp add: service_main_def\<close>)
  qed
qed

lemma every_run_returns:
  assumes "parse_args args options_default = Some ops" and "detector_allowed ops"
    and "detect_documented (ev_dnn ev)" and "modest ev ops" and "frames_whole ops evs" and "\<not> timer_overflows ops"
    and "True \<in> set sched"
  shows "\<exists>code w. service_main ev tr evs late i args sched = Some (code, Some w)
    \<and> (case app_start (app_of (services ev ops tr)) (initial_world ops i) of
         (Inl e, a, w0) \<Rightarrow> code = 1
       | (Inr u, a, w0) \<Rightarrow> code = 0 \<and> (\<exists>w1. service_run ev ops evs (service_up ev w0) = Some w1))
    \<and> all_quiet w \<and> log_settled w \<and> \<not> mb_worker (sv_mail w)"
proof -
  have fps: "op_fps ops \<noteq> 0"
    using parse_args_ok [OF _ assms(1)] by (simp add: options_ok_def options_default_def)
  obtain r a w where run: "app_start (app_of (services ev ops tr)) (initial_world ops i) = (r, a, w)"
    by (metis prod.collapse)
  have "svc_inv w" using svc.app_start_keeps [OF _ run] initial_world_ok [of ops i] by blast
  moreover have "detector_ready ops w"
    using ready.app_start_keeps [OF _ run] assms(2,4)
    by (auto simp: ready_env_def detector_ready_def initial_world_def)
  ultimately have up: "svc_inv (service_up ev w)" "detector_ready ops (service_up ev w)"
    using service_up_ok [of w] by (auto simp: service_up_def detector_ready_def split: prod.split)
  obtain w1 where "run_events ev ops evs (service_up ev w) = Some w1"
    using run_events_defined [OF up fps assms(3,4,6,5)] by blast
  then have "service_run ev ops evs (service_up ev w) = Some w1" using assms(6) by (simp add: service_run_def)
  then show ?thesis
    using service_outcome [OF assms(7), of ev tr evs late i args] assms(1) run
    by (cases r) (auto simp: Let_def)
qed

section \<open>Properties\<close>

text \<open>
  C1. The whole program: whatever happens while the service runs, in any order (frames, bus messages,
  turns of the two workers, corrections, broker callbacks), and even if the correction timer goes off only
  after the components have been stopped, if a stop request arrives in one of the
  periods waited for, \<^verbatim>\<open>main\<close> returns, unless the timer's count or one of the events has no defined
  behaviour. It
  returns 2 when the arguments are refused, 1 when a component failed to start and 0 when none did, and
  then the sink thread is joined, \<^verbatim>\<open>CTRL.ENABLE\<close> is clear in the device, the pipeline and the
  publisher are destroyed and both workers have ended, whatever the broker library, GStreamer, OpenCV
  and the clock answered on the way; and no log record is lost on the way out: every ring is empty and
  every sequence number handed out was written or counted as dropped.
\<close>

theorem service_shutdown:
  assumes "True \<in> set sched"
  shows "let result = service_main ev tr evs late i args sched;
      clean = (\<lambda>wo. \<exists>w. wo = Some w \<and> all_quiet w \<and> log_settled w \<and> \<not> mb_worker (sv_mail w))
    in case parse_args args options_default of
         None \<Rightarrow> result = Some (2, None)
       | Some ops \<Rightarrow>
           (case app_start (app_of (services ev ops tr)) (initial_world ops i) of
              (Inl e, a, w) \<Rightarrow> \<exists>wo. result = Some (1, wo) \<and> clean wo
            | (Inr u, a, w) \<Rightarrow>
                (case service_run ev ops evs (service_up ev w) of
                   None \<Rightarrow> result = None
                 | Some w1 \<Rightarrow> \<exists>wo. result = Some (0, wo) \<and> clean wo))"
  by (rule service_outcome [OF assms])

definition demo_transform :: transform where
  "demo_transform v out = (PR_kept, fv_data v)"

theorem service_shutdown_witness:
  "\<exists>w. service_main demo_env demo_transform [] True 0 [''--no-video''] [False, True] = Some w \<and> fst w < 2"
proof -
  have p: "parse_args [''--no-video''] options_default = Some (options_default\<lparr>op_video := False\<rparr>)"
    by (simp add: parse_args.simps parse_option_def)
  let ?ops = "options_default\<lparr>op_video := False\<rparr>"
  obtain r a w where run: "app_start (app_of (services demo_env ?ops demo_transform)) (initial_world ?ops 0) = (r, a, w)"
    by (metis prod.collapse)
  have "\<not> timer_overflows ?ops" by (simp add: timer_overflows_def options_default_def)
  then have idle: "service_run demo_env ?ops [] w1 = Some w1" for w1 by (simp add: service_run_def)
  show ?thesis
    using service_shutdown [of "[False, True]" demo_env demo_transform "[]" True 0 "[''--no-video'']"]
    unfolding p Let_def by (cases r) (auto simp: run idle)
qed

text \<open>
  C34. The correction as a service operation: on any valid device \<^verbatim>\<open>run_nuc\<close> returns, the
  channel is announced degraded before and exactly one closing event follows, \<^verbatim>\<open>NUC_DONE\<close> when the
  correction succeeded and \<^verbatim>\<open>NUC_FAILED\<close> with the error's code and place when it did not; the
  running flag is down afterwards and nothing but the device, the log, the events and the publisher
  is touched.
\<close>

theorem nuc_announced:
  assumes "fake_ok (sv_isp w)"
  shows "\<exists>r m w'. run_nuc (isp_backend ev) nuc_config_default (sv_isp w) = Some (r, m)
    \<and> sensor_run_nuc ev ops w = Some w' \<and> sv_isp w' = m \<and> fake_ok m \<and> \<not> sv_nuc w'
    \<and> sv_events w' = sv_events w @ [(''NUC_STARTED'', 0, ''shutter closing, channel degraded''),
         case r of Inl e \<Rightarrow> (''NUC_FAILED'', code_val (err_code e), err_where e)
                 | Inr x \<Rightarrow> (''NUC_DONE'', 0, ''channel OK'')]
    \<and> sv_pipe w' = sv_pipe w \<and> sv_yolo w' = sv_yolo w \<and> sv_worker w' = sv_worker w
    \<and> (sv_pub w' = None) = (sv_pub w = None)"
proof -
  obtain r m where run: "run_nuc (isp_backend ev) nuc_config_default (sv_isp w) = Some (r, m)" "fake_ok m"
    using fake.run_nuc_returns [OF assms] unfolding isp_backend_def by blast
  show ?thesis using run by (cases r) (simp_all add: sensor_run_nuc_def emit_def Let_def)
qed

theorem nuc_announced_witness:
  "\<exists>w'. sensor_run_nuc demo_env options_default (initial_world options_default 0) = Some w'
     \<and> length (sv_events w') = 2 \<and> \<not> sv_nuc w'"
proof -
  have "fake_ok (sv_isp (initial_world options_default 0 :: (unit, unit) world))"
    using fresh_fake_ok [of "[]"] by (simp add: initial_world_def)
  from nuc_announced [OF this, of demo_env options_default] show ?thesis
    by (auto simp: initial_world_def)
qed

end
