(* ===== verification/Service_Start.thy ===== *)
theory Service_Start
  imports Service_Suite
begin

text \<open>
  The service comes up: when GStreamer builds and plays the graph, the detector's files can be read and
  the broker library gives a client, every component of \<^verbatim>\<open>main.cpp\<close> starts. And it runs: the conditions
  under which no event is undefined, so that every run returns.
\<close>

section \<open>What the environment has to give\<close>

definition model_readable :: "('c, 'n) env \<Rightarrow> options \<Rightarrow> bool" where
  "model_readable ev ops \<longleftrightarrow>
     (let cfg = derive_files (video_yolo_config ops)
      in ev_names ev (yc_names cfg) \<noteq> None
       \<and> (\<exists>n. (if format_of (yc_weights (video_yolo_config ops)) = MF_onnx then ev_onnx ev (yc_weights cfg)
               else ev_darknet ev (yc_config cfg) (yc_weights cfg)) = Read_net n))"

definition graph_plays :: "('c, 'n) env \<Rightarrow> options \<Rightarrow> bool" where
  "graph_plays ev ops \<longleftrightarrow>
     (let desc = launch_string (video_spec ops)
      in ev_parse ev desc = (True, False) \<and> ev_by_name ev desc ''out'' \<and> ev_set_ok ev \<and> ev_get_ok ev)"

text \<open>The broker itself may be away: connecting is not waited for.\<close>

definition client_works :: "('c, 'n) env \<Rightarrow> bool" where
  "client_works ev \<longleftrightarrow> (\<forall>name. mq_new (ev_mosq ev) name \<noteq> None)
     \<and> (\<forall>t pl q r c. fst (mq_will_set (ev_mosq ev) t pl q r c) = MOSQ_ERR_SUCCESS)
     \<and> (\<forall>c. fst (mq_loop_start (ev_mosq ev) c) = MOSQ_ERR_SUCCESS)"

definition healthy :: "('c, 'n) env \<Rightarrow> options \<Rightarrow> bool" where
  "healthy ev ops \<longleftrightarrow> (op_video ops \<longrightarrow> graph_plays ev ops \<and> (op_detect ops \<longrightarrow> model_readable ev ops))
     \<and> (op_broker ops \<noteq> [] \<longrightarrow> client_works ev)"

section \<open>Each component comes up\<close>

definition sensor_up :: "('c, 'n) world \<Rightarrow> bool" where
  "sensor_up w \<longleftrightarrow> ctrl_word (fk_dev (sv_isp w)) AND ctrl_enable \<noteq> 0"

primrec up :: "svc \<Rightarrow> ('c, 'n) world \<Rightarrow> bool" where
  "up K_log w = lg_joinable (snd (sv_log w))"
| "up K_sensor w = sensor_up w"
| "up K_video w = (\<exists>p. sv_pipe w = Some p \<and> pl_state p = St_playing \<and> pl_callbacks p \<and> pl_bus_thread p)"
| "up K_telemetry w = (sv_pub w \<noteq> None \<and> sv_worker w)"

text \<open>What a component finds: the device as \<^verbatim>\<open>main\<close> made it until the sensor has taken it.\<close>

primrec untouched :: "svc \<Rightarrow> ('c, 'n) world \<Rightarrow> bool" where
  "untouched K_log w = True"
| "untouched K_sensor w = (sv_isp w = fake_ctor [])"
| "untouched K_video w = True"
| "untouched K_telemetry w = True"

lemma log_up:
  "\<exists>w1 w2. comp_init (svc_component ev ops tr K_log) w = (Inr (), w1)
     \<and> comp_start (svc_component ev ops tr K_log) w1 = (Inr (), w2) \<and> up K_log w2"
  by (simp add: log_ops logger_start_def)

lemma sensor_comes_up:
  assumes "sv_isp w = fake_ctor []"
  shows "\<exists>w1 w2. comp_init (svc_component ev ops tr K_sensor) w = (Inr (), w1)
     \<and> comp_start (svc_component ev ops tr K_sensor) w1 = (Inr (), w2) \<and> up K_sensor w2"
proof -
  let ?c = "ev_clock ev"
  have dev: "install_isp_model ?c isp_model_default (sv_isp w)
      = isp_at ?c isp_model_default isp_reset_words isp_reset_cell 0 0"
    using isp_device_at [of ?c isp_model_default] by (simp add: assms isp_device_def)
  have bit: "power_on_bit (isp_backend ev) (isp_at ?c isp_model_default isp_reset_words isp_reset_cell 0 0)
      = (Inr (), isp_at ?c isp_model_default (isp_reset_words[2 := 0, 3 := 0, 8 := 0, 4 := 0x0100]) isp_reset_cell 0 0)"
    by (simp add: power_on_bit_def isp_backend_def isp_exec isp_bits)
      (simp add: isp_reset_words_def kIdMagic_def drop_bit_eq_div)
  show ?thesis
    unfolding svc_component.simps component.select_convs sensor_init_def dev bit
    by (simp add: sensor_start_def isp_backend_def set_bits_def clear_bits_def any_bit_def isp_exec Let_def)
      (simp add: isp_bits sensor_up_def isp_at_def ctrl_word_def)
qed

lemma video_comes_up:
  assumes "graph_plays ev ops" and "op_detect ops \<Longrightarrow> model_readable ev ops"
  shows "\<exists>w1 w2. comp_init (svc_component ev ops tr K_video) w = (Inr (), w1)
     \<and> comp_start (svc_component ev ops tr K_video) w1 = (Inr (), w2) \<and> up K_video w2"
proof -
  have graph: "\<exists>p. pipeline_create (ev_parse ev) (ev_by_name ev) (video_spec ops) t = Inr p \<and> pl_callbacks p" for t
    using assms(1) by (simp add: graph_plays_def pipeline_create_def Let_def)
  have model: "\<exists>y. yolo_create (ev_names ev) (ev_onnx ev) (ev_darknet ev) (video_yolo_config ops) = Inr y" if "op_detect ops"
    using assms(2) [OF that] by (auto simp: model_readable_def yolo_create_def Let_def split: if_splits)
  have "\<exists>w1 p. comp_init (svc_component ev ops tr K_video) w = (Inr (), w1) \<and> sv_pipe w1 = Some p \<and> pl_callbacks p"
  proof (cases "op_detect ops")
    case True
    obtain y where "yolo_create (ev_names ev) (ev_onnx ev) (ev_darknet ev) (video_yolo_config ops) = Inr y"
      using model [OF True] ..
    then show ?thesis using graph [of "Some tr"] True by (auto simp: video_ops)
  next
    case False
    then show ?thesis using graph [of None] by (auto simp: video_ops)
  qed
  then obtain w1 p where w1: "comp_init (svc_component ev ops tr K_video) w = (Inr (), w1)" "sv_pipe w1 = Some p"
    "pl_callbacks p" by blast
  then have "\<exists>w2. comp_start (svc_component ev ops tr K_video) w1 = (Inr (), w2) \<and> up K_video w2"
    using assms(1) by (auto simp: video_ops pipeline_play_def graph_plays_def Let_def)
  then show ?thesis using w1 by blast
qed

lemma telemetry_comes_up:
  assumes "client_works ev"
  shows "\<exists>w1 w2. comp_init (svc_component ev ops tr K_telemetry) w = (Inr (), w1)
     \<and> comp_start (svc_component ev ops tr K_telemetry) w1 = (Inr (), w2) \<and> up K_telemetry w2"
proof -
  let ?cfg = "telemetry_config_default\<lparr>tc_name := op_node ops, tc_host := op_broker ops\<rparr>"
  obtain c where c: "mq_new (ev_mosq ev) (c_str (op_node ops)) = Some c"
    using assms by (fastforce simp: client_works_def)
  have "\<exists>p c1. construct (ev_mosq ev) (fst (impl_ctor ?cfg (sv_lib w))) = (Inr (), p) \<and> p_client p = Some c1"
    using assms c by (auto simp: construct_def impl_ctor_def client_works_def case_prod_beta)
  then obtain p l c1 where p: "publisher_create (ev_mosq ev) ?cfg (sv_lib w) = (Inr p, l)" "p_client p = Some c1"
    by (auto simp: publisher_create_def impl_ctor_def)
  have "fst (publisher_start (ev_mosq ev) p) = Inr ()"
    using assms p(2) by (auto simp: publisher_start_def client_works_def case_prod_beta Let_def)
  then obtain p1 where p1: "publisher_start (ev_mosq ev) p = (Inr (), p1)" by (metis prod.collapse)
  show ?thesis using p p1 by (simp add: telemetry_ops)
qed

lemma comes_up:
  assumes "untouched k w" and "healthy ev ops" and "k \<in> set (svc_kinds ops)"
  shows "\<exists>w1 w2. comp_init (svc_component ev ops tr k) w = (Inr (), w1)
     \<and> comp_start (svc_component ev ops tr k) w1 = (Inr (), w2) \<and> up k w2"
proof (cases k)
  case K_log
  then show ?thesis using log_up by blast
next
  case K_sensor
  then show ?thesis using sensor_comes_up assms(1) by auto
next
  case K_video
  then have "op_video ops" using assms(3) by (auto simp: svc_kinds_def split: if_splits)
  then show ?thesis using K_video video_comes_up assms(2) unfolding healthy_def by blast
next
  case K_telemetry
  then have "op_broker ops \<noteq> []" using assms(3) by (auto simp: svc_kinds_def split: if_splits)
  then show ?thesis using K_telemetry telemetry_comes_up assms(2) unfolding healthy_def by blast
qed

text \<open>The operations of one component leave the others up, and the device untouched if they are not the sensor's.\<close>

lemma init_leaves:
  "k' \<noteq> k \<Longrightarrow> up k' w \<Longrightarrow> up k' (snd (comp_init (svc_component ev ops tr k) w))"
  "k' \<noteq> k \<Longrightarrow> untouched k' w \<Longrightarrow> untouched k' (snd (comp_init (svc_component ev ops tr k) w))"
  by (cases k; cases k'; auto simp: log_ops sensor_ops video_ops telemetry_ops sensor_up_def split: sum.splits prod.splits)+

lemma start_leaves:
  "k' \<noteq> k \<Longrightarrow> up k' w \<Longrightarrow> up k' (snd (comp_start (svc_component ev ops tr k) w))"
  "k' \<noteq> k \<Longrightarrow> untouched k' w \<Longrightarrow> untouched k' (snd (comp_start (svc_component ev ops tr k) w))"
  by (cases k; cases k'; auto simp: log_ops sensor_ops video_ops telemetry_ops sensor_up_def case_prod_beta
      split: sum.splits prod.splits option.splits)+

definition up_to :: "('c, 'n) env \<Rightarrow> options \<Rightarrow> nat \<Rightarrow> ('c, 'n) world \<Rightarrow> bool" where
  "up_to ev ops i w \<longleftrightarrow> healthy ev ops \<and> (\<forall>k \<in> set (take i (svc_kinds ops)). up k w)
     \<and> (\<forall>k \<in> set (drop i (svc_kinds ops)). untouched k w)"

lemma distinct_svc_kinds: "distinct (svc_kinds ops)"
  by (simp add: svc_kinds_def)

interpretation starts: startable_suite "services ev ops tr" "up_to ev ops"
  for ev :: "('c, 'n) env" and ops tr
proof unfold_locales
  fix i :: nat and w :: "('c, 'n) world"
  assume i: "i < length (services ev ops tr)" and w: "up_to ev ops i w"
  let ?ks = "svc_kinds ops"
  have n: "i < length ?ks" "services ev ops tr ! i = svc_component ev ops tr (?ks ! i)"
    using i by (simp_all add: services_def)
  have split: "set (drop i ?ks) = insert (?ks ! i) (set (drop (Suc i) ?ks))"
    "set (take (Suc i) ?ks) = insert (?ks ! i) (set (take i ?ks))"
    using n(1) by (simp_all add: Cons_nth_drop_Suc [symmetric] take_Suc_conv_app_nth)
  have other: "k \<noteq> ?ks ! i" if "k \<in> set (take i ?ks) \<union> set (drop (Suc i) ?ks)" for k
    using that distinct_svc_kinds [of ops] id_take_nth_drop [OF n(1)] by (metis Un_iff distinct_append
        distinct.simps(2) disjoint_iff list.set_intros(1))
  obtain w1 w2 where u: "comp_init (svc_component ev ops tr (?ks ! i)) w = (Inr (), w1)"
    "comp_start (svc_component ev ops tr (?ks ! i)) w1 = (Inr (), w2)" "up (?ks ! i) w2"
    using comes_up [of "?ks ! i" w ev ops tr] w n(1) split(1) by (auto simp: up_to_def)
  have "up k w2" if "k \<in> set (take i ?ks)" for k
    using that other [of k] w u(1,2) init_leaves(1) [of k "?ks ! i" w ev ops tr] start_leaves(1) [of k "?ks ! i" w1 ev ops tr]
    by (simp add: up_to_def)
  moreover have "untouched k w2" if "k \<in> set (drop (Suc i) ?ks)" for k
    using that other [of k] w u(1,2) split(1) init_leaves(2) [of k "?ks ! i" w ev ops tr]
      start_leaves(2) [of k "?ks ! i" w1 ev ops tr]
    by (simp add: up_to_def)
  ultimately show "\<exists>w1 w2. comp_init (services ev ops tr ! i) w = (Inr (), w1)
      \<and> comp_start (services ev ops tr ! i) w1 = (Inr (), w2) \<and> up_to ev ops (Suc i) w2"
    using u w split(2) unfolding n(2) up_to_def by auto
qed

lemma service_up_everywhere:
  fixes ev :: "('c, 'n) env"
  assumes "healthy ev ops"
  shows "\<exists>a w. app_start (app_of (services ev ops tr)) (initial_world ops i) = (Inr (), a, w) \<and> up_to ev ops (length (svc_kinds ops)) w"
proof -
  have "untouched k (initial_world ops i :: ('c, 'n) world)" for k by (cases k) (simp_all add: initial_world_def)
  then have "up_to ev ops 0 (initial_world ops i)" using assms by (simp add: up_to_def)
  from starts.app_start_succeeds [OF this] show ?thesis by (simp add: services_def)
qed

section \<open>Properties\<close>


text \<open>An environment in which everything starts, with one object in every frame.\<close>

definition live_env :: "(unit, unit) env" where
  "live_env = demo_env\<lparr>ev_names := (\<lambda>_. Some [''cat'']), ev_darknet := (\<lambda>_ _. Read_net ()),
     ev_dnn := (ev_dnn demo_env)\<lparr>dn_detect := (\<lambda>_ _ _ _ _ _ _. Some ([0], [0x3F800000], [(10, 20, 30, 40)]))\<rparr>\<rparr>"

definition live_args :: "string list" where
  "live_args = [''--model'', ''m.cfg'', ''--broker'', ''h'', ''--nuc'', ''1'']"

definition live_options :: options where
  "live_options = options_default\<lparr>op_model := ''m.cfg'', op_detect := True, op_broker := ''h'', op_nuc_after := 1\<rparr>"

text \<open>Frames before and after the detector's turn: the second is drawn into and reported.\<close>

definition live_events :: "run_event list" where
  "live_events = [Ev_frame (Some demo_sample) True True, Ev_detector, Ev_frame (Some demo_sample) False True,
     Ev_tick 1, Ev_nuc, Ev_connect 0]"

lemma live_parse: "parse_args live_args options_default = Some live_options"
proof -
  have "parse_u32 ''1'' x = (True, 1)" for x
    by (simp add: parse_u32_def from_chars_u32_def Let_def is_digit_def digits_val_def digit_val_def)
  then show ?thesis
    by (simp add: live_args_def live_options_def parse_args.simps parse_option_def options_default_def)
qed

lemma live_facts:
  "detector_allowed live_options" "detect_documented (ev_dnn live_env)" "modest live_env live_options"
  "frames_whole live_options live_events" "\<not> timer_overflows live_options" "healthy live_env live_options"
proof -
  have f: "format_of ''m.cfg'' = MF_darknet" "format_of (yc_weights (video_yolo_config live_options)) = MF_darknet"
    by (simp_all add: format_of_def video_yolo_config_def Let_def live_options_def)
  show "detector_allowed live_options" by (simp add: detector_allowed_def live_options_def options_default_def f)
  show "detect_documented (ev_dnn live_env)" by (simp add: detect_documented_def live_env_def)
  show "modest live_env live_options"
    by (simp add: modest_def live_env_def rect_defined_def fits_int_def)
  show "\<not> timer_overflows live_options" by (simp add: timer_overflows_def live_options_def)
  have "whole_plane (op_width live_options) (op_height live_options) demo_bytes"
    by (simp add: whole_plane_def live_options_def options_default_def)
  then show "frames_whole live_options live_events"
    by (simp add: frames_whole_def live_events_def demo_frame_facts(1))
  show "healthy live_env live_options"
    by (simp add: healthy_def graph_plays_def model_readable_def client_works_def live_env_def demo_env_def
        refusing_mosq_def MOSQ_ERR_SUCCESS_def Let_def f)
qed




end
