(* ===== verification/Service_Threads.thy ===== *)
theory Service_Threads
  imports App_Lifecycle
begin

text \<open>
  The publisher as the threads of \<^verbatim>\<open>main.cpp\<close> share it: \<^verbatim>\<open>TelemetryService\<close> keeps it in an
  optional that \<^verbatim>\<open>init\<close> fills and \<^verbatim>\<open>stop\<close> empties on the main thread, while its worker, the
  streaming thread (detections, between start and stop of the video service) and the correction timer
  (events, until \<^verbatim>\<open>main\<close> returns) call it. A step is one access to the optional or one call through
  it; video is registered before telemetry, so it starts first and stops last.
\<close>

section \<open>States and steps\<close>

datatype main_pc =
    M_video_start | M_init | M_start | M_wait | M_join | M_halt | M_reset | M_video_stop | M_return | M_end

datatype worker_pc = W_none | W_top | W_health | W_sensor | W_ended

text \<open>A pusher has tested \<^verbatim>\<open>if (pub_)\<close> and is about to call, or is not in a call.\<close>

datatype push_pc = U_idle | U_call

record tele =
  tl_main :: main_pc
  tl_worker :: worker_pc
  tl_stream :: push_pc
  tl_timer :: push_pc
  tl_pub :: bool
  tl_stop :: bool
  tl_playing :: bool
  tl_timer_alive :: bool
  tl_dangling :: bool

definition tele_init :: tele where
  "tele_init = \<lparr>tl_main = M_video_start, tl_worker = W_none, tl_stream = U_idle, tl_timer = U_idle, tl_pub = False,
     tl_stop = False, tl_playing = False, tl_timer_alive = False, tl_dangling = False\<rparr>"

text \<open>A call through the optional: it dangles when the publisher is gone.\<close>

definition use_pub :: "tele \<Rightarrow> tele" where
  "use_pub s = s\<lparr>tl_dangling := (tl_dangling s \<or> \<not> tl_pub s)\<rparr>"

text \<open>
  The main thread: the start of video, telemetry's \<^verbatim>\<open>init\<close> and \<^verbatim>\<open>start\<close>, the timer, then the
  stops in reverse order and the return, which joins the timer. Stopping the pipeline and joining a
  thread wait for the call in progress.
\<close>

inductive main_step :: "tele \<Rightarrow> tele \<Rightarrow> bool" where
  video_up: "tl_main s = M_video_start \<Longrightarrow> main_step s (s\<lparr>tl_main := M_init, tl_playing := True\<rparr>)"
| emplaced: "tl_main s = M_init \<Longrightarrow> main_step s (s\<lparr>tl_main := M_start, tl_pub := True\<rparr>)"
| worker_up: "tl_main s = M_start \<Longrightarrow> main_step s (s\<lparr>tl_main := M_wait, tl_worker := W_top, tl_timer_alive := True\<rparr>)"
| stop_asked: "tl_main s = M_wait \<Longrightarrow> main_step s (s\<lparr>tl_main := M_join, tl_stop := True\<rparr>)"
| worker_joined: "tl_main s = M_join \<Longrightarrow> tl_worker s = W_ended \<Longrightarrow> main_step s (s\<lparr>tl_main := M_halt\<rparr>)"
| halted: "tl_main s = M_halt \<Longrightarrow> main_step s ((use_pub s)\<lparr>tl_main := M_reset\<rparr>)"
| emptied: "tl_main s = M_reset \<Longrightarrow> main_step s (s\<lparr>tl_main := M_video_stop, tl_pub := False\<rparr>)"
| video_down: "tl_main s = M_video_stop \<Longrightarrow> tl_stream s = U_idle \<Longrightarrow>
    main_step s (s\<lparr>tl_main := M_return, tl_playing := False\<rparr>)"
| timer_joined: "tl_main s = M_return \<Longrightarrow> tl_timer s = U_idle \<Longrightarrow>
    main_step s (s\<lparr>tl_main := M_end, tl_timer_alive := False\<rparr>)"

inductive worker_step :: "tele \<Rightarrow> tele \<Rightarrow> bool" where
  worker_quits: "tl_worker s = W_top \<Longrightarrow> tl_stop s \<Longrightarrow> worker_step s (s\<lparr>tl_worker := W_ended\<rparr>)"
| worker_turns: "tl_worker s = W_top \<Longrightarrow> \<not> tl_stop s \<Longrightarrow> worker_step s (s\<lparr>tl_worker := W_health\<rparr>)"
| worker_health: "tl_worker s = W_health \<Longrightarrow> worker_step s ((use_pub s)\<lparr>tl_worker := W_sensor\<rparr>)"
| worker_sensor: "tl_worker s = W_sensor \<Longrightarrow> worker_step s ((use_pub s)\<lparr>tl_worker := W_top\<rparr>)"

inductive stream_step :: "tele \<Rightarrow> tele \<Rightarrow> bool" where
  stream_tests: "tl_playing s \<Longrightarrow> tl_stream s = U_idle \<Longrightarrow> tl_pub s \<Longrightarrow> stream_step s (s\<lparr>tl_stream := U_call\<rparr>)"
| stream_calls: "tl_stream s = U_call \<Longrightarrow> stream_step s ((use_pub s)\<lparr>tl_stream := U_idle\<rparr>)"

inductive timer_step :: "tele \<Rightarrow> tele \<Rightarrow> bool" where
  timer_tests: "tl_timer_alive s \<Longrightarrow> tl_timer s = U_idle \<Longrightarrow> tl_pub s \<Longrightarrow> timer_step s (s\<lparr>tl_timer := U_call\<rparr>)"
| timer_calls: "tl_timer s = U_call \<Longrightarrow> timer_step s ((use_pub s)\<lparr>tl_timer := U_idle\<rparr>)"

text \<open>\<open>det\<close>: a detector pushes detections; \<open>nuc\<close>: the correction timer was asked for.\<close>

inductive tele_reach :: "bool \<Rightarrow> bool \<Rightarrow> tele \<Rightarrow> bool" for det nuc where
  tele_start: "tele_reach det nuc tele_init"
| tele_main: "tele_reach det nuc s \<Longrightarrow> main_step s t \<Longrightarrow> tele_reach det nuc t"
| tele_worker: "tele_reach det nuc s \<Longrightarrow> worker_step s t \<Longrightarrow> tele_reach det nuc t"
| tele_stream: "tele_reach det nuc s \<Longrightarrow> det \<Longrightarrow> stream_step s t \<Longrightarrow> tele_reach det nuc t"
| tele_timer: "tele_reach det nuc s \<Longrightarrow> nuc \<Longrightarrow> timer_step s t \<Longrightarrow> tele_reach det nuc t"

inductive_cases main_stepE: "main_step s t"
inductive_cases worker_stepE: "worker_step s t"
inductive_cases stream_stepE: "stream_step s t"
inductive_cases timer_stepE: "timer_step s t"

section \<open>Invariant\<close>

text \<open>
  The worker runs only while the publisher is there; before the reset nothing dangles, whoever pushes.
\<close>

definition tele_inv :: "tele \<Rightarrow> bool" where
  "tele_inv s \<longleftrightarrow>
     (tl_worker s \<in> {W_top, W_health, W_sensor} \<longrightarrow> tl_main s \<in> {M_wait, M_join})
     \<and> (tl_main s \<in> {M_start, M_wait, M_join, M_halt, M_reset} \<longrightarrow> tl_pub s)
     \<and> (tl_main s \<in> {M_video_start, M_init} \<longrightarrow> tl_stream s = U_idle \<and> tl_timer s = U_idle \<and> \<not> tl_pub s)
     \<and> (tl_main s \<in> {M_video_start, M_init, M_start} \<longrightarrow> tl_worker s = W_none)
     \<and> (tl_main s \<notin> {M_video_stop, M_return, M_end} \<longrightarrow> \<not> tl_dangling s)"

lemma tele_inv_main: "tele_inv s \<Longrightarrow> main_step s t \<Longrightarrow> tele_inv t"
  by (erule main_stepE) (auto simp: tele_inv_def use_pub_def)

lemma tele_inv_worker: "tele_inv s \<Longrightarrow> worker_step s t \<Longrightarrow> tele_inv t"
  by (erule worker_stepE; cases "tl_main s") (auto simp: tele_inv_def use_pub_def)

lemma tele_inv_stream: "tele_inv s \<Longrightarrow> stream_step s t \<Longrightarrow> tele_inv t"
  by (erule stream_stepE; cases "tl_main s") (auto simp: tele_inv_def use_pub_def)

lemma tele_inv_timer: "tele_inv s \<Longrightarrow> timer_step s t \<Longrightarrow> tele_inv t"
  by (erule timer_stepE; cases "tl_main s") (auto simp: tele_inv_def use_pub_def)

lemma tele_inv_reach: "tele_reach det nuc s \<Longrightarrow> tele_inv s"
proof (induction rule: tele_reach.induct)
  case tele_start
  then show ?case by (simp add: tele_inv_def tele_init_def)
qed (blast intro: tele_inv_main tele_inv_worker tele_inv_stream tele_inv_timer)+

lemma inv_pub:
  assumes "tele_inv s"
  shows "tl_worker s = W_health \<Longrightarrow> tl_pub s" "tl_worker s = W_sensor \<Longrightarrow> tl_pub s" "tl_main s = M_halt \<Longrightarrow> tl_pub s"
  using assms unfolding tele_inv_def by (simp_all) blast+

lemma worker_keeps:
  "tele_inv s \<Longrightarrow> worker_step s t \<Longrightarrow>
     tl_dangling t = tl_dangling s \<and> tl_stream t = tl_stream s \<and> tl_timer t = tl_timer s"
  by (erule worker_stepE) (simp_all add: use_pub_def inv_pub)

lemma main_keeps:
  "tele_inv s \<Longrightarrow> main_step s t \<Longrightarrow>
     tl_dangling t = tl_dangling s \<and> tl_stream t = tl_stream s \<and> tl_timer t = tl_timer s"
  by (erule main_stepE) (simp_all add: use_pub_def inv_pub)

text \<open>After the reset something dangles only if a pusher had tested before it.\<close>

lemma no_pusher_no_dangling:
  assumes "tele_reach det nuc s" and "\<not> det" and "\<not> nuc"
  shows "tl_stream s = U_idle \<and> tl_timer s = U_idle \<and> \<not> tl_dangling s"
  using assms(1)
proof (induction rule: tele_reach.induct)
  case tele_start
  then show ?case by (simp add: tele_init_def)
next
  case (tele_main s t)
  then show ?case using main_keeps [OF tele_inv_reach [OF tele_main(1)] tele_main(2)] by simp
next
  case (tele_worker s t)
  then show ?case using worker_keeps [OF tele_inv_reach [OF tele_worker(1)] tele_worker(2)] by simp
qed (use assms(2,3) in simp_all)

text \<open>The service up, and the main thread past the reset.\<close>

definition tele_up :: tele where
  "tele_up = tele_init\<lparr>tl_main := M_wait, tl_playing := True, tl_pub := True, tl_worker := W_top, tl_timer_alive := True\<rparr>"

definition tele_down :: "tele \<Rightarrow> tele" where
  "tele_down s = s\<lparr>tl_main := M_video_stop, tl_stop := True, tl_worker := W_ended, tl_pub := False\<rparr>"

lemma reach_up: "tele_reach det nuc tele_up"
proof -
  have "tele_reach det nuc (tele_init\<lparr>tl_main := M_init, tl_playing := True\<rparr>)"
    by (rule tele_main [OF tele_start video_up]) (simp add: tele_init_def)
  from tele_main [OF tele_main [OF this emplaced] worker_up] show ?thesis
    by (simp add: tele_up_def tele_init_def)
qed

lemma reach_down:
  assumes "tele_reach det nuc s" and "tl_main s = M_wait" and "tl_worker s = W_top" and "tl_pub s" and "\<not> tl_dangling s"
  shows "tele_reach det nuc (tele_down s)"
proof -
  have "tele_reach det nuc (s\<lparr>tl_main := M_join, tl_stop := True\<rparr>)"
    by (rule tele_main [OF assms(1) stop_asked [OF assms(2)]])
  from tele_worker [OF this worker_quits]
  have "tele_reach det nuc (s\<lparr>tl_main := M_join, tl_stop := True, tl_worker := W_ended\<rparr>)"
    using assms(3) by simp
  from tele_main [OF tele_main [OF tele_main [OF this worker_joined] halted] emptied] show ?thesis
    using assms(4,5) by (cases s) (simp add: use_pub_def tele_down_def)
qed

lemma pusher_dangles:
  assumes "det \<or> nuc"
  shows "\<exists>s. tele_reach det nuc s \<and> tl_dangling s"
proof (cases det)
  case True
  have "tele_reach det nuc (tele_up\<lparr>tl_stream := U_call\<rparr>)"
    by (rule tele_stream [OF reach_up True stream_tests]) (simp_all add: tele_up_def tele_init_def)
  from tele_stream [OF reach_down [OF this] True stream_calls]
  have "tele_reach det nuc ((use_pub (tele_down (tele_up\<lparr>tl_stream := U_call\<rparr>)))\<lparr>tl_stream := U_idle\<rparr>)"
    by (simp add: tele_down_def tele_up_def tele_init_def)
  then show ?thesis by (intro exI conjI) (assumption, simp add: use_pub_def tele_down_def)
next
  case False
  then have nuc using assms by simp
  have "tele_reach det nuc (tele_up\<lparr>tl_timer := U_call\<rparr>)"
    by (rule tele_timer [OF reach_up \<open>nuc\<close> timer_tests]) (simp_all add: tele_up_def tele_init_def)
  from tele_timer [OF reach_down [OF this] \<open>nuc\<close> timer_calls]
  have "tele_reach det nuc ((use_pub (tele_down (tele_up\<lparr>tl_timer := U_call\<rparr>)))\<lparr>tl_timer := U_idle\<rparr>)"
    by (simp add: tele_down_def tele_up_def tele_init_def)
  then show ?thesis by (intro exI conjI) (assumption, simp add: use_pub_def tele_down_def)
qed

section \<open>Properties\<close>

text \<open>
  C31. The publisher shared between threads, under every interleaving: until \<^verbatim>\<open>stop\<close> empties the
  optional no call goes through a missing publisher, and the telemetry worker and \<^verbatim>\<open>stop\<close> itself
  never make one, since the worker is joined first; with neither detections nor a correction timer no
  call ever does. With either of them one can: the test of \<^verbatim>\<open>pub_\<close> and the call are not one step,
  and the streaming thread and the timer run on while the main thread empties the optional.
\<close>

theorem publisher_shared:
  "(\<forall>s. tele_reach det nuc s \<longrightarrow>
      (tl_main s \<notin> {M_video_stop, M_return, M_end} \<longrightarrow> \<not> tl_dangling s)
      \<and> (\<forall>t. worker_step s t \<or> main_step s t \<longrightarrow> tl_dangling t = tl_dangling s))
   \<and> ((\<exists>s. tele_reach det nuc s \<and> tl_dangling s) \<longleftrightarrow> det \<or> nuc)"
proof -
  have "(\<exists>s. tele_reach det nuc s \<and> tl_dangling s) \<longleftrightarrow> det \<or> nuc"
    using no_pusher_no_dangling [of det nuc] pusher_dangles [of det nuc] by blast
  moreover have "tl_dangling t = tl_dangling s" if "tele_reach det nuc s" "worker_step s t \<or> main_step s t" for s t
    using that worker_keeps main_keeps tele_inv_reach by blast
  moreover have "\<not> tl_dangling s" if "tele_reach det nuc s" "tl_main s \<notin> {M_video_stop, M_return, M_end}" for s
    using that tele_inv_reach by (simp add: tele_inv_def)
  ultimately show ?thesis by blast
qed

theorem publisher_shared_witness:
  "(\<exists>s. tele_reach True False s \<and> tl_dangling s) \<and> \<not> tl_dangling tele_up"
  using publisher_shared [of True False] reach_up [of True False] by (simp add: tele_up_def tele_init_def)

end
