(* ===== verification/Service_Time.thy ===== *)
theory Service_Time
  imports App_Lifecycle Service_Options
begin

text \<open>
  When the service begins to stop: \<^verbatim>\<open>wait_for_stop\<close> and the end of \<^verbatim>\<open>main\<close> with their times, in
  milliseconds from the moment \<^verbatim>\<open>main\<close> waits. \<^verbatim>\<open>request_stop\<close> runs in a signal handler and
  notifies nobody, so the waiter sees a request when its period ends or when it is woken for no reason;
  \<open>woken\<close> lists the times of such spurious wake-ups, in order.
\<close>

section \<open>The waiter\<close>

definition watchdog_period :: nat where
  "watchdog_period = 1000"

text \<open>\<^verbatim>\<open>wait_for\<close> entered at \<open>now\<close> with the stop request as its predicate: the time it returns.\<close>

definition cv_wait_for :: "nat list \<Rightarrow> nat \<Rightarrow> nat \<Rightarrow> nat" where
  "cv_wait_for woken request now =
     (if request \<le> now then now
      else case find (\<lambda>t. now \<le> t \<and> t < now + watchdog_period \<and> request \<le> t) woken of
             Some t \<Rightarrow> t
           | None \<Rightarrow> now + watchdog_period)"

lemma cv_wait_for_bounds:
  shows "now \<le> cv_wait_for woken request now" and "cv_wait_for woken request now \<le> now + watchdog_period"
    and "cv_wait_for woken request now < request \<Longrightarrow> cv_wait_for woken request now = now + watchdog_period"
  by (auto simp: cv_wait_for_def find_Some_iff split: option.splits)

text \<open>The time \<^verbatim>\<open>wait_for_stop\<close> returns and the watchdog counter then.\<close>

function wait_loop :: "nat list \<Rightarrow> nat \<Rightarrow> nat \<Rightarrow> u64 \<Rightarrow> nat \<times> u64" where
  "wait_loop woken request now kicked =
     (if request \<le> now then (now, kicked)
      else let t = cv_wait_for woken request now
           in if request \<le> t then (t, kicked) else wait_loop woken request t (kicked + 1))"
  by pat_completeness auto
termination
  by (relation "measure (\<lambda>(woken, request, now, kicked). request - now)")
    (auto simp: not_le watchdog_period_def dest: cv_wait_for_bounds(3))

declare wait_loop.simps [simp del]

text \<open>
  \<^verbatim>\<open>main\<close> from its wait to \<^verbatim>\<open>app.stop()\<close>: with \<^verbatim>\<open>--seconds\<close> a thread sleeps that long, then
  asks for the stop, and leaving the block joins it. \<open>sigterm\<close> is the time of a signal, if one comes;
  \<open>None\<close>: it never stops.
\<close>

definition timer_end :: "options \<Rightarrow> nat" where
  "timer_end ops = nat (op_seconds ops) * 1000"

definition stop_begins :: "nat list \<Rightarrow> options \<Rightarrow> nat option \<Rightarrow> nat option" where
  "stop_begins woken ops sigterm =
     (if op_seconds ops > 0
      then let request = (case sigterm of None \<Rightarrow> timer_end ops | Some t \<Rightarrow> min t (timer_end ops))
           in Some (max (fst (wait_loop woken request 0 0)) (timer_end ops))
      else map_option (\<lambda>t. fst (wait_loop woken t 0 0)) sigterm)"

section \<open>Latency\<close>

lemma wait_loop_time:
  "request \<le> fst (wait_loop woken request now kicked)
   \<and> fst (wait_loop woken request now kicked) < max (now + 1) (request + watchdog_period)"
proof (induction woken request now kicked rule: wait_loop.induct)
  case (1 woken request now kicked)
  show ?case
  proof (cases "request \<le> now")
    case True
    then show ?thesis by (subst wait_loop.simps) (simp add: wait_loop.simps)
  next
    case False
    let ?t = "cv_wait_for woken request now"
    show ?thesis
    proof (cases "request \<le> ?t")
      case True
      then show ?thesis using False cv_wait_for_bounds(2) [of woken request now]
        by (simp add: wait_loop.simps [of woken request now])
    next
      case t: False
      then show ?thesis using False 1 by (simp add: wait_loop.simps [of woken request now])
    qed
  qed
qed

text \<open>A request in the \<open>k\<close>-th period after \<open>now\<close> costs \<open>k\<close> kicks.\<close>

lemma wait_loop_kicks:
  "now < request \<Longrightarrow> snd (wait_loop woken request now kicked) = kicked + of_nat ((request - now - 1) div watchdog_period)"
proof (induction woken request now kicked rule: wait_loop.induct)
  case (1 woken request now kicked)
  let ?t = "cv_wait_for woken request now"
  show ?case
  proof (cases "request \<le> ?t")
    case True
    then have "(request - now - 1) div watchdog_period = 0"
      using "1.prems" cv_wait_for_bounds(2) [of woken request now] by (simp add: watchdog_period_def)
    then show ?thesis using True "1.prems" by (simp add: wait_loop.simps [of woken request now])
  next
    case False
    then have t: "?t = now + watchdog_period" using cv_wait_for_bounds(3) by simp
    then have "request - now - 1 = (request - ?t - 1) + watchdog_period" using False by simp
    then have "(request - now - 1) div watchdog_period = Suc ((request - ?t - 1) div watchdog_period)"
      by (simp add: watchdog_period_def)
    then show ?thesis using False "1.prems" "1.IH" by (simp add: wait_loop.simps [of woken request now])
  qed
qed

text \<open>
  C27. How long a stop takes to begin. Without \<^verbatim>\<open>--seconds\<close> a signal is acted on within one watchdog
  period (1000 ms), whatever spurious wake-ups there are, and without a signal the service does not stop;
  the watchdog is kicked once for every full period before. With \<^verbatim>\<open>--seconds\<close> the stop begins in
  the period after the run time, and never before: a signal that comes earlier waits for the sleeping
  timer thread, however long its time, where SRS-LC-02 allows 2 s. The kicks are those of
  \<open>app_wait_for_stop\<close> with the request in the same period.
\<close>

theorem stop_latency:
  "(op_seconds ops \<le> 0 \<longrightarrow> stop_begins woken ops None = None
      \<and> (\<exists>e. stop_begins woken ops (Some t) = Some e \<and> t \<le> e \<and> e < t + 1000))
   \<and> (0 < op_seconds ops \<longrightarrow> (\<exists>e. stop_begins woken ops sigterm = Some e
        \<and> nat (op_seconds ops) * 1000 \<le> e \<and> e < nat (op_seconds ops) * 1000 + 1000))
   \<and> (0 < t \<longrightarrow> app_wait_for_stop (replicate ((t - 1) div 1000) False @ [True]) (a\<lparr>kicks := 0, stop_flag := False\<rparr>)
        = Some (a\<lparr>stop_flag := True, kicks := snd (wait_loop woken t 0 0)\<rparr>))"
proof (intro conjI impI)
  assume "op_seconds ops \<le> 0"
  then show "stop_begins woken ops None = None"
    and "\<exists>e. stop_begins woken ops (Some t) = Some e \<and> t \<le> e \<and> e < t + 1000"
    using wait_loop_time [of t woken 0 0] by (simp_all add: stop_begins_def watchdog_period_def)
next
  assume "0 < op_seconds ops"
  moreover define request where "request = (case sigterm of None \<Rightarrow> timer_end ops | Some t \<Rightarrow> min t (timer_end ops))"
  moreover have "request \<le> timer_end ops" by (simp add: request_def split: option.split)
  ultimately show "\<exists>e. stop_begins woken ops sigterm = Some e
        \<and> nat (op_seconds ops) * 1000 \<le> e \<and> e < nat (op_seconds ops) * 1000 + 1000"
    using wait_loop_time [of request woken 0 0] by (simp add: stop_begins_def watchdog_period_def timer_end_def)
next
  assume "0 < t"
  then show "app_wait_for_stop (replicate ((t - 1) div 1000) False @ [True]) (a\<lparr>kicks := 0, stop_flag := False\<rparr>)
        = Some (a\<lparr>stop_flag := True, kicks := snd (wait_loop woken t 0 0)\<rparr>)"
    using wait_loop_kicks [of 0 t woken 0] wait_for_stop_kicks [of "(t - 1) div 1000" "[]" "a\<lparr>kicks := 0\<rparr>"]
    by (simp add: watchdog_period_def)
qed

theorem stop_latency_witness:
  "stop_begins [] options_default None = None
   \<and> (\<exists>e. stop_begins [] (options_default\<lparr>op_seconds := 3600\<rparr>) (Some 5) = Some e \<and> 3600000 \<le> e)"
  using stop_latency [of options_default "[]" 0 None] stop_latency [of "options_default\<lparr>op_seconds := 3600\<rparr>" "[]" 0 "Some 5"]
  by (auto simp: options_default_def)

end
