(* ===== verification/Service_Output.thy ===== *)
theory Service_Output
  imports Service_Suite
begin

text \<open>
  What a user of the service sees on \<^verbatim>\<open>stderr\<close> when it does not run: the usage text, compared with
  the options \<^verbatim>\<open>parse_args\<close> accepts, and the line of a failed start.
\<close>

section \<open>The options named in a text\<close>

definition is_option_char :: "char \<Rightarrow> bool" where
  "is_option_char c \<longleftrightarrow> c \<in> set ''abcdefghijklmnopqrstuvwxyz-''"

fun words_of :: "string \<Rightarrow> string \<Rightarrow> string list" where
  "words_of acc [] = [rev acc]"
| "words_of acc (c # cs) = (if is_option_char c then words_of (c # acc) cs else rev acc # words_of [] cs)"

definition option_words :: "string \<Rightarrow> string list" where
  "option_words s = filter (\<lambda>w. take 2 w = ''--'') (words_of [] s)"

definition accepted_options :: "string list" where
  "accepted_options = [''--gain'', ''--width'', ''--height'', ''--fps'', ''--host'', ''--port'', ''--stream'',
     ''--no-video'', ''--camera'', ''--detect'', ''--input-size'', ''--detect-sync'', ''--model'', ''--device'',
     ''--pattern'', ''--nuc'', ''--broker'', ''--node'', ''--seconds'', ''--debug'', ''--quiet'']"

lemma usage_words: "option_words usage_text = [''--gain'', ''--width'', ''--height'', ''--fps'', ''--stream'',
    ''--host'', ''--port'', ''--seconds'', ''--broker'', ''--node'', ''--no-video'', ''--nuc'', ''--camera'',
    ''--device'', ''--pattern'', ''--detect'', ''--model'', ''--input-size'', ''--detect-sync'', ''--debug'',
    ''--quiet'', ''--stream'', ''--broker'']"
  by code_simp

lemma parse_100: "parse_u32 ''100'' v = (True, 100)"
  by (simp add: parse_u32_def from_chars_u32_def is_digit_def digits_val_def digit_val_def)

lemma accepted_by_parser: "\<forall>a \<in> set accepted_options. parse_option a ''100'' options_default \<noteq> None"
  unfolding accepted_options_def by (auto simp: parse_option_def parse_100)

lemma refused_by_parser: "a \<notin> set accepted_options \<Longrightarrow> parse_option a nx ops = None"
  by (simp add: accepted_options_def parse_option_def)

lemma usage_set: "set (option_words usage_text) = set accepted_options"
  unfolding usage_words accepted_options_def by code_simp

lemma usage_names_options: "(\<exists>nx. parse_option a nx options_default \<noteq> None) \<longleftrightarrow> a \<in> set (option_words usage_text)"
proof (cases "a \<in> set accepted_options")
  case True
  then have "parse_option a ''100'' options_default \<noteq> None" by (rule bspec [OF accepted_by_parser])
  then show ?thesis unfolding usage_set using True by blast
next
  case False
  then show ?thesis unfolding usage_set using refused_by_parser [OF False] by simp
qed

section \<open>A failed start\<close>

lemma quiet_exit_out:
  assumes "svc_inv w" and "all_quiet w"
  shows "\<exists>rs. lg_out (snd (sv_log (service_exit w))) = lg_out (snd (sv_log w)) @ concat (map record_line rs)"
proof -
  have nj: "\<not> lg_joinable (snd (sv_log w))" and ok: "\<forall>p \<in> set (lg_producers (snd (sv_log w))). producer_ok p"
    using assms by (simp_all add: svc_inv_def all_quiet_def logger_ok_def)
  obtain ps' where "drain_now (snd (sv_log w)) = Some (sum_list (map pending (lg_producers (snd (sv_log w)))),
       (fold write_record (concat (map (\<lambda>p. ring_content (p_ring p)) (lg_producers (snd (sv_log w))))) (snd (sv_log w)))
         \<lparr>lg_producers := ps'\<rparr>)"
    using drain_now_spec [OF ok] by blast
  then show ?thesis using nj
    by (auto simp: service_exit_def logger_dtor_def logger_stop_def fold_write_record Let_def)
qed

text \<open>
  C28. What \<^verbatim>\<open>stderr\<close> shows when the service does not run. Refused arguments: exit code 2 and the
  usage text, which names exactly the options \<^verbatim>\<open>parse_args\<close> accepts. A failed start: exit code 1, and
  after what the logger had printed when everything was stopped again the line with the place and the
  code of the error, followed at most by records the logger still held. The place is the one the error
  carries, not the component's name.
\<close>

theorem service_reports:
  assumes "True \<in> set sched"
  shows "((\<exists>nx. parse_option o' nx options_default \<noteq> None) \<longleftrightarrow> o' \<in> set (option_words usage_text))
    \<and> (case parse_args args options_default of
         None \<Rightarrow> service_stderr ev tr evs late i args sched = Some (2, usage_text)
       | Some ops \<Rightarrow>
           (case app_start (app_of (services ev ops tr)) (initial_world ops i) of
              (Inl e, a, w) \<Rightarrow>
                \<exists>rs. service_stderr ev tr evs late i args sched
                  = Some (1, lg_out (snd (sv_log w)) @ abort_line e @ concat (map record_line rs))
            | (Inr u, a, w) \<Rightarrow>
                \<forall>code out. service_stderr ev tr evs late i args sched = Some (code, out) \<longrightarrow> code = 0))"
proof (cases "parse_args args options_default")
  case None
  then show ?thesis using usage_names_options by (simp add: service_stderr_def service_main_def)
next
  case (Some ops)
  obtain r a w where run: "app_start (app_of (services ev ops tr)) (initial_world ops i) = (r, a, w)"
    by (metis prod.collapse)
  show ?thesis
  proof (cases r)
    case (Inl e)
    have "svc_inv (startup_aborted e w) \<and> all_quiet (startup_aborted e w)"
      using failed_service_quiet run startup_aborted_ok unfolding Inl by blast
    then obtain rs where "lg_out (snd (sv_log (service_exit (startup_aborted e w))))
        = lg_out (snd (sv_log (startup_aborted e w))) @ concat (map record_line rs)"
      using quiet_exit_out by blast
    then show ?thesis using Some run Inl usage_names_options
      by (auto simp: service_stderr_def service_main_def startup_aborted_def Let_def)
  next
    case (Inr u)
    then show ?thesis using Some run usage_names_options
      by (auto simp: service_stderr_def service_main_def split: option.splits)
  qed
qed

theorem service_reports_witness:
  "service_stderr demo_env demo_transform [] False 0 [''--frobnicate''] [True] = Some (2, usage_text)
   \<and> ''--seconds'' \<in> set (option_words usage_text)"
proof -
  have p: "parse_args [''--frobnicate''] options_default = None"
    by (simp add: parse_args.simps parse_option_def)
  have "parse_option ''--seconds'' ''100'' options_default \<noteq> None" by (simp add: parse_option_def parse_100)
  then show ?thesis
    using service_reports [of "[True]", where o' = "''--seconds''" and args = "[''--frobnicate'']" and ev = demo_env
        and tr = demo_transform and evs = "[]" and late = False and i = 0]
    unfolding p by auto
qed

lemma abort_line_example:
  "abort_line \<lparr>err_code = vid_build, err_where = ''Pipeline::create''\<rparr>
     = ''startup aborted at '' @ [CHR 0x27] @ ''Pipeline::create'' @ [CHR 0x27] @ '' (code 0x0401)'' @ [NL]"
  by code_simp

end
