(* ===== verification/Service_Wire.thy ===== *)
theory Service_Wire
  imports Service_Start Telemetry_Json Telemetry_Clients
begin

text \<open>
  What the running service hands to the broker library (\<^verbatim>\<open>main.cpp\<close>, \<^verbatim>\<open>publisher.cpp\<close>): the
  messages its client sees between the start and the stop, read back as JSON and compared with
  \<^verbatim>\<open>docs/07_LOGGING_TELEMETRY.md\<close>. The library is \<open>watched\<close>, so that the client keeps its calls.
\<close>

section \<open>Messages\<close>

definition reads_as :: "payload \<Rightarrow> json \<Rightarrow> bool" where
  "reads_as pl j \<longleftrightarrow> pl_over pl = 0 \<and> json_read (pl_bytes pl) = Some j"

definition health_message :: "payload \<Rightarrow> nat \<Rightarrow> bool \<Rightarrow> bool" where
  "health_message pl q r \<longleftrightarrow> q = 0 \<and> r
     \<and> (\<exists>secs. reads_as pl (health_json \<lparr>hs_state = ''OK'', hs_uptime_s = secs, hs_faults = 0\<rparr>))"

definition sensor_message :: "payload \<Rightarrow> nat \<Rightarrow> bool \<Rightarrow> bool" where
  "sensor_message pl q r \<longleftrightarrow> q = 0 \<and> \<not> r \<and> (\<exists>s. reads_as pl (sensor_json s))"

definition event_message :: "payload \<Rightarrow> nat \<Rightarrow> bool \<Rightarrow> bool" where
  "event_message pl q r \<longleftrightarrow> q = 1 \<and> \<not> r
     \<and> (\<exists>i cd body. i \<in> {''NUC_STARTED'', ''NUC_FAILED'', ''NUC_DONE''} \<and> reads_as pl (event_json i cd body))"

text \<open>The last case is the payload exactly as long as its buffer, whose closing bracket is cut off.\<close>

definition detections_message :: "payload \<Rightarrow> nat \<Rightarrow> bool \<Rightarrow> bool" where
  "detections_message pl q r \<longleftrightarrow> q = 0 \<and> \<not> r
     \<and> ((\<exists>sq cnt trunc obs. reads_as pl (detections_json sq cnt trunc obs))
        \<or> (length (pl_bytes pl) = 2048 \<and> pl_over pl = 0))"

definition topic_of :: "string \<Rightarrow> string \<Rightarrow> string" where
  "topic_of node leaf = c_str (''optronic/'' @ node @ ''/'' @ leaf)"

text \<open>
  The topics SPEC-07 section 4 has and the service uses (it has \<^verbatim>\<open>latency\<close> and \<^verbatim>\<open>bit\<close> too, which
  nothing publishes), and the topic the code adds to them.
\<close>

definition spec_publish :: "string \<Rightarrow> string \<Rightarrow> payload \<Rightarrow> nat \<Rightarrow> bool \<Rightarrow> bool" where
  "spec_publish node t pl q r \<longleftrightarrow>
     (t = topic_of node ''health'' \<and> health_message pl q r)
     \<or> (t = topic_of node ''sensor'' \<and> sensor_message pl q r)
     \<or> (t = topic_of node ''event'' \<and> event_message pl q r)"

definition added_publish :: "string \<Rightarrow> string \<Rightarrow> payload \<Rightarrow> nat \<Rightarrow> bool \<Rightarrow> bool" where
  "added_publish node t pl q r \<longleftrightarrow> t = topic_of node ''detections'' \<and> detections_message pl q r"

definition known_message :: "string \<Rightarrow> mcall \<Rightarrow> bool" where
  "known_message node m \<longleftrightarrow>
     (case m of M_publish t pl q r \<Rightarrow> spec_publish node t pl q r \<or> added_publish node t pl q r | _ \<Rightarrow> True)"

lemmas known_defs = known_message_def spec_publish_def added_publish_def

text \<open>The calls the service's client has seen so far.\<close>

definition on_wire :: "('c client, 'n) world \<Rightarrow> mcall list" where
  "on_wire w = (case sv_pub w of None \<Rightarrow> []
     | Some p \<Rightarrow> (case p_client p of None \<Rightarrow> [] | Some (c, h) \<Rightarrow> h))"

section \<open>What the environment has to give\<close>

definition plain_names :: "('c, 'n) env \<Rightarrow> bool" where
  "plain_names ev \<longleftrightarrow> (\<forall>f ls. ev_names ev f = Some ls \<longrightarrow> (\<forall>l \<in> set ls. plain l))"

definition finite_scores :: "'n dnn \<Rightarrow> bool" where
  "finite_scores dn \<longleftrightarrow> (\<forall>yo luma w h ids scores boxes.
     infer dn yo luma w h = Value (ids, scores, boxes) \<longrightarrow> (\<forall>s \<in> set scores. finite_fp (decode_float s)))"

section \<open>The invariant\<close>

text \<open>Every message is one of the samples or events the publisher has counted.\<close>

definition messages :: "mcall list \<Rightarrow> nat" where
  "messages h = length (filter (\<lambda>m. case m of M_publish t pl q r \<Rightarrow> True | _ \<Rightarrow> False) h)"

definition pub_wire :: "string \<Rightarrow> 'c client publisher \<Rightarrow> bool" where
  "pub_wire node p \<longleftrightarrow> tc_name (p_cfg p) = node
     \<and> (\<exists>c h. p_client p = Some (c, h) \<and> (\<forall>m \<in> set h. known_message node m)
          \<and> p_published p + p_failed p = of_nat (messages h))"

definition yolo_plain :: "'n yolo \<Rightarrow> bool" where
  "yolo_plain y \<longleftrightarrow> (\<forall>l \<in> set (yo_classes y). plain l) \<and> (\<forall>d \<in> set (yo_last y). printable (detected d))"

definition wire_inv :: "options \<Rightarrow> ('c client, 'n) world \<Rightarrow> bool" where
  "wire_inv ops w \<longleftrightarrow> (\<forall>p. sv_pub w = Some p \<longrightarrow> pub_wire (op_node ops) p)
     \<and> (\<forall>y. sv_yolo w = Some y \<longrightarrow> yolo_plain y)"

lemma pub_wire_logs [simp]: "pub_wire node (p\<lparr>p_logs := ls\<rparr>) = pub_wire node p"
  by (simp add: pub_wire_def)

lemma wire_slog [simp]: "wire_inv ops (slog ev l cn msg kvs w) = wire_inv ops w"
  "wire_inv ops (relay ev ls w) = wire_inv ops w"
  "wire_inv ops (w\<lparr>sv_isp := d\<rparr>) = wire_inv ops w" "wire_inv ops (w\<lparr>sv_nuc := n\<rparr>) = wire_inv ops w"
  "wire_inv ops (w\<lparr>sv_mail := mb\<rparr>) = wire_inv ops w" "wire_inv ops (w\<lparr>sv_pipe := q\<rparr>) = wire_inv ops w"
  "wire_inv ops (w\<lparr>sv_events := es\<rparr>) = wire_inv ops w" "wire_inv ops (w\<lparr>sv_worker := b\<rparr>) = wire_inv ops w"
  "wire_inv ops (w\<lparr>sv_log := lg\<rparr>) = wire_inv ops w" "wire_inv ops (w\<lparr>sv_lib := li\<rparr>) = wire_inv ops w"
  by (simp_all add: wire_inv_def)

lemma wire_pub_do:
  assumes "wire_inv ops w" and "\<And>p. pub_wire (op_node ops) p \<Longrightarrow> pub_wire (op_node ops) (f p)"
  shows "wire_inv ops (pub_do ev f w)"
  using assms by (auto simp: pub_do_def Let_def wire_inv_def split: option.splits)

section \<open>Publishing\<close>

lemma publish_cfg [simp]: "p_cfg (publish mq leaf pl q r p) = p_cfg p"
  by (simp add: publish_def plog_def Let_def split: option.split prod.split)

lemma pub_wire_publish:
  assumes "pub_wire node p" and "known_message node (M_publish (topic_of node leaf) pl q r)"
  shows "pub_wire node (publish (watched mq) leaf pl q r p)"
proof -
  obtain c h where c: "p_client p = Some (c, h)" "\<forall>m \<in> set h. known_message node m"
    "p_published p + p_failed p = of_nat (messages h)" and n: "tc_name (p_cfg p) = node"
    using assms(1) by (auto simp: pub_wire_def)
  have t: "c_str (topic p leaf) = topic_of node leaf"
    using n by (simp add: topic_def topic_of_def)
  obtain c1 where "p_client (publish (watched mq) leaf pl q r p) = Some (c1, h @ [M_publish (topic_of node leaf) pl q r])"
    by (rule publish_seen [OF c(1), of mq leaf pl q r, unfolded t])
  moreover have "p_published (publish (watched mq) leaf pl q r p) + p_failed (publish (watched mq) leaf pl q r p)
      = p_published p + p_failed p + 1"
    using publish_step [of p "watched mq" leaf pl q r] c(1) by simp
  moreover have "messages (h @ [M_publish (topic_of node leaf) pl q r]) = messages h + 1"
    by (simp add: messages_def)
  ultimately show ?thesis using assms(2) c(2,3) n by (simp add: pub_wire_def)
qed

lemma plain_texts:
  "plain ''OK''" "plain ''NUC_STARTED''" "plain ''NUC_FAILED''" "plain ''NUC_DONE''"
  "plain ''shutter closing, channel degraded''" "plain ''channel OK''" "plain ''?''"
  "plain ''nuc: shutter reports FAULT''" "plain ''nuc: shutter did not close''"
  "plain ''nuc: accumulation did not finish''" "plain ''nuc: shutter did not reopen''"
  by (simp_all add: plain_rules plain_char_def)

lemma wire_health:
  "pub_wire node p \<Longrightarrow> pub_wire node
     (publish_health (watched mq) \<lparr>hs_state = ''OK'', hs_uptime_s = secs, hs_faults = 0\<rparr> p)"
  by (auto simp: publish_health_def publish_opt_def payloads_fit known_defs health_message_def
      reads_as_def read_health plain_texts kQosPeriodic_def intro!: pub_wire_publish)

lemma wire_sensor: "pub_wire node p \<Longrightarrow> pub_wire node (publish_sensor (watched mq) s p)"
  by (auto simp: publish_sensor_def publish_opt_def payloads_fit known_defs sensor_message_def
      reads_as_def read_sensor kQosPeriodic_def intro!: pub_wire_publish)

lemma wire_event:
  assumes "pub_wire node p" and "i \<in> {''NUC_STARTED'', ''NUC_FAILED'', ''NUC_DONE''}" and "plain body"
  shows "pub_wire node (publish_event (watched mq) i cd body p)"
proof -
  have i: "plain i" "length i \<le> 97" using assms(2) plain_texts by auto
  have "reads_as \<lparr>pl_bytes = event_text i cd body, pl_over = 0\<rparr> (event_json i cd body)"
    by (simp add: reads_as_def read_event i(1) assms(3))
  then have "known_message node (M_publish (topic_of node ''event'')
      \<lparr>pl_bytes = event_text i cd body, pl_over = 0\<rparr> kQosEvent False)"
    using assms(2) unfolding known_defs event_message_def kQosEvent_def by fastforce
  then show ?thesis using assms(1) i(2)
    by (simp add: publish_event_def publish_opt_def payloads_fit pub_wire_publish)
qed

lemma printable_no_quote: "printable ob \<Longrightarrow> no_quote ob"
proof -
  have "\<not> plain_char NUL" "\<not> plain_char (CHR 0x22)" by (simp_all add: plain_char_def)
  then show "printable ob \<Longrightarrow> no_quote ob" unfolding printable_def no_quote_def plain_def by blast
qed

lemma detections_spoken:
  assumes "\<forall>ob \<in> set obs. printable ob" and "\<forall>pl. detections_payload sq obs = Some pl \<longrightarrow> pl_over pl = 0"
  shows "\<exists>pl. detections_payload sq obs = Some pl \<and> detections_message pl 0 False"
proof -
  obtain m pl where d: "detections_payload sq obs = Some pl"
     "let full = detections_head sq (of_nat (length obs)) @ objects_json 0 (take m obs)
                     @ detections_tail (m < length obs)
        in (if length full < 2048 then pl = \<lparr>pl_bytes = full, pl_over = 0\<rparr>
            else pl_over pl = length full - 2048 \<and> length full \<le> 2051 \<and> length (pl_bytes pl) = 2048)"
    using detections_payload_spec [of sq obs] by blast
  let ?full = "detections_head sq (of_nat (length obs)) @ objects_json 0 (take m obs)
    @ detections_tail (m < length obs)"
  have p: "\<forall>ob \<in> set (take m obs). printable ob" using assms by (meson in_set_takeD)
  then have "\<forall>ob \<in> set (take m obs). no_quote ob" using printable_no_quote by blast
  from read_detections [OF this, of sq "of_nat (length obs)" "m < length obs"]
  have "json_read ?full = Some (detections_json sq (unat (of_nat (length obs) :: u64)) (m < length obs) (take m obs))"
    unfolding if_P [OF p] .
  moreover have "pl = \<lparr>pl_bytes = ?full, pl_over = 0\<rparr> \<or> (length (pl_bytes pl) = 2048 \<and> pl_over pl = 0)"
    using d(2) assms(2) d(1) unfolding Let_def by (cases "length ?full < 2048") (auto simp del: length_append)
  ultimately have "detections_message pl 0 False"
    unfolding detections_message_def reads_as_def by (elim disjE) (simp, blast, simp)
  with d(1) show ?thesis by blast
qed

lemma wire_detections:
  assumes "pub_wire node p" and "\<forall>ob \<in> set obs. printable ob"
    and "\<forall>pl. detections_payload sq obs = Some pl \<longrightarrow> pl_over pl = 0"
  shows "pub_wire node (publish_detections (watched mq) sq obs p)"
proof -
  obtain pl where pl: "detections_payload sq obs = Some pl" "detections_message pl 0 False"
    using detections_spoken [OF assms(2,3)] by blast
  have "known_message node (M_publish (topic_of node ''detections'') pl kQosPeriodic False)"
    using pl(2) by (simp add: known_defs kQosPeriodic_def)
  then show ?thesis using assms(1)
    by (simp add: publish_detections_def publish_opt_def pl(1) pub_wire_publish)
qed

lemma wire_callbacks:
  "pub_wire node p \<Longrightarrow> pub_wire node (on_connect rc p)" "pub_wire node p \<Longrightarrow> pub_wire node (on_disconnect p)"
  by (simp_all add: pub_wire_def on_connect_def on_disconnect_def plog_def Let_def)

section \<open>Detector and correction\<close>

lemma label_plain: "\<forall>l \<in> set cls. plain l \<Longrightarrow> plain (label_of cls i)"
  by (simp add: label_of_def Let_def plain_texts)

lemma detect_plain:
  assumes "detect dn luma w h y = Some y'" and "finite_scores dn" and "yolo_plain y"
  shows "yolo_plain y'"
proof (cases "\<exists>v. infer dn y luma w h = Value v")
  case True
  then obtain ids scores boxes where v: "infer dn y luma w h = Value (ids, scores, boxes)" by auto
  have "finite_fp (decode_float (scores ! i))" if "i < length scores" for i
    using assms(2) v that unfolding finite_scores_def by (meson nth_mem)
  moreover have "plain (label_of (yo_classes y) i)" for i
    using assms(3) by (simp add: yolo_plain_def label_plain)
  ultimately show ?thesis using assms(1,3)
    by (auto simp: detect_def v Let_def yolo_plain_def detected_def printable_def split: if_splits prod.splits)
next
  case False
  then show ?thesis using assms(1,3) by (auto simp: detect_def split: outcome.splits)
qed

lemma process_plain:
  assumes "yolo_process dn got_lock v out (y, mb) = Some (r, out', y', mb')" and "finite_scores dn" and "yolo_plain y"
  shows "yolo_plain y'"
proof -
  have f: "yolo_plain (y\<lparr>yo_frame := k\<rparr>)" for k using assms(3) by (simp add: yolo_plain_def)
  show ?thesis using assms(1) f detect_plain [OF _ assms(2) f] assms(3)
    by (auto simp: yolo_process_def Let_def split: if_splits option.splits)
qed

lemma nuc_where:
  "run_nuc bk cfg s = Some (Inl e, s') \<Longrightarrow> plain (err_where e)"
  by (auto simp: run_nuc_def fail_def Let_def plain_texts bind_eq_Some_conv case_prod_beta split: if_splits)

section \<open>Every operation keeps the invariant\<close>

text \<open>The environment of the statements: a watched library, names and scores that can be written.\<close>

definition wire_env :: "('c client, 'n) env \<Rightarrow> 'c mosq \<Rightarrow> bool" where
  "wire_env ev mq \<longleftrightarrow> ev_mosq ev = watched mq \<and> plain_names ev \<and> finite_scores (ev_dnn ev)"

lemma wire_publishers:
  "wire_inv ops w \<Longrightarrow> wire_inv ops (pub_do ev (publish_sensor (watched mq) s) w)"
  "wire_inv ops w \<Longrightarrow> wire_inv ops (pub_do ev (publish_health (watched mq)
     \<lparr>hs_state = ''OK'', hs_uptime_s = secs, hs_faults = 0\<rparr>) w)"
  "wire_inv ops w \<Longrightarrow> wire_inv ops (pub_do ev (on_connect rc) w)"
  "wire_inv ops w \<Longrightarrow> wire_inv ops (pub_do ev on_disconnect w)"
  by (auto intro!: wire_pub_do wire_sensor wire_health wire_callbacks)

lemma wire_emit:
  assumes "ev_mosq ev = watched mq" and "wire_inv ops w"
    and "i \<in> {''NUC_STARTED'', ''NUC_FAILED'', ''NUC_DONE''}" and "plain body"
  shows "wire_inv ops (emit ev ops i cd body w)"
proof -
  have "wire_inv ops (pub_do ev (publish_event (watched mq) i cd body) (w\<lparr>sv_events := es\<rparr>))" for es
    by (rule wire_pub_do, simp add: assms(2)) (rule wire_event [OF _ assms(3,4)])
  then show ?thesis using assms(1,2) by (simp add: emit_def Let_def)
qed

lemma wire_nuc:
  assumes "ev_mosq ev = watched mq" and "wire_inv ops w" and "sensor_run_nuc ev ops w = Some w'"
  shows "wire_inv ops w'"
proof -
  let ?w1 = "slog ev L_warn ''sensor'' ''NUC started - channel DEGRADED, shutter closing'' [] (w\<lparr>sv_nuc := True\<rparr>)"
  let ?w2 = "emit ev ops ''NUC_STARTED'' 0 ''shutter closing, channel degraded'' ?w1"
  have w2: "wire_inv ops ?w2" by (rule wire_emit [OF assms(1)]) (use assms(2) plain_texts in simp_all)
  obtain r m where run: "run_nuc (isp_backend ev) nuc_config_default (sv_isp ?w2) = Some (r, m)"
    using assms(3) by (auto simp: sensor_run_nuc_def Let_def)
  show ?thesis
  proof (cases r)
    case (Inl e)
    have "plain (err_where e)" by (rule nuc_where [OF run [unfolded Inl]])
    then show ?thesis using assms(3) run w2 Inl
      by (auto simp: sensor_run_nuc_def Let_def intro!: wire_emit [OF assms(1)])
  next
    case (Inr res)
    then show ?thesis using assms(3) run w2
      by (auto simp: sensor_run_nuc_def Let_def plain_texts intro!: wire_emit [OF assms(1)])
  qed
qed

lemma wire_tick:
  assumes "ev_mosq ev = watched mq" and "wire_inv ops w"
  shows "wire_inv ops (telemetry_tick ev secs w)"
  using assms by (simp add: telemetry_tick_def sample_sensor_def Let_def case_prod_beta wire_publishers)

lemma wire_on_frame:
  assumes "ev_mosq ev = watched mq" and "wire_inv ops w" and "video_on_frame ev ops f w = Some (v, w')"
  shows "wire_inv ops w'"
proof -
  have "wire_inv ops (pub_do ev (publish_detections (watched mq) sq (map detected (yolo_last y))) w)"
    if y: "sv_yolo w = Some y" and o: "\<not> report_overruns sq (map detected (yolo_last y)) w" for sq y
  proof (cases "sv_pub w")
    case None
    then show ?thesis using assms(2) by (simp add: pub_do_def)
  next
    case (Some p)
    then have "p_client p \<noteq> None" using assms(2) by (auto simp: wire_inv_def pub_wire_def)
    then have "\<forall>pl. detections_payload sq (map detected (yolo_last y)) = Some pl \<longrightarrow> pl_over pl = 0"
      using o Some by (auto simp: report_overruns_def split: option.splits)
    then show ?thesis
      by (intro wire_pub_do [OF assms(2)] wire_detections)
        (use assms(2) y in \<open>auto simp: wire_inv_def yolo_plain_def\<close>)
  qed
  then show ?thesis using assms
    by (auto simp: video_on_frame_def Let_def split: if_splits option.splits)
qed

lemma wire_yolo: "wire_inv ops w \<Longrightarrow> yolo_plain y \<Longrightarrow> wire_inv ops (w\<lparr>sv_yolo := Some y\<rparr>)"
  by (simp add: wire_inv_def)

lemma wire_detector_turn:
  assumes "finite_scores (ev_dnn ev)" and "wire_inv ops w" and "detector_turn ev got_lock v w = Some (r, w')"
  shows "wire_inv ops w'"
  using assms by (auto simp: detector_turn_def wire_inv_def split: option.splits intro: process_plain)

lemma wire_new_sample:
  assumes "wire_env ev mq" and "wire_inv ops w"
    and "video_new_sample ev ops sample got_lock push_ok p w = Some (fl, w')"
  shows "wire_inv ops w'"
proof (cases "sample_buffer sample")
  case None
  then show ?thesis using assms by (auto simp: video_new_sample_def split: prod.splits)
next
  case (Some x)
  obtain sm b where x: "x = (sm, b)" by fastforce
  obtain r w1 v w2 p1 where w: "detector_turn ev got_lock (sample_view sm b p) w = Some (r, w1)"
    "video_on_frame ev ops (shown (sample_view sm b p) r) w1 = Some (v, w2)" "w' = w2\<lparr>sv_pipe := Some p1\<rparr>"
    using assms(3) Some x by (auto simp: video_new_sample_def Let_def split: option.splits prod.splits)
  have "wire_inv ops w1" using wire_detector_turn [OF _ assms(2) w(1)] assms(1) by (simp add: wire_env_def)
  then show ?thesis using wire_on_frame [OF _ _ w(2)] assms(1) unfolding w(3) by (simp add: wire_env_def)
qed

lemma wire_bus: "wire_inv ops w \<Longrightarrow> wire_inv ops (video_bus ev msg p w)"
proof -
  have "wire_inv ops w1 \<Longrightarrow> wire_inv ops (fold (video_on_bus ev) es w1)" for es w1
    by (induction es arbitrary: w1) (simp_all add: video_on_bus_def)
  then show "wire_inv ops w \<Longrightarrow> wire_inv ops (video_bus ev msg p w)" by (simp add: video_bus_def Let_def)
qed

lemma wire_worker:
  assumes "finite_scores (ev_dnn ev)" and "wire_inv ops w" and "detector_worker ev w = Some w'"
  shows "wire_inv ops w'"
  using assms by (auto simp: detector_worker_def Let_def wire_inv_def split: option.splits intro: detect_plain)

lemma wire_step:
  assumes "wire_env ev mq" and "wire_inv ops w" and "run_step ev ops e w = Some w'"
  shows "wire_inv ops w'"
  using assms wire_nuc [of ev mq ops w w'] wire_worker [of ev ops w w']
  by (cases e) (auto simp: wire_env_def wire_publishers wire_tick wire_bus split: option.splits if_splits
      intro: wire_new_sample [OF assms(1,2)])

lemma wire_events:
  "wire_env ev mq \<Longrightarrow> wire_inv ops w \<Longrightarrow> run_events ev ops es w = Some w' \<Longrightarrow> wire_inv ops w'"
  by (induction es arbitrary: w) (auto simp: bind_eq_Some_conv intro: wire_step)

section \<open>The start keeps it\<close>

lemma pub_wire_create:
  assumes "publisher_create (watched mq) cfg l = (Inr p, l')"
  shows "pub_wire (tc_name cfg) p"
  using assms
  by (auto simp: publisher_create_def impl_ctor_def construct_def watched_def seen_def pub_wire_def fail_def
      known_defs messages_def split: option.splits prod.splits if_splits)

lemma pub_wire_start: "pub_wire node p \<Longrightarrow> pub_wire node (snd (publisher_start (watched mq) p))"
  by (auto simp: publisher_start_def watched_def seen_def pub_wire_def plog_def Let_def case_prod_beta
      known_defs messages_def)

lemma yolo_create_plain:
  "plain_names ev \<Longrightarrow> yolo_create (ev_names ev) onnx darknet cfg = Inr y \<Longrightarrow> yolo_plain y"
  by (auto simp: yolo_create_def plain_names_def yolo_plain_def fail_def Let_def
      split: option.splits model_read.splits if_splits)

lemma wire_init:
  assumes "wire_env ev mq" and "wire_inv ops w"
  shows "wire_inv ops (snd (comp_init (svc_component ev ops tr k) w))"
proof (cases k)
  case K_video
  show ?thesis using assms(2) yolo_create_plain [of ev] assms(1) unfolding K_video
    by (auto simp: video_ops wire_env_def split: sum.splits intro!: wire_yolo)
next
  case K_telemetry
  show ?thesis using assms pub_wire_create [of mq] unfolding K_telemetry
    by (fastforce simp: telemetry_ops wire_env_def wire_inv_def split: sum.splits prod.splits)
qed (use assms in \<open>auto simp: log_ops sensor_ops split: sum.splits prod.splits\<close>)

lemma wire_start:
  assumes "wire_env ev mq" and "wire_inv ops w"
  shows "wire_inv ops (snd (comp_start (svc_component ev ops tr k) w))"
proof (cases k)
  case K_telemetry
  have "wire_inv ops (w\<lparr>sv_pub := Some ((snd (publisher_start (watched mq) p))\<lparr>p_logs := []\<rparr>)\<rparr>)"
    if "sv_pub w = Some p" for p
    using assms(2) pub_wire_start [of "op_node ops" p mq] that by (simp add: wire_inv_def)
  then show ?thesis using assms unfolding K_telemetry
    by (auto simp: telemetry_ops wire_env_def case_prod_beta split: option.splits sum.splits)
qed (use assms in \<open>auto simp: log_ops sensor_ops video_ops split: sum.splits prod.splits option.splits\<close>)

lemma wire_stop:
  assumes "wire_inv ops w"
  shows "wire_inv ops (comp_stop (svc_component ev ops tr k) w)"
  using assms
  by (cases k) (auto simp: log_ops sensor_ops video_ops telemetry_ops wire_inv_def split: option.splits)

interpretation wire: component_suite "services ev ops tr" "\<lambda>w. wire_env ev mq \<longrightarrow> wire_inv ops w"
  for ev :: "('c client, 'n) env" and ops tr mq
  by unfold_locales (auto simp: services_def wire_init wire_start wire_stop)

lemma wire_initial: "wire_inv ops (initial_world ops i)" "wire_inv ops (service_up ev w) = wire_inv ops w"
  by (simp_all add: initial_world_def wire_inv_def service_up_def case_prod_beta)

section \<open>The property\<close>

text \<open>
  C6. What a monitor of the running service sees: with class names that need no escape and finite
  scores, whatever else the broker library, GStreamer and OpenCV answer and whatever happens between the
  start and the stop in a run whose events are defined, every message goes, under the node's name, either
  to one of the three topics of SPEC-07 the service uses, with the quality of service and the retain
  flag of that topic, and is JSON of its kind: health retained and OK, sensor, one of the three correction
  events with quality of service 1; or to the topic \<^verbatim>\<open>detections\<close>, which the document does not list, as a
  JSON list of objects (unless that payload is exactly as long as its buffer). And the messages are
  exactly what the publisher counts as published or failed.
\<close>

theorem service_messages:
  assumes "ev_mosq ev = watched mq" and "plain_names ev" and "finite_scores (ev_dnn ev)"
    and "app_start (app_of (services ev ops tr)) (initial_world ops next_id) = (r, a, w)"
    and "run_events ev ops evs (service_up ev w) = Some w'"
  shows "(\<forall>m \<in> set (on_wire w'). known_message (op_node ops) m)
    \<and> (\<forall>p. sv_pub w' = Some p \<longrightarrow> p_published p + p_failed p = of_nat (messages (on_wire w')))"
proof -
  have ev: "wire_env ev mq" using assms(1-3) by (simp add: wire_env_def)
  then have "wire_inv ops w" using wire.app_start_keeps [OF _ assms(4)] wire_initial(1) by blast
  then have "wire_inv ops w'" using wire_events [OF ev _ assms(5)] by (simp add: wire_initial(2))
  then show ?thesis by (cases "sv_pub w'") (auto simp: wire_inv_def pub_wire_def on_wire_def)
qed

text \<open>A turn of the telemetry worker sends two messages.\<close>

lemma messages_publish:
  assumes "wire_inv ops w" and "sv_pub w \<noteq> None"
  shows "messages (on_wire (pub_do ev (publish (watched mq) leaf pl q r) w)) = Suc (messages (on_wire w))"
proof -
  obtain p c h where p: "sv_pub w = Some p" "p_client p = Some (c, h)"
    using assms by (auto simp: wire_inv_def pub_wire_def)
  obtain c1 t where "p_client (publish (watched mq) leaf pl q r p) = Some (c1, h @ [M_publish t pl q r])"
    using publish_seen [OF p(2)] by metis
  then show ?thesis using p by (simp add: pub_do_def on_wire_def messages_def Let_def)
qed

lemma messages_tick:
  assumes "ev_mosq ev = watched mq" and "wire_inv ops w" and "sv_pub w \<noteq> None"
  shows "messages (on_wire (telemetry_tick ev secs w)) = messages (on_wire w) + 2"
proof -
  let ?h = "\<lparr>hs_state = ''OK'', hs_uptime_s = secs, hs_faults = 0\<rparr>"
  have f: "publish_health (watched mq) ?h = publish (watched mq) ''health'' \<lparr>pl_bytes = health_text ?h, pl_over = 0\<rparr> kQosPeriodic True"
    "publish_sensor (watched mq) s = publish (watched mq) ''sensor'' \<lparr>pl_bytes = sensor_text s, pl_over = 0\<rparr> kQosPeriodic False" for s
    by (auto simp: fun_eq_iff publish_health_def publish_sensor_def publish_opt_def payloads_fit)
  have w: "wire_inv ops (pub_do ev (publish_health (watched mq) ?h) w)" by (rule wire_publishers(2) [OF assms(2)])
  have o: "on_wire (w1\<lparr>sv_isp := d\<rparr>) = on_wire w1" for w1 :: "('a client, 'b) world" and d by (simp add: on_wire_def)
  show ?thesis using messages_publish [OF assms(2,3)] messages_publish [of ops "pub_do ev (publish_health (watched mq) ?h) w\<lparr>sv_isp := d\<rparr>" for d] w assms(3)
    by (simp add: telemetry_tick_def sample_sensor_def Let_def case_prod_beta assms(1) f o)
qed

definition wire_demo :: "(unit client, unit) env" where
  "wire_demo = \<lparr>ev_clock = steady_every 0, ev_stamp = (\<lambda>n. n), ev_now = 0, ev_mosq = watched willing_mosq,
     ev_parse = (\<lambda>_. (True, False)), ev_by_name = (\<lambda>_ _. True), ev_set_ok = True, ev_get_ok = True,
     ev_names = (\<lambda>_. Some [''cat'']), ev_onnx = (\<lambda>_. Read_net ()), ev_darknet = (\<lambda>_ _. Read_net ()),
     ev_dnn = \<lparr>dn_detect = (\<lambda>_ _ _ _ _ _ _. Some ([0], [0x3F800000], [(1, 2, 3, 4)])),
       dn_forward = (\<lambda>_ _ _ _ _. None), dn_max_loc = (\<lambda>_. None), dn_nms = (\<lambda>_ _ _ _. None),
       dn_elapsed = (\<lambda>_ _. 1000)\<rparr>\<rparr>"

lemma wire_demo_facts:
  "ev_mosq wire_demo = watched willing_mosq" "plain_names wire_demo" "finite_scores (ev_dnn wire_demo)"
proof -
  have d: "dn_detect (ev_dnn wire_demo) n l w h sz t u = Some ([0], [0x3F800000], [(1, 2, 3, 4)])"
    "dn_forward (ev_dnn wire_demo) n l w h sz = None" for n l w h sz t u
    by (simp_all add: wire_demo_def)
  have one: "decode_float 0x3F800000 = Fin False 8388608 (- 23)" by (simp add: decode_float_def decode_fp_def)
  show "finite_scores (ev_dnn wire_demo)"
    unfolding finite_scores_def infer_def d by (auto simp: Let_def finite_fp_def one split: if_splits)
  show "ev_mosq wire_demo = watched willing_mosq" "plain_names wire_demo"
    by (simp_all add: wire_demo_def plain_names_def plain_rules plain_char_def)
qed

theorem service_messages_witness:
  "\<exists>a w w'. app_start (app_of (services wire_demo (options_default\<lparr>op_video := False, op_broker := ''h''\<rparr>) demo_transform))
        (initial_world (options_default\<lparr>op_video := False, op_broker := ''h''\<rparr>) 0) = (Inr (), a, w)
    \<and> run_events wire_demo (options_default\<lparr>op_video := False, op_broker := ''h''\<rparr>) [Ev_tick 5] (service_up wire_demo w) = Some w'
    \<and> messages (on_wire w') \<ge> 2
    \<and> (\<forall>m \<in> set (on_wire w'). known_message (op_node options_default) m)"
proof -
  let ?ops = "options_default\<lparr>op_video := False, op_broker := ''h''\<rparr>"
  note e = wire_demo_facts
  have "healthy wire_demo ?ops"
    by (simp add: healthy_def client_works_def wire_demo_def watched_def willing_mosq_def seen_def
        MOSQ_ERR_SUCCESS_def split_def)
  then obtain a w where run: "app_start (app_of (services wire_demo ?ops demo_transform)) (initial_world ?ops 0) = (Inr (), a, w)"
    and u: "up_to wire_demo ?ops (length (svc_kinds ?ops)) w"
    using service_up_everywhere by blast
  have "up K_telemetry w" using u by (simp add: up_to_def svc_kinds_def)
  then have t: "sv_pub (service_up wire_demo w) \<noteq> None" "sv_worker (service_up wire_demo w)"
    by (simp_all add: service_up_def case_prod_beta)
  let ?w' = "telemetry_tick wire_demo 5 (service_up wire_demo w)"
  have step: "run_events wire_demo ?ops [Ev_tick 5] (service_up wire_demo w) = Some ?w'" using t(2) by simp
  have "wire_inv ?ops (service_up wire_demo w)"
  proof -
    have "wire_env wire_demo willing_mosq" using e by (simp add: wire_env_def)
    then show ?thesis using wire.app_start_keeps [OF _ run] wire_initial by blast
  qed
  from messages_tick [OF e(1) this t(1)] service_messages [OF e run step] run step show ?thesis
    by (intro exI [of _ a] exI [of _ w] exI [of _ ?w']) simp
qed

end
