(* ===== verification/Spec2Isabelle.thy ===== *)
theory Spec2Isabelle
  imports App_Lifecycle Log_Ring_Threads Logger Logger_Sink Hal_Isp Hal_Uio Sensor_Nuc Sensor_Shared
    Telemetry_Json Telemetry_Clients Video_Pipeline Video_Refs Video_Threads Detect_Yolo Service_Options Service_Main Service_Run Service_Suite
    Service_Start Service_Threads Service_Time Service_Output Service_Wire
begin

text \<open>
  A model of Optronic, a sensor node service in C++, and what is proved of it. The service sequences
  four components (log, sensor, video, telemetry) through one lifecycle; the sensor talks to an image
  block through memory-mapped registers, the video component runs a GStreamer graph whose frames pass
  through a detector, and telemetry publishes JSON over MQTT. Each theory below models one part; the
  names of definitions follow the source.

  \<^item> \<open>Optronic_Base\<close>: the machine integers as words, decimal text and padding as \<^verbatim>\<open>printf\<close> and
    \<^verbatim>\<open>std::format\<close> make them, rule collections and generic lemmas. \<open>Fmt_Float\<close>: IEEE 754 values
    decoded from their bits and printed with a fixed number of digits, rounding half to even.
    \<open>Float32\<close>: single-precision multiplication, division, subtraction, comparison and conversion on bit
    patterns, computed exactly and rounded once; a float is the rounding of its own value
    (\<open>round_decode\<close>).
  \<^item> \<open>Core_Error\<close> (\<^verbatim>\<open>framework/core\<close>): error codes with their values; \<^verbatim>\<open>expected\<close> and
    \<^verbatim>\<open>status\<close> are sums whose left side is the error.
  \<^item> \<open>App_Lifecycle\<close> (\<^verbatim>\<open>framework/app\<close>): components are records of three operations on an
    arbitrary world; \<open>app_start\<close>, \<open>app_stop\<close> and the waiter are the loops of \<^verbatim>\<open>app.cpp\<close>. The order
    theorems run an instrumented copy of each component that also records its calls. The locales
    \<open>component_suite\<close>, \<open>quiet_suite\<close> and \<open>startable_suite\<close> state what a list of components owes the
    lifecycle; \<open>Service_Suite\<close> and \<open>Service_Start\<close> interpret them on the program's own services.
  \<^item> \<open>Log_Ring\<close> and \<open>Log_Ring_Threads\<close> (\<^verbatim>\<open>ring.hpp\<close>): the operations run alone refine a bounded
    queue (locale \<open>bounded_fifo\<close>); then the same operations as small steps of a producer and a consumer
    thread, where a load of the other side's index may return any value it has had since this thread's
    last look, with the invariant that gives order, capacity and the absence of data races.
  \<^item> \<open>Log_Record\<close> and \<open>Logger\<close> (\<^verbatim>\<open>framework/log\<close>): the record layout, truncation, the printed line;
    ring registration through the thread-local cache, \<open>logger_log\<close>, draining, drop reports, the sink
    thread's turns, stop and destruction. The draining loop is a \<open>partial_function (option)\<close> shown to
    return.
  \<^item> \<open>Logger_Threads\<close> and \<open>Logger_Sink\<close>: the logger again, as any number of logging threads, the sink
    thread and the owner run it around the mutex, one access to shared memory a step. One producer and
    one consumer per ring, which is what \<open>Log_Ring_Threads\<close> asks for; the order of what is printed;
    what a stop has printed; that the sink ends, by a measure on its own steps; and that under overload
    one drain goes on for as long as the overload does.
  \<^item> \<open>Hal_Mmio\<close>, \<open>Hal_Isp\<close>, \<open>Hal_Uio\<close> (\<^verbatim>\<open>framework/hal\<close>): backends with the typed register accesses on
    top (locales \<open>register_window\<close>, \<open>polled_window\<close>, \<open>storage_registers\<close>, interpreted on \<^verbatim>\<open>FakeMmio\<close>
    and the first two on \<^verbatim>\<open>UioRegion\<close>), the register map with the device model's hooks, and the mapped
    region with its ownership of descriptor and mapping. A hook that indexes outside the words sets
    \<open>dv_wild\<close>, the mark for undefined behaviour.
  \<^item> \<open>Sensor_Nuc\<close> (\<^verbatim>\<open>nuc.hpp\<close>): the correction sequence over any backend. Its clock is any sequence of
    readings that never goes back and grows without bound (type \<open>steady\<close>), so the polling loops return
    and no bound on the number of polls is needed. \<open>Sensor_Shared\<close>: the same procedure with the register
    accesses of the other threads between its own (locale \<open>same_answers\<close>, a simulation of backends,
    interpreted on the device alone and the device shared): nobody notices.
  \<^item> \<open>Telemetry\<close> (\<^verbatim>\<open>modules/telemetry\<close>): the payload formatters with the return value and the
    truncation of \<^verbatim>\<open>snprintf\<close>, the publisher's counters and warning, the library's reference count.
    What is published is the bytes handed over and \<open>pl_over\<close>, how far the length given to the library
    exceeds the buffer. \<open>Telemetry_Json\<close>: a reader for the JSON the payloads use, shown to read back
    every value from its tokens (with fuel twice their number), and through it what a subscriber finds in
    each payload: exactly the sample, unless a string needs an escape or a number is not finite.
    \<open>Telemetry_Clients\<close>: any number of publishers created, used, moved and destroyed, with the calls
    each client of the library sees and the use count.
  \<^item> \<open>Video_Spec\<close> and \<open>Video_Pipeline\<close> (\<^verbatim>\<open>modules/video\<close>): the graph text, the sample callback, the bus
    dispatch, play and stop. \<open>Video_Refs\<close> (\<^verbatim>\<open>gst_ptr.hpp\<close> with it): the GStreamer calls made, with
    the references acquired and given up and the buffers mapped; what a call does to a reference is a
    hypothesis (\<open>documented_transfers\<close>). \<open>Video_Threads\<close>: the pipeline object and the detector as the
    main thread, the bus thread, the sample callback, the telemetry worker and the detector's worker use
    them, one access a step, on every way through start and stop; whether GStreamer waits for a callback
    in progress when a graph is brought to NULL is an argument.
  \<^item> \<open>Detect_Yolo\<close> (\<^verbatim>\<open>modules/detect\<close>): file names, loading, decoding, boxes, pacing, the one-slot
    mailbox as a step relation of two threads. Copies past a frame, sizes no vector can have and sums of
    coordinates past \<^verbatim>\<open>int\<close> are \<open>None\<close>.
  \<^item> \<open>Service_Options\<close>, \<open>Service_Main\<close>, \<open>Service_Run\<close> (\<^verbatim>\<open>main.cpp\<close>): the command line, the four
    services over one world, a frame on its way through pipeline, detector and sink, a run as a list of
    events between start and stop, and \<^verbatim>\<open>main\<close>, with the correction that may run late.
  \<^item> \<open>Service_Suite\<close>: the services keep an invariant and quieten, so every run ends with everything
    stopped; sufficient conditions for every event of a run to be defined. \<open>Service_Start\<close>: in a healthy
    environment every component comes up, and under those conditions every run returns.
    \<open>Service_Threads\<close>: the publisher as the main thread, the telemetry worker, the streaming thread and the timer share it, in small steps. \<open>Service_Time\<close>: how long after a
    signal the stop begins, in milliseconds. \<open>Service_Output\<close>: what \<^verbatim>\<open>stderr\<close> shows when the service
    does not run, the usage text against the options accepted. \<open>Service_Wire\<close>: the messages of a run as a
    subscriber reads them, against the topics, kinds and flags the documents give.
\<close>

text \<open>
  What is a parameter. GStreamer, OpenCV, libmosquitto, the operating system's calls and the clocks are
  not part of the repository: what they return is an argument of the definitions (records \<open>mosq\<close>,
  \<open>env\<close>, \<open>dnn\<close>, \<open>steady\<close>). Most theorems hold for every answer they may give; where one needs a
  documented behaviour, it is a named hypothesis: \<open>documented_transfers\<close> (GStreamer references),
  \<open>nms_documented\<close> and \<open>detect_documented\<close> (OpenCV), \<open>frames_whole\<close> (a buffer of negotiated caps holds its
  luma plane), \<open>healthy\<close> (what has to work for a start). \<open>modest\<close> is not documented behaviour but a bound on
  the inputs: boxes that can be drawn and reports that fit their payload.

  Concurrency. The ring, the logger around its mutex, the mailbox and the register block during a
  correction are modelled with their interleavings. In the services a logger operation is one step. In \<open>Service_Main\<close> the services run on
  one thread; in \<open>Service_Run\<close> what the other threads do is any sequence of whole callbacks and turns
  (frames, bus messages, the two workers, the correction, broker callbacks) between start and stop. A
  \<^verbatim>\<open>None\<close> there is behaviour C++ leaves undefined (a read past a frame or a payload, an overflow of
  \<^verbatim>\<open>int\<close>, a division by zero), an exception that leaves a \<^verbatim>\<open>noexcept\<close> function, or a stop that never
  comes. The two objects
  that are made and destroyed while other threads may use them, the publisher and the pipeline, have
  their interleavings in \<open>Service_Threads\<close> and \<open>Video_Threads\<close>.

  Bounds. Memory is not bounded: an allocation fails only when no vector can be that long. Indices, counters and register values keep their width and wrap. The one bound of the model is
  that of the source: 1024 slots of a ring, 1024 words of a window.

  Not modelled. The release and acquire fences of register accesses (they have no value in a sequential
  model); inference itself, colour conversion and the suppression of overlapping boxes; flushing, and the
  sleeping of the workers, which change no state; tests, tools, containers and build files.
\<close>

end
